(* ===== verification/Prelude.thy ===== *)
theory Prelude
  imports Main "HOL-Library.Word" "HOL-Library.FSet"
begin

text \<open>
  The vocabulary every component shares: Rust's machine integers as words of their width,
  \<open>Result\<close> as a sum, the checked and saturating operations of \<open>std\<close>, the combinators on
  \<open>Option\<close> the sources use, and the generic facts on words, options and lists that the
  component proofs rest on.
\<close>

section \<open>Types\<close>

text \<open>
  \<open>usize\<close> is 64 bits wide on every target the repository builds for. A UUID is its 128-bit
  value: the byte-wise order of \<open>uuid::Uuid\<close> is the unsigned order of that value.
\<close>

type_synonym u8 = "8 word"
type_synonym u32 = "32 word"
type_synonym u64 = "64 word"
type_synonym u128 = "128 word"
type_synonym usize = "64 word"
type_synonym uuid = "128 word"

text \<open>\<open>Result<T, E>\<close>: the error is the left injection.\<close>

type_synonym ('a, 'e) result = "'e + 'a"

text \<open>
  A value that may be missing because the code panics on the way. \<open>None\<close> is the panic, so
  that a function that never panics is one that never returns \<open>None\<close>.
\<close>

type_synonym 'a panics = "'a option"

abbreviation Ok :: "'a \<Rightarrow> ('a, 'e) result" where
  "Ok \<equiv> Inr"

abbreviation Err :: "'e \<Rightarrow> ('a, 'e) result" where
  "Err \<equiv> Inl"

section \<open>Integer operations of the standard library\<close>

definition checked_add :: "'w::len word \<Rightarrow> 'w word \<Rightarrow> 'w word option" where
  "checked_add a b = (if unat a + unat b < 2 ^ LENGTH('w) then Some (a + b) else None)"

definition checked_mul :: "'w::len word \<Rightarrow> 'w word \<Rightarrow> 'w word option" where
  "checked_mul a b = (if unat a * unat b < 2 ^ LENGTH('w) then Some (a * b) else None)"

definition checked_sub :: "'w::len word \<Rightarrow> 'w word \<Rightarrow> 'w word option" where
  "checked_sub a b = (if b \<le> a then Some (a - b) else None)"

definition saturating_add :: "'w::len word \<Rightarrow> 'w word \<Rightarrow> 'w word" where
  "saturating_add a b = (if unat a + unat b < 2 ^ LENGTH('w) then a + b else - 1)"

definition saturating_sub :: "'w::len word \<Rightarrow> 'w word \<Rightarrow> 'w word" where
  "saturating_sub a b = (if b \<le> a then a - b else 0)"

definition saturating_mul :: "'w::len word \<Rightarrow> 'w word \<Rightarrow> 'w word" where
  "saturating_mul a b = (if unat a * unat b < 2 ^ LENGTH('w) then a * b else - 1)"

section \<open>Combinators on options\<close>

primrec is_some_and :: "'a option \<Rightarrow> ('a \<Rightarrow> bool) \<Rightarrow> bool" where
  "is_some_and None P = False"
| "is_some_and (Some x) P = P x"

primrec is_ok :: "('a, 'e) result \<Rightarrow> bool" where
  "is_ok (Inl e) = False"
| "is_ok (Inr x) = True"

section \<open>Collections\<close>

named_theorems word_arith \<open>facts that read checked and saturating word operations as numbers\<close>

section \<open>Facts on words\<close>

lemma checked_add_Some_iff [word_arith]:
  "checked_add a b = Some c \<longleftrightarrow> unat c = unat a + unat b"
  for a b c :: "'w::len word"
  by (auto simp: checked_add_def unat_word_ariths word_unat_eq_iff
      intro: order.strict_trans1 [OF _ unsigned_less [of c]])

lemma checked_add_None_iff [word_arith]:
  "checked_add a b = None \<longleftrightarrow> 2 ^ LENGTH('w) \<le> unat a + unat b"
  for a b :: "'w::len word"
  by (auto simp: checked_add_def)

lemma checked_mul_Some_iff [word_arith]:
  "checked_mul a b = Some c \<longleftrightarrow> unat c = unat a * unat b"
  for a b c :: "'w::len word"
  by (auto simp: checked_mul_def unat_word_ariths word_unat_eq_iff
      intro: order.strict_trans1 [OF _ unsigned_less [of c]])

lemma checked_sub_Some_iff [word_arith]:
  "checked_sub a b = Some c \<longleftrightarrow> unat b \<le> unat a \<and> unat c = unat a - unat b"
  for a b c :: "'w::len word"
  by (auto simp: checked_sub_def word_le_nat_alt unat_sub word_unat_eq_iff)

lemma min_pred_eq: "0 < n \<Longrightarrow> min x (n - 1) = (if x < n then x else n - 1)" for x n :: nat
  by auto

lemma unat_saturating_add [word_arith]:
  "unat (saturating_add a b) = min (unat a + unat b) (2 ^ LENGTH('w) - 1)"
  for a b :: "'w::len word"
  by (simp add: saturating_add_def min_pred_eq unat_word_ariths unsigned_minus_1_eq_mask
      mask_eq_exp_minus_1)

text \<open>Evaluation compares words, not the numbers they stand for.\<close>

lemma saturating_add_code [code]: "saturating_add a b = (if a \<le> a + b then a + b else - 1)"
  for a b :: "'w::len word"
  by (simp add: saturating_add_def no_olen_add_nat)

lemma saturating_add_ge: "a \<le> saturating_add a b" for a b :: "'w::len word"
proof -
  have "unat a < 2 ^ LENGTH('w)" by simp
  then have "unat a \<le> 2 ^ LENGTH('w) - 1" by linarith
  then show ?thesis by (simp add: word_le_nat_alt unat_saturating_add)
qed

lemma saturating_add_1_less: "a \<noteq> - 1 \<Longrightarrow> a < saturating_add a 1" for a :: u64
proof -
  assume "a \<noteq> - 1"
  then have "unat a \<noteq> 2 ^ 64 - 1"
    by (simp add: word_unat_eq_iff unsigned_minus_1_eq_mask mask_eq_exp_minus_1)
  moreover have "unat a < 2 ^ 64"
    using unsigned_less [of a] by simp
  ultimately show ?thesis
    by (simp add: word_less_nat_alt unat_saturating_add)
qed

lemma unat_saturating_sub [word_arith]:
  "unat (saturating_sub a b) = unat a - unat b"
  for a b :: "'w::len word"
  by (auto simp: saturating_sub_def word_le_nat_alt unat_sub)

lemma unat_saturating_mul [word_arith]:
  "unat (saturating_mul a b) = min (unat a * unat b) (2 ^ LENGTH('w) - 1)"
  for a b :: "'w::len word"
  by (simp add: saturating_mul_def min_pred_eq unat_word_ariths unsigned_minus_1_eq_mask
      mask_eq_exp_minus_1)

section \<open>Facts on remainders\<close>

lemma mod_shift_inject:
  fixes m n k h :: nat
  assumes "(h + m) mod k = (h + n) mod k" and "m < k" and "n < k"
  shows "m = n"
proof -
  have le: "i = j" if "j \<le> i" "i < k" "(h + i) mod k = (h + j) mod k" for i j
  proof -
    have "k dvd (h + i) - (h + j)" using that by (simp add: mod_eq_dvd_iff_nat)
    then have "k dvd i - j" by simp
    then show ?thesis using that by (auto dest!: dvd_imp_le)
  qed
  show ?thesis using le [of n m] le [of m n] assms by (cases "n \<le> m") auto
qed

lemma mod_walk_image:
  fixes c n :: nat
  assumes "0 < n"
  shows "inj_on (\<lambda>i. (c + i) mod n) {..<n}" and "(\<lambda>i. (c + i) mod n) ` {..<n} = {..<n}"
proof -
  show inj: "inj_on (\<lambda>i. (c + i) mod n) {..<n}"
    by (rule inj_onI) (auto dest: mod_shift_inject)
  show "(\<lambda>i. (c + i) mod n) ` {..<n} = {..<n}"
    using assms inj by (intro card_subset_eq) (auto simp: card_image)
qed

lemma unat_bounds [simp]: "unat x < 2 ^ 64" "unat y < 2 ^ 128" for x :: u64 and y :: u128
  using unsigned_less [of x] unsigned_less [of y] by simp_all

section \<open>Facts on options and results\<close>

lemma is_some_and_iff: "is_some_and x P \<longleftrightarrow> (\<exists>y. x = Some y \<and> P y)"
  by (cases x) auto

lemma not_is_some_and_iff: "\<not> is_some_and x P \<longleftrightarrow> (\<forall>y. x = Some y \<longrightarrow> \<not> P y)"
  by (cases x) auto

lemma is_ok_iff: "is_ok r \<longleftrightarrow> (\<exists>x. r = Ok x)"
  by (cases r) auto

lemma is_ok_unit_iff: "is_ok r \<longleftrightarrow> r = Ok ()"
  by (cases r) auto

lemma is_ok_if [simp]: "is_ok (if b then x else y) = (if b then is_ok x else is_ok y)"
  by simp

end
