(* ===== verification/Volume_Identity.thy ===== *)
theory Volume_Identity
  imports Prelude
begin

text \<open>
  \<open>crates/mantissa-volume/src/identity.rs\<close>: the checked newtypes that name volumes, nodes,
  sessions, grants, fences and generations. Each newtype is a one-constructor datatype and
  its \<open>new\<close> is the checked constructor. \<open>FenceEpoch\<close> carries the derived order of the
  source, as an instance of \<open>linorder\<close>.
\<close>

section \<open>Errors\<close>

datatype IdentityError =
    NilVolumeId
  | NilOperationId
  | NilFilesystemId
  | NilVolumeNodeId
  | NilDriverSessionId
  | NilRecoveryId
  | NilReplacementId
  | ZeroFenceEpoch
  | ZeroGeneration

section \<open>Identifiers made from UUIDs\<close>

datatype VolumeId = VolumeId (volume_id_uuid: uuid)
datatype OperationId = OperationId (operation_id_uuid: uuid)
datatype FilesystemId = FilesystemId (filesystem_id_uuid: uuid)
datatype VolumeNodeId = VolumeNodeId (volume_node_id_uuid: uuid)
datatype DriverSessionId = DriverSessionId (driver_session_id_uuid: uuid)
datatype RecoveryId = RecoveryId (recovery_id_uuid: uuid)
datatype ReplacementId = ReplacementId (replacement_id_uuid: uuid)

definition is_nil :: "uuid \<Rightarrow> bool" where
  "is_nil value \<longleftrightarrow> value = 0"

definition VolumeId_new :: "uuid \<Rightarrow> (VolumeId, IdentityError) result" where
  "VolumeId_new value = (if is_nil value then Err NilVolumeId else Ok (VolumeId value))"

definition OperationId_new :: "uuid \<Rightarrow> (OperationId, IdentityError) result" where
  "OperationId_new value =
     (if is_nil value then Err NilOperationId else Ok (OperationId value))"

definition FilesystemId_new :: "uuid \<Rightarrow> (FilesystemId, IdentityError) result" where
  "FilesystemId_new value =
     (if is_nil value then Err NilFilesystemId else Ok (FilesystemId value))"

definition VolumeNodeId_new :: "uuid \<Rightarrow> (VolumeNodeId, IdentityError) result" where
  "VolumeNodeId_new value =
     (if is_nil value then Err NilVolumeNodeId else Ok (VolumeNodeId value))"

definition DriverSessionId_new :: "uuid \<Rightarrow> (DriverSessionId, IdentityError) result" where
  "DriverSessionId_new value =
     (if is_nil value then Err NilDriverSessionId else Ok (DriverSessionId value))"

definition RecoveryId_new :: "uuid \<Rightarrow> (RecoveryId, IdentityError) result" where
  "RecoveryId_new value =
     (if is_nil value then Err NilRecoveryId else Ok (RecoveryId value))"

definition ReplacementId_new :: "uuid \<Rightarrow> (ReplacementId, IdentityError) result" where
  "ReplacementId_new value =
     (if is_nil value then Err NilReplacementId else Ok (ReplacementId value))"

text \<open>The two \<open>From\<close> conversions into \<open>OperationId\<close>.\<close>

definition OperationId_from_RecoveryId :: "RecoveryId \<Rightarrow> OperationId" where
  "OperationId_from_RecoveryId value = OperationId (recovery_id_uuid value)"

definition OperationId_from_ReplacementId :: "ReplacementId \<Rightarrow> OperationId" where
  "OperationId_from_ReplacementId value = OperationId (replacement_id_uuid value)"

section \<open>Fences and generations\<close>

datatype FenceEpoch = FenceEpoch (fence_get: u64)

definition FenceEpoch_new :: "u64 \<Rightarrow> (FenceEpoch, IdentityError) result" where
  "FenceEpoch_new value = (if value = 0 then Err ZeroFenceEpoch else Ok (FenceEpoch value))"

definition fence_initial :: FenceEpoch where
  "fence_initial = FenceEpoch 1"

definition fence_next :: "FenceEpoch \<Rightarrow> FenceEpoch option" where
  "fence_next self =
     (case checked_add (fence_get self) 1 of
        Some value \<Rightarrow> Some (FenceEpoch value)
      | None \<Rightarrow> None)"

datatype VolumeGeneration = VolumeGeneration (generation_get: u64)

definition VolumeGeneration_new :: "u64 \<Rightarrow> (VolumeGeneration, IdentityError) result" where
  "VolumeGeneration_new value =
     (if value = 0 then Err ZeroGeneration else Ok (VolumeGeneration value))"

text \<open>The derived order of \<open>FenceEpoch\<close>.\<close>

instantiation FenceEpoch :: linorder
begin

definition less_eq_FenceEpoch :: "FenceEpoch \<Rightarrow> FenceEpoch \<Rightarrow> bool" where
  "less_eq_FenceEpoch a b \<longleftrightarrow> fence_get a \<le> fence_get b"

definition less_FenceEpoch :: "FenceEpoch \<Rightarrow> FenceEpoch \<Rightarrow> bool" where
  "less_FenceEpoch a b \<longleftrightarrow> fence_get a < fence_get b"

instance
  by standard (auto simp: less_eq_FenceEpoch_def less_FenceEpoch_def FenceEpoch.expand)

end

section \<open>Facts\<close>

lemma fence_le_unat: "a \<le> b \<longleftrightarrow> unat (fence_get a) \<le> unat (fence_get b)" for a b :: FenceEpoch
  by (simp add: less_eq_FenceEpoch_def word_le_nat_alt)

lemma fence_less_unat: "a < b \<longleftrightarrow> unat (fence_get a) < unat (fence_get b)" for a b :: FenceEpoch
  by (simp add: less_FenceEpoch_def word_less_nat_alt)

lemma fence_next_Some_iff:
  "fence_next f = Some g \<longleftrightarrow> unat (fence_get g) = unat (fence_get f) + 1"
proof -
  have "fence_next f = Some g \<longleftrightarrow> checked_add (fence_get f) 1 = Some (fence_get g)"
    by (cases g) (auto simp: fence_next_def split: option.splits)
  then show ?thesis by (simp add: word_arith)
qed

lemma fence_next_less: "fence_next f = Some g \<Longrightarrow> f < g"
  by (simp add: fence_next_Some_iff fence_less_unat)

end
