(* ===== verification/Volume_Descriptor.thy ===== *)
theory Volume_Descriptor
  imports Volume_Identity
begin

text \<open>
  \<open>block_sizes.rs\<close> and \<open>descriptor.rs\<close> of \<open>crates/mantissa-volume/src\<close>: the four block
  sizes of a volume, its capacity and its descriptor, with the checked conversions from a
  logical block number to a byte offset.
\<close>

section \<open>Block sizes\<close>

definition REQUIRED_BLOCK_BYTES :: u32 where
  "REQUIRED_BLOCK_BYTES = 4 * 1024"

datatype BlockSizeSetting = LogicalSector | PhysicalBlock | MinimumIo | DataBlock

datatype LogicalSectorSize = LogicalSectorSize (logical_sector_bytes: u32)
datatype PhysicalBlockSize = PhysicalBlockSize (physical_block_bytes: u32)
datatype MinimumIoSize = MinimumIoSize (minimum_io_bytes: u32)
datatype DataBlockSize = DataBlockSize (data_block_bytes: u32)

text \<open>\<open>Unsupported\<close> carries the setting, the actual size and the required size.\<close>

datatype BlockSizeError = Unsupported BlockSizeSetting u32 u32

definition validate_size :: "BlockSizeSetting \<Rightarrow> u32 \<Rightarrow> (u32, BlockSizeError) result" where
  "validate_size setting bytes =
     (if bytes \<noteq> REQUIRED_BLOCK_BYTES
      then Err (Unsupported setting bytes REQUIRED_BLOCK_BYTES)
      else Ok bytes)"

definition LogicalSectorSize_new :: "u32 \<Rightarrow> (LogicalSectorSize, BlockSizeError) result" where
  "LogicalSectorSize_new bytes = map_sum id LogicalSectorSize (validate_size LogicalSector bytes)"

definition PhysicalBlockSize_new :: "u32 \<Rightarrow> (PhysicalBlockSize, BlockSizeError) result" where
  "PhysicalBlockSize_new bytes = map_sum id PhysicalBlockSize (validate_size PhysicalBlock bytes)"

definition MinimumIoSize_new :: "u32 \<Rightarrow> (MinimumIoSize, BlockSizeError) result" where
  "MinimumIoSize_new bytes = map_sum id MinimumIoSize (validate_size MinimumIo bytes)"

definition DataBlockSize_new :: "u32 \<Rightarrow> (DataBlockSize, BlockSizeError) result" where
  "DataBlockSize_new bytes = map_sum id DataBlockSize (validate_size DataBlock bytes)"

record VolumeBlockSizes =
  vbs_logical_sector :: LogicalSectorSize
  vbs_physical_block :: PhysicalBlockSize
  vbs_minimum_io :: MinimumIoSize
  vbs_data_block :: DataBlockSize

definition VolumeBlockSizes_new ::
  "u32 \<Rightarrow> u32 \<Rightarrow> u32 \<Rightarrow> u32 \<Rightarrow> (VolumeBlockSizes, BlockSizeError) result" where
  "VolumeBlockSizes_new logical_sector physical_block minimum_io data_block =
     (case LogicalSectorSize_new logical_sector of
        Inl e \<Rightarrow> Err e
      | Inr l \<Rightarrow> (case PhysicalBlockSize_new physical_block of
        Inl e \<Rightarrow> Err e
      | Inr p \<Rightarrow> (case MinimumIoSize_new minimum_io of
        Inl e \<Rightarrow> Err e
      | Inr m \<Rightarrow> (case DataBlockSize_new data_block of
        Inl e \<Rightarrow> Err e
      | Inr d \<Rightarrow> Ok \<lparr>vbs_logical_sector = l, vbs_physical_block = p,
                    vbs_minimum_io = m, vbs_data_block = d\<rparr>))))"

definition VolumeBlockSizes_supported :: VolumeBlockSizes where
  "VolumeBlockSizes_supported =
     \<lparr>vbs_logical_sector = LogicalSectorSize REQUIRED_BLOCK_BYTES,
      vbs_physical_block = PhysicalBlockSize REQUIRED_BLOCK_BYTES,
      vbs_minimum_io = MinimumIoSize REQUIRED_BLOCK_BYTES,
      vbs_data_block = DataBlockSize REQUIRED_BLOCK_BYTES\<rparr>"

section \<open>Capacity, block numbers and offsets\<close>

datatype VolumeCapacity = VolumeCapacity (capacity_bytes: u64)
datatype LogicalBlockNumber = LogicalBlockNumber (block_number_get: u64)
datatype ByteOffset = ByteOffset (offset_bytes: u64)

text \<open>
  \<open>MisalignedCapacity\<close> carries the capacity, the setting and its alignment;
  \<open>ByteOffsetOverflow\<close> the block number and the sector size; \<open>BlockOutOfBounds\<close> the block
  number and the block count.
\<close>

datatype DescriptorError =
    ZeroCapacity
  | MisalignedCapacity u64 BlockSizeSetting u32
  | ByteOffsetOverflow u64 u64
  | BlockOutOfBounds u64 u64

definition VolumeCapacity_new :: "u64 \<Rightarrow> (VolumeCapacity, DescriptorError) result" where
  "VolumeCapacity_new bytes = (if bytes = 0 then Err ZeroCapacity else Ok (VolumeCapacity bytes))"

section \<open>The descriptor\<close>

record VolumeDescriptor =
  vd_volume_id :: VolumeId
  vd_generation :: VolumeGeneration
  vd_capacity :: VolumeCapacity
  vd_block_sizes :: VolumeBlockSizes

text \<open>\<open>is_multiple_of\<close> is total: only zero is a multiple of zero.\<close>

definition is_multiple_of :: "u64 \<Rightarrow> u64 \<Rightarrow> bool" where
  "is_multiple_of a b \<longleftrightarrow> (if b = 0 then a = 0 else a mod b = 0)"

definition alignments :: "VolumeBlockSizes \<Rightarrow> (BlockSizeSetting \<times> u32) list" where
  "alignments block_sizes =
     [(LogicalSector, logical_sector_bytes (vbs_logical_sector block_sizes)),
      (PhysicalBlock, physical_block_bytes (vbs_physical_block block_sizes)),
      (MinimumIo, minimum_io_bytes (vbs_minimum_io block_sizes)),
      (DataBlock, data_block_bytes (vbs_data_block block_sizes))]"

text \<open>The \<open>for\<close> loop of \<open>VolumeDescriptor::new\<close>, with its early return.\<close>

fun check_alignments :: "u64 \<Rightarrow> (BlockSizeSetting \<times> u32) list \<Rightarrow> (unit, DescriptorError) result" where
  "check_alignments bytes [] = Ok ()"
| "check_alignments bytes ((setting, alignment) # rest) =
     (if \<not> is_multiple_of bytes (ucast alignment)
      then Err (MisalignedCapacity bytes setting alignment)
      else check_alignments bytes rest)"

definition VolumeDescriptor_new ::
  "VolumeId \<Rightarrow> VolumeGeneration \<Rightarrow> u64 \<Rightarrow> VolumeBlockSizes
     \<Rightarrow> (VolumeDescriptor, DescriptorError) result" where
  "VolumeDescriptor_new volume_id generation bytes block_sizes =
     (case VolumeCapacity_new bytes of
        Inl e \<Rightarrow> Err e
      | Inr capacity \<Rightarrow> (case check_alignments bytes (alignments block_sizes) of
        Inl e \<Rightarrow> Err e
      | Inr _ \<Rightarrow> Ok \<lparr>vd_volume_id = volume_id, vd_generation = generation,
                    vd_capacity = capacity, vd_block_sizes = block_sizes\<rparr>))"

definition with_capacity ::
  "VolumeDescriptor \<Rightarrow> VolumeCapacity \<Rightarrow> (VolumeDescriptor, DescriptorError) result" where
  "with_capacity self capacity =
     VolumeDescriptor_new (vd_volume_id self) (vd_generation self)
       (capacity_bytes capacity) (vd_block_sizes self)"

definition has_same_storage_identity :: "VolumeDescriptor \<Rightarrow> VolumeDescriptor \<Rightarrow> bool" where
  "has_same_storage_identity self other \<longleftrightarrow>
     vd_volume_id self = vd_volume_id other
     \<and> vd_generation self = vd_generation other
     \<and> vd_block_sizes self = vd_block_sizes other"

definition with_prevalidated_capacity :: "VolumeDescriptor \<Rightarrow> u64 \<Rightarrow> VolumeDescriptor" where
  "with_prevalidated_capacity self bytes = self\<lparr>vd_capacity := VolumeCapacity bytes\<rparr>"

text \<open>The sector size as the \<open>u64\<close> both conversions use.\<close>

definition sector_bytes :: "VolumeDescriptor \<Rightarrow> u64" where
  "sector_bytes self = ucast (logical_sector_bytes (vbs_logical_sector (vd_block_sizes self)))"

definition logical_block_count :: "VolumeDescriptor \<Rightarrow> u64" where
  "logical_block_count self = capacity_bytes (vd_capacity self) div sector_bytes self"

definition byte_offset ::
  "VolumeDescriptor \<Rightarrow> LogicalBlockNumber \<Rightarrow> (ByteOffset, DescriptorError) result" where
  "byte_offset self block_number =
     (case checked_mul (block_number_get block_number) (sector_bytes self) of
        None \<Rightarrow> Err (ByteOffsetOverflow (block_number_get block_number) (sector_bytes self))
      | Some offset \<Rightarrow>
          (if capacity_bytes (vd_capacity self) \<le> offset
           then Err (BlockOutOfBounds (block_number_get block_number) (logical_block_count self))
           else Ok (ByteOffset offset)))"

text \<open>The derived order of \<open>VolumeCapacity\<close>.\<close>

instantiation VolumeCapacity :: linorder
begin

definition less_eq_VolumeCapacity :: "VolumeCapacity \<Rightarrow> VolumeCapacity \<Rightarrow> bool" where
  "less_eq_VolumeCapacity a b \<longleftrightarrow> capacity_bytes a \<le> capacity_bytes b"

definition less_VolumeCapacity :: "VolumeCapacity \<Rightarrow> VolumeCapacity \<Rightarrow> bool" where
  "less_VolumeCapacity a b \<longleftrightarrow> capacity_bytes a < capacity_bytes b"

instance
  by standard
    (auto simp: less_eq_VolumeCapacity_def less_VolumeCapacity_def VolumeCapacity.expand)

end

text \<open>
  The descriptors the private fields of the source allow: the four sizes pass
  \<open>validate_size\<close> and the capacity is a non-zero multiple of them.
\<close>

definition descriptor_wf :: "VolumeDescriptor \<Rightarrow> bool" where
  "descriptor_wf d \<longleftrightarrow>
     vd_block_sizes d = VolumeBlockSizes_supported
     \<and> capacity_bytes (vd_capacity d) \<noteq> 0
     \<and> unat (capacity_bytes (vd_capacity d)) mod 4096 = 0"

section \<open>Facts\<close>

lemma validate_size_ok_iff: "validate_size setting b = Ok x \<longleftrightarrow> b = REQUIRED_BLOCK_BYTES \<and> x = b"
  by (auto simp: validate_size_def)

lemma capacity_le_unat:
  "a \<le> b \<longleftrightarrow> unat (capacity_bytes a) \<le> unat (capacity_bytes b)" for a b :: VolumeCapacity
  by (simp add: less_eq_VolumeCapacity_def word_le_nat_alt)

lemma same_storage_identity_refl [simp]: "has_same_storage_identity d d"
  by (simp add: has_same_storage_identity_def)

lemma same_storage_identity_trans:
  "has_same_storage_identity a b \<Longrightarrow> has_same_storage_identity b c \<Longrightarrow> has_same_storage_identity a c"
  by (simp add: has_same_storage_identity_def)

lemma VolumeBlockSizes_new_ok:
  "VolumeBlockSizes_new l p m d = Ok sizes \<Longrightarrow> sizes = VolumeBlockSizes_supported"
  by (auto simp: VolumeBlockSizes_new_def LogicalSectorSize_new_def PhysicalBlockSize_new_def
      MinimumIoSize_new_def DataBlockSize_new_def validate_size_def VolumeBlockSizes_supported_def
      split: if_splits)

text \<open>\<open>with_capacity\<close> changes the capacity and nothing else, to the one asked for.\<close>

lemma with_capacity_ok:
  assumes "with_capacity d capacity = Ok d'"
  shows "vd_capacity d' = capacity" and "has_same_storage_identity d' d"
  using assms
  by (cases capacity;
      auto simp: with_capacity_def VolumeDescriptor_new_def VolumeCapacity_new_def
        has_same_storage_identity_def split: if_splits sum.splits)+

lemma sector_bytes_supported [simp]:
  "vd_block_sizes d = VolumeBlockSizes_supported \<Longrightarrow> sector_bytes d = 4096"
  by (simp add: sector_bytes_def VolumeBlockSizes_supported_def REQUIRED_BLOCK_BYTES_def)

lemma check_alignments_supported:
  "check_alignments b (alignments VolumeBlockSizes_supported) = Ok () \<longleftrightarrow> unat b mod 4096 = 0"
proof -
  have "b mod 4096 = 0 \<longleftrightarrow> unat b mod 4096 = 0"
    by (simp add: word_unat_eq_iff unat_mod)
  then show ?thesis
    by (simp add: alignments_def VolumeBlockSizes_supported_def REQUIRED_BLOCK_BYTES_def
        is_multiple_of_def)
qed

text \<open>A checked constructor builds exactly the well-formed descriptors.\<close>

lemma VolumeDescriptor_new_wf:
  assumes "VolumeDescriptor_new v g b VolumeBlockSizes_supported = Ok d"
  shows "descriptor_wf d"
  using assms check_alignments_supported [of b]
  by (auto simp: VolumeDescriptor_new_def VolumeCapacity_new_def descriptor_wf_def
      split: if_splits sum.splits)

lemma with_capacity_wf: "descriptor_wf d \<Longrightarrow> with_capacity d c = Ok d' \<Longrightarrow> descriptor_wf d'"
  by (metis VolumeDescriptor_new_wf descriptor_wf_def with_capacity_def)

section \<open>Logical blocks and byte offsets\<close>

lemma logical_block_count_unat:
  "descriptor_wf d \<Longrightarrow>
     unat (logical_block_count d) * 4096 = unat (capacity_bytes (vd_capacity d))"
  by (auto simp: logical_block_count_def descriptor_wf_def unat_div)

lemma byte_offset_ok_iff:
  assumes "descriptor_wf d"
  shows "byte_offset d n = Ok off \<longleftrightarrow>
     unat (block_number_get n) < unat (logical_block_count d)
     \<and> unat (offset_bytes off) = unat (block_number_get n) * 4096"
proof -
  let ?n = "block_number_get n" and ?c = "capacity_bytes (vd_capacity d)"
  have "byte_offset d n = Ok off \<longleftrightarrow>
      checked_mul ?n 4096 = Some (offset_bytes off) \<and> offset_bytes off < ?c"
    using assms by (cases off) (auto simp: byte_offset_def descriptor_wf_def split: option.splits)
  also have "\<dots> \<longleftrightarrow> unat (offset_bytes off) = unat ?n * 4096 \<and> unat ?n * 4096 < unat ?c"
    by (auto simp: word_arith word_less_nat_alt)
  finally show ?thesis
    using logical_block_count_unat [OF assms] by auto
qed

end
