(* ===== verification/Volume_Control.thy ===== *)
theory Volume_Control
  imports Volume_Descriptor
begin

text \<open>
  \<open>crates/mantissa-volume/src/control_state.rs\<close>: the state each volume's Raft group agrees
  on (descriptor, revision, disposition, fence, copies, writer, recovery and replacement
  grants) and the ten semantic commands. A \<open>BTreeSet<VolumeNodeId>\<close> is an \<open>fset\<close>.

  Every command is one function from the current state to a \<^emph>\<open>plan\<close>: the next state and
  the response. The accessors \<open>data_ref\<close> and \<open>data_mut\<close> panic on a state without data, so
  the functions that call them return a \<open>panics\<close> value. \<open>CommandPlan::applied\<close> also asserts
  in debug builds that the next state validates; the development proves that it does
  (\<open>evaluate_sound\<close>), so the model of \<open>applied\<close> carries no check.
\<close>

section \<open>Data\<close>

datatype VolumeDisposition = Live | Retained

record WriterGrant =
  wg_node_id :: VolumeNodeId
  wg_session_id :: DriverSessionId

record RecoveryGrant =
  rcg_id :: RecoveryId
  rcg_coordinator_node_id :: VolumeNodeId
  rcg_source_node_id :: VolumeNodeId
  rcg_target_node_ids :: "VolumeNodeId fset"

record ReplacementGrant =
  rpg_id :: ReplacementId
  rpg_coordinator_node_id :: VolumeNodeId
  rpg_old_node_id :: "VolumeNodeId option"
  rpg_new_node_id :: VolumeNodeId
  rpg_source_node_id :: VolumeNodeId

record DataControlState =
  dcs_fence :: FenceEpoch
  dcs_copies :: "VolumeNodeId fset"
  dcs_writer :: "WriterGrant option"
  dcs_recovery :: "RecoveryGrant option"

record VolumeControlState =
  vcs_descriptor :: "VolumeDescriptor option"
  vcs_revision :: u64
  vcs_disposition :: VolumeDisposition
  vcs_data :: "DataControlState option"
  vcs_replacement :: "ReplacementGrant option"

definition VolumeControlState_default :: VolumeControlState where
  "VolumeControlState_default =
     \<lparr>vcs_descriptor = None, vcs_revision = 0, vcs_disposition = Live,
      vcs_data = None, vcs_replacement = None\<rparr>"

datatype VolumeControlStateInvariantError =
    InvalidUninitializedState
  | DescriptorDataMismatch
  | ZeroInitializedRevision
  | InvalidCopyCount
  | WriterOutsideCopySetError
  | InvalidRecoveryError
  | InvalidReplacementError
  | GrantOnInactiveVolume

section \<open>Checks on grants\<close>

datatype RecoveryGrantError =
    WriterIsActive
  | ReplacementIsActive
  | InvalidTargetCount
  | RecoveryCoordinatorDiffersFromSource
  | RecoverySourceIsNotActive
  | SourceIsNotTargeted
  | StoredTargetsDifferFromCopies
  | TargetOutsideActiveCopies

definition check_recovery_source ::
  "DataControlState \<Rightarrow> RecoveryGrant \<Rightarrow> (unit, RecoveryGrantError) result" where
  "check_recovery_source data recovery =
     (if rcg_coordinator_node_id recovery \<noteq> rcg_source_node_id recovery
      then Err RecoveryCoordinatorDiffersFromSource
      else if rcg_source_node_id recovery |\<notin>| dcs_copies data
      then Err RecoverySourceIsNotActive
      else if rcg_source_node_id recovery |\<notin>| rcg_target_node_ids recovery
      then Err SourceIsNotTargeted
      else Ok ())"

definition check_stored_recovery ::
  "DataControlState \<Rightarrow> ReplacementGrant option \<Rightarrow> RecoveryGrant
     \<Rightarrow> (unit, RecoveryGrantError) result" where
  "check_stored_recovery data replacement recovery =
     (if dcs_writer data \<noteq> None then Err WriterIsActive
      else if replacement \<noteq> None then Err ReplacementIsActive
      else case check_recovery_source data recovery of
        Inl e \<Rightarrow> Err e
      | Inr _ \<Rightarrow>
          (if rcg_target_node_ids recovery \<noteq> dcs_copies data
           then Err StoredTargetsDifferFromCopies
           else Ok ()))"

definition check_requested_recovery ::
  "DataControlState \<Rightarrow> RecoveryGrant \<Rightarrow> (unit, RecoveryGrantError) result" where
  "check_requested_recovery data recovery =
     (if fcard (rcg_target_node_ids recovery) \<notin> {2..3} then Err InvalidTargetCount
      else case check_recovery_source data recovery of
        Inl e \<Rightarrow> Err e
      | Inr _ \<Rightarrow>
          (if \<not> rcg_target_node_ids recovery |\<subseteq>| dcs_copies data
           then Err TargetOutsideActiveCopies
           else Ok ()))"

datatype ReplacementGrantError =
    ReplacementCoordinatorDiffersFromSource
  | ReplacementSourceIsNotActive
  | WriterDiffersFromSource
  | NewNodeAlreadyActive
  | NewNodeIsSource
  | OldNodeIsNewNode
  | OldNodeIsSource
  | ResultDoesNotHaveThreeCopies

definition copies_after_replacement ::
  "VolumeNodeId fset \<Rightarrow> ReplacementGrant \<Rightarrow> VolumeNodeId fset" where
  "copies_after_replacement current replacement =
     finsert (rpg_new_node_id replacement)
       (case rpg_old_node_id replacement of
          Some old_node_id \<Rightarrow> current |-| {|old_node_id|}
        | None \<Rightarrow> current)"

definition check_replacement_grant ::
  "DataControlState \<Rightarrow> ReplacementGrant \<Rightarrow> (unit, ReplacementGrantError) result" where
  "check_replacement_grant data replacement =
     (if rpg_coordinator_node_id replacement \<noteq> rpg_source_node_id replacement
      then Err ReplacementCoordinatorDiffersFromSource
      else if rpg_source_node_id replacement |\<notin>| dcs_copies data
      then Err ReplacementSourceIsNotActive
      else if is_some_and (dcs_writer data)
                (\<lambda>writer. wg_node_id writer \<noteq> rpg_source_node_id replacement)
      then Err WriterDiffersFromSource
      else if rpg_new_node_id replacement |\<in>| dcs_copies data
      then Err NewNodeAlreadyActive
      else if rpg_new_node_id replacement = rpg_source_node_id replacement
      then Err NewNodeIsSource
      else if rpg_old_node_id replacement = Some (rpg_new_node_id replacement)
      then Err OldNodeIsNewNode
      else if rpg_old_node_id replacement = Some (rpg_source_node_id replacement)
      then Err OldNodeIsSource
      else if fcard (copies_after_replacement (dcs_copies data) replacement) \<noteq> 3
      then Err ResultDoesNotHaveThreeCopies
      else Ok ())"

definition finished_copies_match_replacement ::
  "VolumeNodeId fset \<Rightarrow> ReplacementGrant \<Rightarrow> VolumeNodeId fset \<Rightarrow> bool" where
  "finished_copies_match_replacement current replacement next \<longleftrightarrow>
     (if fcard next \<noteq> 3 \<or> rpg_new_node_id replacement |\<notin>| next then False
      else copies_after_replacement current replacement = next)"

section \<open>The persisted-state invariant\<close>

definition validate ::
  "VolumeControlState \<Rightarrow> (unit, VolumeControlStateInvariantError) result" where
  "validate self =
     (case (vcs_descriptor self, vcs_data self) of
        (None, None) \<Rightarrow>
          (if vcs_revision self \<noteq> 0 \<or> vcs_disposition self \<noteq> Live \<or> vcs_replacement self \<noteq> None
           then Err InvalidUninitializedState
           else Ok ())
      | (Some _, Some data) \<Rightarrow>
          (if vcs_revision self = 0 then Err ZeroInitializedRevision
           else if fcard (dcs_copies data) \<notin> {2..3} then Err InvalidCopyCount
           else if is_some_and (dcs_writer data) (\<lambda>writer. wg_node_id writer |\<notin>| dcs_copies data)
           then Err WriterOutsideCopySetError
           else if is_some_and (dcs_recovery data)
                     (\<lambda>recovery. \<not> is_ok (check_stored_recovery data (vcs_replacement self) recovery))
           then Err InvalidRecoveryError
           else if is_some_and (vcs_replacement self)
                     (\<lambda>replacement. \<not> is_ok (check_replacement_grant data replacement))
           then Err InvalidReplacementError
           else if vcs_disposition self \<noteq> Live
                   \<and> (dcs_writer data \<noteq> None \<or> dcs_recovery data \<noteq> None
                      \<or> vcs_replacement self \<noteq> None)
           then Err GrantOnInactiveVolume
           else Ok ())
      | _ \<Rightarrow> Err DescriptorDataMismatch)"

definition from_parts ::
  "VolumeDescriptor option \<Rightarrow> u64 \<Rightarrow> VolumeDisposition \<Rightarrow> DataControlState option
     \<Rightarrow> ReplacementGrant option
     \<Rightarrow> (VolumeControlState, VolumeControlStateInvariantError) result" where
  "from_parts descriptor revision disposition data replacement =
     (let state = \<lparr>vcs_descriptor = descriptor, vcs_revision = revision,
                   vcs_disposition = disposition, vcs_data = data,
                   vcs_replacement = replacement\<rparr>
      in case validate state of Inl e \<Rightarrow> Err e | Inr _ \<Rightarrow> Ok state)"

section \<open>Commands and responses\<close>

record ExpectedVolumeRevision =
  evr_generation :: VolumeGeneration
  evr_revision :: u64

record InitializeVolume =
  iv_descriptor :: VolumeDescriptor
  iv_initial_copies :: "VolumeNodeId fset"

record ExpandVolume =
  ev_expected :: ExpectedVolumeRevision
  ev_target_capacity :: VolumeCapacity

record SetVolumeDisposition =
  svd_expected :: ExpectedVolumeRevision
  svd_disposition :: VolumeDisposition

record GrantVolumeWriter =
  gvw_expected :: ExpectedVolumeRevision
  gvw_writer :: WriterGrant

record FenceVolumeWriter =
  fvw_expected :: ExpectedVolumeRevision
  fvw_writer :: WriterGrant

record BeginVolumeRecovery =
  bvr_expected :: ExpectedVolumeRevision
  bvr_expected_writer :: "WriterGrant option"
  bvr_replaced_recovery_id :: "RecoveryId option"
  bvr_recovery :: RecoveryGrant

record RevokeVolumeRecovery =
  rvr_expected :: ExpectedVolumeRevision
  rvr_recovery_id :: RecoveryId

record BeginReplicaReplacement =
  brr_expected :: ExpectedVolumeRevision
  brr_replacement :: ReplacementGrant

record CancelReplicaReplacement =
  crr_expected :: ExpectedVolumeRevision
  crr_replacement_id :: ReplacementId

record AdoptReplicaReplacement =
  arr_expected :: ExpectedVolumeRevision
  arr_replacement_id :: ReplacementId
  arr_new_copies :: "VolumeNodeId fset"
  arr_expected_writer :: "WriterGrant option"

datatype VolumeCommand =
    Initialize InitializeVolume
  | Expand ExpandVolume
  | SetDisposition SetVolumeDisposition
  | GrantWriter GrantVolumeWriter
  | FenceWriter FenceVolumeWriter
  | BeginRecovery BeginVolumeRecovery
  | RevokeRecovery RevokeVolumeRecovery
  | BeginReplacement BeginReplicaReplacement
  | CancelReplacement CancelReplicaReplacement
  | AdoptReplacement AdoptReplicaReplacement

datatype VolumeCommandRejection =
    NotInitialized
  | AlreadyInitialized
  | WrongGeneration
  | VolumeNotLive
  | WriterOutsideCopySet
  | WrongWriter
  | InvalidCopySet
  | InvalidRecovery
  | RecoveryInProgress
  | NoRecovery
  | WrongRecovery
  | RecoveryIdConflict
  | InvalidReplacement
  | ReplacementInProgress
  | NoReplacement
  | WrongReplacement
  | ReplacementIdConflict
  | RevisionExhausted
  | FenceExhausted
  | CapacityCannotShrink
  | CapacityNotAligned

datatype VolumeCommandResponse =
    Applied u64 "FenceEpoch option"
  | Current u64 "FenceEpoch option"
  | Conflict u64
  | Rejected VolumeCommandRejection

record CommandPlan =
  cp_state :: VolumeControlState
  cp_response :: VolumeCommandResponse

definition applied :: "VolumeControlState \<Rightarrow> CommandPlan" where
  "applied state =
     \<lparr>cp_state = state,
      cp_response = Applied (vcs_revision state) (map_option dcs_fence (vcs_data state))\<rparr>"

definition current :: "VolumeControlState \<Rightarrow> CommandPlan" where
  "current self =
     \<lparr>cp_state = self,
      cp_response = Current (vcs_revision self) (map_option dcs_fence (vcs_data self))\<rparr>"

definition rejected :: "VolumeControlState \<Rightarrow> VolumeCommandRejection \<Rightarrow> CommandPlan" where
  "rejected self rejection = \<lparr>cp_state = self, cp_response = Rejected rejection\<rparr>"

definition exhausted :: "VolumeControlState \<Rightarrow> CommandPlan" where
  "exhausted self =
     (if vcs_revision self = - 1 then rejected self RevisionExhausted
      else rejected self FenceExhausted)"

section \<open>Helpers of the commands\<close>

definition next_fence :: "VolumeControlState \<Rightarrow> FenceEpoch option" where
  "next_fence state =
     (case vcs_data state of None \<Rightarrow> None | Some data \<Rightarrow> fence_next (dcs_fence data))"

definition next_revision_and_fence :: "VolumeControlState \<Rightarrow> (u64 \<times> FenceEpoch) option" where
  "next_revision_and_fence self =
     (case checked_add (vcs_revision self) 1 of
        None \<Rightarrow> None
      | Some revision \<Rightarrow>
          (case next_fence self of None \<Rightarrow> None | Some fence \<Rightarrow> Some (revision, fence)))"

definition data_ref :: "VolumeControlState \<Rightarrow> DataControlState panics" where
  "data_ref self = vcs_data self"

text \<open>\<open>data_mut\<close> with the update its caller makes through the reference.\<close>

definition data_mut ::
  "VolumeControlState \<Rightarrow> (DataControlState \<Rightarrow> DataControlState) \<Rightarrow> VolumeControlState panics" where
  "data_mut self update =
     (case vcs_data self of
        Some data \<Rightarrow> Some (self\<lparr>vcs_data := Some (update data)\<rparr>)
      | None \<Rightarrow> None)"

definition check_expected ::
  "VolumeControlState \<Rightarrow> ExpectedVolumeRevision \<Rightarrow> CommandPlan option" where
  "check_expected self expected =
     (case vcs_descriptor self of
        None \<Rightarrow> Some (rejected self NotInitialized)
      | Some descriptor \<Rightarrow>
          (if vd_generation descriptor \<noteq> evr_generation expected
           then Some (rejected self WrongGeneration)
           else if vcs_revision self \<noteq> evr_revision expected
           then Some \<lparr>cp_state = self, cp_response = Conflict (vcs_revision self)\<rparr>
           else None))"

definition expected_generation_is_current ::
  "VolumeControlState \<Rightarrow> ExpectedVolumeRevision \<Rightarrow> bool" where
  "expected_generation_is_current self expected \<longleftrightarrow>
     is_some_and (vcs_descriptor self)
       (\<lambda>descriptor. vd_generation descriptor = evr_generation expected)"

definition initialization_is_current :: "VolumeControlState \<Rightarrow> InitializeVolume \<Rightarrow> bool" where
  "initialization_is_current self command \<longleftrightarrow>
     vcs_revision self = 1
     \<and> vcs_disposition self = Live
     \<and> vcs_descriptor self = Some (iv_descriptor command)
     \<and> vcs_replacement self = None
     \<and> is_some_and (vcs_data self) (\<lambda>data.
          dcs_fence data = fence_initial
          \<and> dcs_copies data = iv_initial_copies command
          \<and> dcs_writer data = None
          \<and> dcs_recovery data = None)"

section \<open>The ten commands\<close>

definition initialize :: "VolumeControlState \<Rightarrow> InitializeVolume \<Rightarrow> CommandPlan panics" where
  "initialize self command =
     (if initialization_is_current self command then Some (current self)
      else if vcs_descriptor self \<noteq> None then Some (rejected self AlreadyInitialized)
      else if fcard (iv_initial_copies command) \<noteq> 3 then Some (rejected self InvalidCopySet)
      else Some (applied
        \<lparr>vcs_descriptor = Some (iv_descriptor command), vcs_revision = 1,
         vcs_disposition = Live,
         vcs_data = Some \<lparr>dcs_fence = fence_initial, dcs_copies = iv_initial_copies command,
                          dcs_writer = None, dcs_recovery = None\<rparr>,
         vcs_replacement = None\<rparr>))"

definition expand :: "VolumeControlState \<Rightarrow> ExpandVolume \<Rightarrow> CommandPlan panics" where
  "expand self command =
     (if expected_generation_is_current self (ev_expected command)
         \<and> is_some_and (vcs_descriptor self)
              (\<lambda>descriptor. vd_capacity descriptor = ev_target_capacity command)
      then Some (current self)
      else case check_expected self (ev_expected command) of
        Some plan \<Rightarrow> Some plan
      | None \<Rightarrow>
          (if vcs_disposition self \<noteq> Live then Some (rejected self VolumeNotLive)
           else if vcs_replacement self \<noteq> None then Some (rejected self ReplacementInProgress)
           else case data_ref self of None \<Rightarrow> None | Some data \<Rightarrow>
             (if dcs_recovery data \<noteq> None then Some (rejected self RecoveryInProgress)
              else case vcs_descriptor self of
                None \<Rightarrow> Some (rejected self NotInitialized)
              | Some descriptor \<Rightarrow>
                  (if ev_target_capacity command < vd_capacity descriptor
                   then Some (rejected self CapacityCannotShrink)
                   else case with_capacity descriptor (ev_target_capacity command) of
                     Inl _ \<Rightarrow> Some (rejected self CapacityNotAligned)
                   | Inr expanded \<Rightarrow>
                       (case checked_add (vcs_revision self) 1 of
                          None \<Rightarrow> Some (rejected self RevisionExhausted)
                        | Some revision \<Rightarrow>
                            Some (applied (self\<lparr>vcs_revision := revision,
                                                vcs_descriptor := Some expanded\<rparr>)))))))"

definition set_disposition ::
  "VolumeControlState \<Rightarrow> SetVolumeDisposition \<Rightarrow> CommandPlan panics" where
  "set_disposition self command =
     (if vcs_disposition self = svd_disposition command
         \<and> expected_generation_is_current self (svd_expected command)
      then Some (current self)
      else case check_expected self (svd_expected command) of
        Some plan \<Rightarrow> Some plan
      | None \<Rightarrow>
          (case checked_add (vcs_revision self) 1 of
             None \<Rightarrow> Some (rejected self RevisionExhausted)
           | Some revision \<Rightarrow>
               (let changed = self\<lparr>vcs_revision := revision,
                                   vcs_disposition := svd_disposition command\<rparr>
                in if svd_disposition command \<noteq> Live
                   then (case next_fence changed of
                           None \<Rightarrow> Some (rejected self FenceExhausted)
                         | Some fence \<Rightarrow>
                             (case data_mut changed
                                     (\<lambda>data. data\<lparr>dcs_fence := fence, dcs_writer := None,
                                                 dcs_recovery := None\<rparr>) of
                                None \<Rightarrow> None
                              | Some fenced \<Rightarrow>
                                  Some (applied (fenced\<lparr>vcs_replacement := None\<rparr>))))
                   else Some (applied changed))))"

definition grant_writer :: "VolumeControlState \<Rightarrow> GrantVolumeWriter \<Rightarrow> CommandPlan panics" where
  "grant_writer self command =
     (if expected_generation_is_current self (gvw_expected command)
         \<and> is_some_and (vcs_data self)
              (\<lambda>data. dcs_writer data = Some (gvw_writer command) \<and> dcs_recovery data = None)
         \<and> vcs_disposition self = Live
      then Some (current self)
      else case check_expected self (gvw_expected command) of
        Some plan \<Rightarrow> Some plan
      | None \<Rightarrow>
          (if vcs_disposition self \<noteq> Live then Some (rejected self VolumeNotLive)
           else if vcs_replacement self \<noteq> None then Some (rejected self ReplacementInProgress)
           else case data_ref self of None \<Rightarrow> None | Some data \<Rightarrow>
             (if wg_node_id (gvw_writer command) |\<notin>| dcs_copies data
              then Some (rejected self WriterOutsideCopySet)
              else if dcs_recovery data \<noteq> None then Some (rejected self RecoveryInProgress)
              else case next_revision_and_fence self of
                None \<Rightarrow> Some (exhausted self)
              | Some (revision, fence) \<Rightarrow>
                  map_option applied
                    (data_mut (self\<lparr>vcs_revision := revision\<rparr>)
                       (\<lambda>data. data\<lparr>dcs_fence := fence, dcs_writer := Some (gvw_writer command),
                                   dcs_recovery := None\<rparr>)))))"

definition fence_writer :: "VolumeControlState \<Rightarrow> FenceVolumeWriter \<Rightarrow> CommandPlan panics" where
  "fence_writer self command =
     (if expected_generation_is_current self (fvw_expected command)
         \<and> is_some_and (vcs_data self) (\<lambda>data. dcs_writer data = None)
      then Some (current self)
      else case check_expected self (fvw_expected command) of
        Some plan \<Rightarrow> Some plan
      | None \<Rightarrow>
          (case data_ref self of None \<Rightarrow> None | Some data \<Rightarrow>
             (if dcs_writer data \<noteq> Some (fvw_writer command) then Some (rejected self WrongWriter)
              else case next_revision_and_fence self of
                None \<Rightarrow> Some (exhausted self)
              | Some (revision, fence) \<Rightarrow>
                  map_option applied
                    (data_mut (self\<lparr>vcs_revision := revision\<rparr>)
                       (\<lambda>data. data\<lparr>dcs_fence := fence, dcs_writer := None\<rparr>)))))"

text \<open>
  The \<open>match\<close> of \<open>begin_recovery\<close> on the stored recovery and the one the command replaces:
  \<open>None\<close> lets the command go on.
\<close>

fun recovery_replacement_rejection ::
  "RecoveryGrant option \<Rightarrow> RecoveryId option \<Rightarrow> RecoveryId \<Rightarrow> VolumeCommandRejection option" where
  "recovery_replacement_rejection None None requested = None"
| "recovery_replacement_rejection (Some stored) replaced requested =
     (if rcg_id stored = requested then Some RecoveryIdConflict
      else if replaced = Some (rcg_id stored) then None
      else Some RecoveryInProgress)"
| "recovery_replacement_rejection None (Some _) requested = Some NoRecovery"

definition begin_recovery ::
  "VolumeControlState \<Rightarrow> BeginVolumeRecovery \<Rightarrow> CommandPlan panics" where
  "begin_recovery self command =
     (if expected_generation_is_current self (bvr_expected command)
         \<and> is_some_and (vcs_data self) (\<lambda>data.
              dcs_writer data = None
              \<and> dcs_recovery data = Some (bvr_recovery command)
              \<and> dcs_copies data = rcg_target_node_ids (bvr_recovery command))
         \<and> vcs_replacement self = None
      then Some (current self)
      else case check_expected self (bvr_expected command) of
        Some plan \<Rightarrow> Some plan
      | None \<Rightarrow>
          (if vcs_disposition self \<noteq> Live then Some (rejected self VolumeNotLive)
           else if vcs_replacement self \<noteq> None then Some (rejected self ReplacementInProgress)
           else case data_ref self of None \<Rightarrow> None | Some data \<Rightarrow>
             (if dcs_writer data \<noteq> bvr_expected_writer command
              then Some (rejected self WrongWriter)
              else case recovery_replacement_rejection (dcs_recovery data)
                          (bvr_replaced_recovery_id command) (rcg_id (bvr_recovery command)) of
                Some rejection \<Rightarrow> Some (rejected self rejection)
              | None \<Rightarrow>
                  (if \<not> is_ok (check_requested_recovery data (bvr_recovery command))
                   then Some (rejected self InvalidRecovery)
                   else case next_revision_and_fence self of
                     None \<Rightarrow> Some (exhausted self)
                   | Some (revision, fence) \<Rightarrow>
                       (case data_mut (self\<lparr>vcs_revision := revision\<rparr>)
                               (\<lambda>data. data\<lparr>dcs_fence := fence,
                                  dcs_copies := rcg_target_node_ids (bvr_recovery command),
                                  dcs_writer := None,
                                  dcs_recovery := Some (bvr_recovery command)\<rparr>) of
                          None \<Rightarrow> None
                        | Some changed \<Rightarrow>
                            Some (applied (changed\<lparr>vcs_replacement := None\<rparr>)))))))"

definition revoke_recovery ::
  "VolumeControlState \<Rightarrow> RevokeVolumeRecovery \<Rightarrow> CommandPlan panics" where
  "revoke_recovery self command =
     (if expected_generation_is_current self (rvr_expected command)
         \<and> is_some_and (vcs_data self) (\<lambda>data. dcs_recovery data = None)
      then Some (current self)
      else case check_expected self (rvr_expected command) of
        Some plan \<Rightarrow> Some plan
      | None \<Rightarrow>
          (if vcs_disposition self \<noteq> Live then Some (rejected self VolumeNotLive)
           else case data_ref self of None \<Rightarrow> None | Some data \<Rightarrow>
             (case dcs_recovery data of
                None \<Rightarrow> Some (rejected self NoRecovery)
              | Some recovery \<Rightarrow>
                  (if rcg_id recovery \<noteq> rvr_recovery_id command
                   then Some (rejected self WrongRecovery)
                   else case checked_add (vcs_revision self) 1 of
                     None \<Rightarrow> Some (rejected self RevisionExhausted)
                   | Some revision \<Rightarrow>
                       map_option applied
                         (data_mut (self\<lparr>vcs_revision := revision\<rparr>)
                            (\<lambda>data. data\<lparr>dcs_recovery := None\<rparr>))))))"

definition begin_replacement ::
  "VolumeControlState \<Rightarrow> BeginReplicaReplacement \<Rightarrow> CommandPlan panics" where
  "begin_replacement self command =
     (if expected_generation_is_current self (brr_expected command)
         \<and> vcs_replacement self = Some (brr_replacement command)
      then Some (current self)
      else case check_expected self (brr_expected command) of
        Some plan \<Rightarrow> Some plan
      | None \<Rightarrow>
          (if vcs_disposition self \<noteq> Live then Some (rejected self VolumeNotLive)
           else case data_ref self of None \<Rightarrow> None | Some data \<Rightarrow>
             (if dcs_recovery data \<noteq> None then Some (rejected self RecoveryInProgress)
              else case vcs_replacement self of
                Some stored \<Rightarrow>
                  Some (rejected self
                    (if rpg_id stored = rpg_id (brr_replacement command)
                     then ReplacementIdConflict else ReplacementInProgress))
              | None \<Rightarrow>
                  (if \<not> is_ok (check_replacement_grant data (brr_replacement command))
                   then Some (rejected self InvalidReplacement)
                   else case checked_add (vcs_revision self) 1 of
                     None \<Rightarrow> Some (rejected self RevisionExhausted)
                   | Some revision \<Rightarrow>
                       Some (applied (self\<lparr>vcs_revision := revision,
                                           vcs_replacement := Some (brr_replacement command)\<rparr>))))))"

definition cancel_replacement ::
  "VolumeControlState \<Rightarrow> CancelReplicaReplacement \<Rightarrow> CommandPlan panics" where
  "cancel_replacement self command =
     (if vcs_replacement self = None
         \<and> expected_generation_is_current self (crr_expected command)
      then Some (current self)
      else case check_expected self (crr_expected command) of
        Some plan \<Rightarrow> Some plan
      | None \<Rightarrow>
          (case vcs_replacement self of
             None \<Rightarrow> Some (current self)
           | Some replacement \<Rightarrow>
               (if rpg_id replacement \<noteq> crr_replacement_id command
                then Some (rejected self WrongReplacement)
                else case checked_add (vcs_revision self) 1 of
                  None \<Rightarrow> Some (rejected self RevisionExhausted)
                | Some revision \<Rightarrow>
                    Some (applied (self\<lparr>vcs_revision := revision,
                                        vcs_replacement := None\<rparr>)))))"

definition adopt_replacement ::
  "VolumeControlState \<Rightarrow> AdoptReplicaReplacement \<Rightarrow> CommandPlan panics" where
  "adopt_replacement self command =
     (if expected_generation_is_current self (arr_expected command)
         \<and> vcs_disposition self = Live
         \<and> vcs_replacement self = None
         \<and> is_some_and (vcs_data self) (\<lambda>data.
              dcs_copies data = arr_new_copies command
              \<and> dcs_writer data = arr_expected_writer command)
      then Some (current self)
      else case check_expected self (arr_expected command) of
        Some plan \<Rightarrow> Some plan
      | None \<Rightarrow>
          (if vcs_disposition self \<noteq> Live then Some (rejected self VolumeNotLive)
           else case vcs_replacement self of
             None \<Rightarrow> Some (rejected self NoReplacement)
           | Some replacement \<Rightarrow>
               (if rpg_id replacement \<noteq> arr_replacement_id command
                then Some (rejected self WrongReplacement)
                else case data_ref self of None \<Rightarrow> None | Some data \<Rightarrow>
                  (if dcs_writer data \<noteq> arr_expected_writer command
                   then Some (rejected self WrongWriter)
                   else if \<not> finished_copies_match_replacement (dcs_copies data) replacement
                               (arr_new_copies command)
                   then Some (rejected self InvalidReplacement)
                   else if is_some_and (arr_expected_writer command)
                             (\<lambda>writer. wg_node_id writer |\<notin>| arr_new_copies command)
                   then Some (rejected self InvalidReplacement)
                   else case next_revision_and_fence self of
                     None \<Rightarrow> Some (exhausted self)
                   | Some (revision, fence) \<Rightarrow>
                       (case data_mut (self\<lparr>vcs_revision := revision\<rparr>)
                               (\<lambda>data. data\<lparr>dcs_fence := fence,
                                           dcs_copies := arr_new_copies command\<rparr>) of
                          None \<Rightarrow> None
                        | Some changed \<Rightarrow>
                            Some (applied (changed\<lparr>vcs_replacement := None\<rparr>)))))))"

fun evaluate :: "VolumeControlState \<Rightarrow> VolumeCommand \<Rightarrow> CommandPlan panics" where
  "evaluate self (Initialize command) = initialize self command"
| "evaluate self (Expand command) = expand self command"
| "evaluate self (SetDisposition command) = set_disposition self command"
| "evaluate self (GrantWriter command) = grant_writer self command"
| "evaluate self (FenceWriter command) = fence_writer self command"
| "evaluate self (BeginRecovery command) = begin_recovery self command"
| "evaluate self (RevokeRecovery command) = revoke_recovery self command"
| "evaluate self (BeginReplacement command) = begin_replacement self command"
| "evaluate self (CancelReplacement command) = cancel_replacement self command"
| "evaluate self (AdoptReplacement command) = adopt_replacement self command"

section \<open>What the commands promise\<close>

text \<open>
  The abstract contract of the control state. \<open>control_advance\<close> relates the states before and
  after an applied command: the state stays valid, the revision grows by one, the storage
  identity is kept and the capacity does not shrink, the fence does not go back, and
  under one fence the copies and the writer are fixed and no recovery begins.
  \<open>plan_ok\<close> adds that every other response leaves the state as it was.
\<close>

definition valid :: "VolumeControlState \<Rightarrow> bool" where
  "valid s \<longleftrightarrow> is_ok (validate s)"

definition data_advance :: "DataControlState \<Rightarrow> DataControlState \<Rightarrow> bool" where
  "data_advance d d' \<longleftrightarrow>
     dcs_fence d \<le> dcs_fence d'
     \<and> (dcs_fence d' = dcs_fence d \<longrightarrow>
          dcs_copies d' = dcs_copies d \<and> dcs_writer d' = dcs_writer d
          \<and> (dcs_recovery d' = dcs_recovery d \<or> dcs_recovery d' = None))"

definition descriptor_advance :: "VolumeDescriptor \<Rightarrow> VolumeDescriptor \<Rightarrow> bool" where
  "descriptor_advance d d' \<longleftrightarrow>
     has_same_storage_identity d' d \<and> vd_capacity d \<le> vd_capacity d'"

definition control_advance :: "VolumeControlState \<Rightarrow> VolumeControlState \<Rightarrow> bool" where
  "control_advance s s' \<longleftrightarrow>
     valid s'
     \<and> unat (vcs_revision s') = unat (vcs_revision s) + 1
     \<and> (case (vcs_descriptor s, vcs_descriptor s') of
          (None, Some _) \<Rightarrow> True
        | (Some d, Some d') \<Rightarrow> descriptor_advance d d'
        | _ \<Rightarrow> False)
     \<and> (case (vcs_data s, vcs_data s') of
          (None, Some d') \<Rightarrow>
            dcs_fence d' = fence_initial \<and> dcs_writer d' = None \<and> dcs_recovery d' = None
        | (Some d, Some d') \<Rightarrow> data_advance d d'
        | _ \<Rightarrow> False)"

definition plan_ok :: "VolumeControlState \<Rightarrow> CommandPlan \<Rightarrow> bool" where
  "plan_ok s p \<longleftrightarrow>
     (case cp_response p of
        Applied revision fence \<Rightarrow>
          control_advance s (cp_state p)
          \<and> revision = vcs_revision (cp_state p)
          \<and> fence = map_option dcs_fence (vcs_data (cp_state p))
      | _ \<Rightarrow> cp_state p = s)"

definition data_ok :: "ReplacementGrant option \<Rightarrow> DataControlState \<Rightarrow> bool" where
  "data_ok replacement data \<longleftrightarrow>
     fcard (dcs_copies data) \<in> {2..3}
     \<and> (\<forall>w. dcs_writer data = Some w \<longrightarrow> wg_node_id w |\<in>| dcs_copies data)
     \<and> (\<forall>r. dcs_recovery data = Some r \<longrightarrow> is_ok (check_stored_recovery data replacement r))
     \<and> (\<forall>r. replacement = Some r \<longrightarrow> is_ok (check_replacement_grant data r))"

section \<open>The checks as propositions\<close>

lemma valid_iff:
  "valid s \<longleftrightarrow>
     (case (vcs_descriptor s, vcs_data s) of
        (None, None) \<Rightarrow> vcs_revision s = 0 \<and> vcs_disposition s = Live \<and> vcs_replacement s = None
      | (Some _, Some data) \<Rightarrow>
          vcs_revision s \<noteq> 0 \<and> data_ok (vcs_replacement s) data
          \<and> (vcs_disposition s = Live \<or>
             dcs_writer data = None \<and> dcs_recovery data = None \<and> vcs_replacement s = None)
      | _ \<Rightarrow> False)"
  by (simp add: valid_def validate_def data_ok_def is_some_and_iff split: option.split) blast

lemma plan_ok_simps [simp]:
  "plan_ok s (current s)" "plan_ok s (rejected s r)" "plan_ok s (exhausted s)"
  "plan_ok s \<lparr>cp_state = s, cp_response = Conflict n\<rparr>"
  "plan_ok s (applied s') = control_advance s s'"
  by (simp_all add: plan_ok_def current_def rejected_def exhausted_def applied_def)

lemma check_expected_plan_ok: "check_expected s e = Some p \<Longrightarrow> plan_ok s p"
  by (auto simp: check_expected_def split: option.splits if_splits)

lemma check_expected_None_iff:
  "check_expected s e = None \<longleftrightarrow>
     (\<exists>d. vcs_descriptor s = Some d \<and> vd_generation d = evr_generation e
          \<and> vcs_revision s = evr_revision e)"
  by (auto simp: check_expected_def split: option.splits)


lemma next_revision_and_fence_Some_iff:
  "next_revision_and_fence s = Some (r, f) \<longleftrightarrow>
     unat r = unat (vcs_revision s) + 1
     \<and> (\<exists>d. vcs_data s = Some d \<and> fence_next (dcs_fence d) = Some f)"
proof -
  have "next_revision_and_fence s = Some (r, f) \<longleftrightarrow>
      checked_add (vcs_revision s) 1 = Some r \<and> next_fence s = Some f"
    by (auto simp: next_revision_and_fence_def split: option.splits)
  then show ?thesis
    by (auto simp: next_fence_def checked_add_Some_iff split: option.splits)
qed

lemma is_ok_check_recovery_source:
  "is_ok (check_recovery_source data r) \<longleftrightarrow>
     rcg_coordinator_node_id r = rcg_source_node_id r
     \<and> rcg_source_node_id r |\<in>| dcs_copies data
     \<and> rcg_source_node_id r |\<in>| rcg_target_node_ids r"
  by (simp add: check_recovery_source_def)

lemma is_ok_check_stored_recovery:
  "is_ok (check_stored_recovery data replacement r) \<longleftrightarrow>
     dcs_writer data = None \<and> replacement = None
     \<and> is_ok (check_recovery_source data r) \<and> rcg_target_node_ids r = dcs_copies data"
  by (auto simp: check_stored_recovery_def split: sum.splits)

lemma is_ok_check_requested_recovery:
  "is_ok (check_requested_recovery data r) \<longleftrightarrow>
     fcard (rcg_target_node_ids r) \<in> {2..3}
     \<and> is_ok (check_recovery_source data r) \<and> rcg_target_node_ids r |\<subseteq>| dcs_copies data"
  by (auto simp: check_requested_recovery_def split: sum.splits)

lemma is_ok_check_replacement_grant:
  "is_ok (check_replacement_grant data r) \<longleftrightarrow>
     rpg_coordinator_node_id r = rpg_source_node_id r
     \<and> rpg_source_node_id r |\<in>| dcs_copies data
     \<and> (\<forall>w. dcs_writer data = Some w \<longrightarrow> wg_node_id w = rpg_source_node_id r)
     \<and> rpg_new_node_id r |\<notin>| dcs_copies data
     \<and> rpg_new_node_id r \<noteq> rpg_source_node_id r
     \<and> rpg_old_node_id r \<noteq> Some (rpg_new_node_id r)
     \<and> rpg_old_node_id r \<noteq> Some (rpg_source_node_id r)
     \<and> fcard (copies_after_replacement (dcs_copies data) r) = 3"
  by (auto simp: check_replacement_grant_def is_some_and_iff)

lemmas grant_checks = is_ok_check_recovery_source is_ok_check_stored_recovery
  is_ok_check_requested_recovery is_ok_check_replacement_grant


lemma fence_next_advance:
  "fence_next (dcs_fence d) = Some (dcs_fence d') \<Longrightarrow> data_advance d d'"
  using fence_next_less [of "dcs_fence d" "dcs_fence d'"] by (auto simp: data_advance_def)

lemma descriptor_advance_refl [simp]: "descriptor_advance d d"
  by (simp add: descriptor_advance_def)

lemma data_advance_refl [simp]: "data_advance d d"
  by (simp add: data_advance_def)

lemma control_advanceI:
  assumes "vcs_descriptor s = Some d" and "vcs_data s = Some data"
    and "vcs_descriptor s' = Some d'" and "vcs_data s' = Some data'"
    and "unat (vcs_revision s') = unat (vcs_revision s) + 1"
    and "descriptor_advance d d'" and "data_advance data data'"
    and "data_ok (vcs_replacement s') data'"
    and "vcs_disposition s' \<noteq> Live \<Longrightarrow>
      dcs_writer data' = None \<and> dcs_recovery data' = None \<and> vcs_replacement s' = None"
  shows "control_advance s s'"
  using assms by (auto simp: control_advance_def valid_iff)

lemma checked_cases:
  assumes "valid s" and "check_expected s e = None"
  obtains d data where "vcs_descriptor s = Some d" and "vcs_data s = Some data"
    and "data_ok (vcs_replacement s) data"
    and "vcs_disposition s \<noteq> Live \<Longrightarrow>
      dcs_writer data = None \<and> dcs_recovery data = None \<and> vcs_replacement s = None"
  using assms by (auto simp: valid_iff check_expected_None_iff split: option.splits)

lemmas plan_simps = data_ref_def data_mut_def checked_add_Some_iff next_revision_and_fence_Some_iff


lemma with_capacity_advance:
  "with_capacity d c = Ok d' \<Longrightarrow> \<not> c < vd_capacity d \<Longrightarrow> descriptor_advance d d'"
  by (auto simp: descriptor_advance_def dest: with_capacity_ok)

section \<open>Every command keeps the contract\<close>

lemma data_ok_drop_replacement: "data_ok rep d \<Longrightarrow> data_ok None d"
  by (auto simp: data_ok_def grant_checks)

lemma data_ok_drop_writer: "data_ok rep d \<Longrightarrow> data_ok rep (d\<lparr>dcs_fence := f, dcs_writer := None\<rparr>)"
  by (simp add: data_ok_def grant_checks)

lemma data_ok_drop_recovery: "data_ok rep d \<Longrightarrow> data_ok rep (d\<lparr>dcs_recovery := None\<rparr>)"
  by (simp add: data_ok_def grant_checks)

lemma data_ok_drop_grants:
  "data_ok rep d \<Longrightarrow> data_ok None (d\<lparr>dcs_fence := f, dcs_writer := None, dcs_recovery := None\<rparr>)"
  by (simp add: data_ok_def)

lemma data_ok_grant:
  "data_ok None d \<Longrightarrow> wg_node_id w |\<in>| dcs_copies d \<Longrightarrow>
     data_ok None (d\<lparr>dcs_fence := f, dcs_writer := Some w, dcs_recovery := None\<rparr>)"
  by (simp add: data_ok_def)

lemma data_ok_recover:
  "is_ok (check_requested_recovery d r) \<Longrightarrow>
     data_ok None (d\<lparr>dcs_fence := f, dcs_copies := rcg_target_node_ids r, dcs_writer := None,
                     dcs_recovery := Some r\<rparr>)"
  by (simp add: data_ok_def grant_checks)

lemma data_ok_replace:
  "data_ok None d \<Longrightarrow> dcs_recovery d = None \<Longrightarrow> is_ok (check_replacement_grant d r) \<Longrightarrow>
     data_ok (Some r) d"
  by (simp add: data_ok_def)

lemma data_ok_adopt:
  "data_ok (Some r) d \<Longrightarrow> finished_copies_match_replacement (dcs_copies d) r new \<Longrightarrow>
     \<not> is_some_and (dcs_writer d) (\<lambda>w. wg_node_id w |\<notin>| new) \<Longrightarrow>
     data_ok None (d\<lparr>dcs_fence := f, dcs_copies := new\<rparr>)"
  by (auto simp: data_ok_def grant_checks finished_copies_match_replacement_def
      not_is_some_and_iff split: if_splits)

lemmas data_ok_intros = data_ok_drop_replacement data_ok_drop_writer data_ok_drop_recovery
  data_ok_drop_grants data_ok_grant data_ok_recover data_ok_replace data_ok_adopt

lemma data_advance_recovery [simp]: "data_advance d (d\<lparr>dcs_recovery := None\<rparr>)"
  by (simp add: data_advance_def)



lemma fence_next_advance_grants:
  "fence_next (dcs_fence d) = Some f \<Longrightarrow>
     data_advance d (d\<lparr>dcs_fence := f, dcs_writer := None, dcs_recovery := None\<rparr>)"
  by (rule fence_next_advance) simp

lemma checked_sound:
  assumes "valid s"
    and "\<And>p. check_expected s e = Some p \<Longrightarrow> r = Some p \<or> r = Some (current s)"
    and "\<And>d data. check_expected s e = None \<Longrightarrow>
           vcs_descriptor s = Some d \<Longrightarrow> vcs_data s = Some data \<Longrightarrow>
           data_ok (vcs_replacement s) data \<Longrightarrow>
           (vcs_disposition s \<noteq> Live \<Longrightarrow>
              dcs_writer data = None \<and> dcs_recovery data = None \<and> vcs_replacement s = None) \<Longrightarrow>
           \<exists>p. r = Some p \<and> plan_ok s p"
  shows "\<exists>p. r = Some p \<and> plan_ok s p"
proof (cases "check_expected s e")
  case None
  with assms(1) show ?thesis
    by (rule checked_cases) (use assms(3) [OF None] in blast)
next
  case (Some p)
  with assms(2) [OF Some] show ?thesis by (auto simp: check_expected_plan_ok)
qed

lemma initialize_sound: "valid s \<Longrightarrow> \<exists>p. initialize s c = Some p \<and> plan_ok s p"
  by (auto simp: initialize_def valid_iff control_advance_def data_ok_def checked_add_Some_iff
      split: option.splits)

lemma expand_sound: "valid s \<Longrightarrow> \<exists>p. expand s c = Some p \<and> plan_ok s p"
  unfolding expand_def
  by (erule checked_sound [where e = "ev_expected c"])
    (auto simp: plan_simps  intro!: control_advanceI with_capacity_advance split: option.split sum.split)

lemma set_disposition_sound: "valid s \<Longrightarrow> \<exists>p. set_disposition s c = Some p \<and> plan_ok s p"
  unfolding set_disposition_def
  by (erule checked_sound [where e = "svd_expected c"])
    (auto simp: plan_simps Let_def next_fence_def intro!: control_advanceI fence_next_advance_grants data_ok_drop_grants split: option.split)

lemma grant_writer_sound: "valid s \<Longrightarrow> \<exists>p. grant_writer s c = Some p \<and> plan_ok s p"
  unfolding grant_writer_def
  by (erule checked_sound [where e = "gvw_expected c"])
    (auto simp: plan_simps  intro!: control_advanceI fence_next_advance data_ok_grant split: option.split)

lemma fence_writer_sound: "valid s \<Longrightarrow> \<exists>p. fence_writer s c = Some p \<and> plan_ok s p"
  unfolding fence_writer_def
  by (erule checked_sound [where e = "fvw_expected c"])
    (auto simp: plan_simps  intro!: control_advanceI fence_next_advance data_ok_drop_writer split: option.split)

lemma begin_recovery_sound: "valid s \<Longrightarrow> \<exists>p. begin_recovery s c = Some p \<and> plan_ok s p"
  unfolding begin_recovery_def
  by (erule checked_sound [where e = "bvr_expected c"])
    (auto simp: plan_simps  intro!: control_advanceI fence_next_advance data_ok_recover split: option.split)

lemma revoke_recovery_sound: "valid s \<Longrightarrow> \<exists>p. revoke_recovery s c = Some p \<and> plan_ok s p"
  unfolding revoke_recovery_def
  by (erule checked_sound [where e = "rvr_expected c"])
    (auto simp: plan_simps  intro!: control_advanceI data_ok_drop_recovery split: option.split)

lemma begin_replacement_sound: "valid s \<Longrightarrow> \<exists>p. begin_replacement s c = Some p \<and> plan_ok s p"
  unfolding begin_replacement_def
  by (erule checked_sound [where e = "brr_expected c"])
    (auto simp: plan_simps  intro!: control_advanceI data_ok_replace split: option.split)

lemma cancel_replacement_sound: "valid s \<Longrightarrow> \<exists>p. cancel_replacement s c = Some p \<and> plan_ok s p"
  unfolding cancel_replacement_def
  by (erule checked_sound [where e = "crr_expected c"])
    (auto simp: plan_simps  intro!: control_advanceI data_ok_drop_replacement split: option.split)

lemma adopt_replacement_sound: "valid s \<Longrightarrow> \<exists>p. adopt_replacement s c = Some p \<and> plan_ok s p"
  unfolding adopt_replacement_def
  by (erule checked_sound [where e = "arr_expected c"])
    (auto simp: plan_simps  intro!: control_advanceI fence_next_advance data_ok_adopt split: option.split)

lemma evaluate_sound: "valid s \<Longrightarrow> \<exists>p. evaluate s cmd = Some p \<and> plan_ok s p"
  by (cases cmd) (simp_all add: initialize_sound expand_sound set_disposition_sound
      grant_writer_sound fence_writer_sound begin_recovery_sound revoke_recovery_sound
      begin_replacement_sound cancel_replacement_sound adopt_replacement_sound)

end
