(* ===== verification/Epoch_Machine.thy ===== *)
theory Epoch_Machine
  imports Prelude
begin

text \<open>
  The interface several components of the control plane share: a machine whose state carries
  an \<^emph>\<open>epoch\<close> that never goes back, and an \<^emph>\<open>authority\<close> that a step may change only
  together with the epoch. The lemmas lift the two laws from one step to whole runs: a run
  that shows the same epoch twice had the same authority all the way between.
\<close>

locale epoch_machine =
  fixes step :: "'s \<Rightarrow> 's \<Rightarrow> bool"
    and inv :: "'s \<Rightarrow> bool"
    and epoch :: "'s \<Rightarrow> 'e::linorder"
    and auth :: "'s \<Rightarrow> 'a"
  assumes inv_step: "inv s \<Longrightarrow> step s t \<Longrightarrow> inv t"
    and epoch_step: "inv s \<Longrightarrow> step s t \<Longrightarrow> epoch s \<le> epoch t"
    and auth_step: "inv s \<Longrightarrow> step s t \<Longrightarrow> epoch t = epoch s \<Longrightarrow> auth t = auth s"
begin

lemma run_inv: "step\<^sup>*\<^sup>* s t \<Longrightarrow> inv s \<Longrightarrow> inv t"
  by (induction rule: rtranclp_induct) (auto intro: inv_step)

lemma run_epoch: "step\<^sup>*\<^sup>* s t \<Longrightarrow> inv s \<Longrightarrow> epoch s \<le> epoch t"
proof (induction rule: rtranclp_induct)
  case (step t u)
  then show ?case
    using run_inv epoch_step order_trans by blast
qed simp

lemma run_auth: "step\<^sup>*\<^sup>* s t \<Longrightarrow> inv s \<Longrightarrow> epoch t = epoch s \<Longrightarrow> auth t = auth s"
proof (induction rule: rtranclp_induct)
  case (step t u)
  have "inv t" and "epoch s \<le> epoch t"
    using step.hyps(1) step.prems(1) by (rule run_inv, rule run_epoch)
  moreover have "epoch t \<le> epoch u"
    using \<open>inv t\<close> step.hyps(2) by (rule epoch_step)
  ultimately have "epoch t = epoch s" and "epoch u = epoch t"
    using step.prems(2) by simp_all
  then show ?case
    using step.IH [OF step.prems(1)] auth_step [OF \<open>inv t\<close> step.hyps(2)] by simp
qed simp

text \<open>Two states of one history, in either order.\<close>

lemma history_auth:
  assumes "step\<^sup>*\<^sup>* s t" and "step\<^sup>*\<^sup>* s u" and "inv s"
    and "step\<^sup>*\<^sup>* t u \<or> step\<^sup>*\<^sup>* u t" and "epoch t = epoch u"
  shows "auth t = auth u"
  using assms run_inv run_auth by metis

end

end
