(* ===== verification/Volume_Control_Log.thy ===== *)
theory Volume_Control_Log
  imports Volume_Control Epoch_Machine "HOL-Library.Option_ord"
begin

text \<open>
  Runs of the control state of \<open>control_state.rs\<close>: what an applied command did, that a retry
  of it is answered without a change, and the histories a volume's log can produce. The
  two interpretations of \<open>epoch_machine\<close> say that the fence orders the authority over the
  data (copies and writer) and that the revision orders the whole state.
\<close>

section \<open>Definitions\<close>

definition is_applied :: "CommandPlan \<Rightarrow> bool" where
  "is_applied p \<longleftrightarrow> (case cp_response p of Applied _ _ \<Rightarrow> True | _ \<Rightarrow> False)"

text \<open>The expectation a command carries; only \<open>Initialize\<close> carries none.\<close>

fun command_expected :: "VolumeCommand \<Rightarrow> ExpectedVolumeRevision option" where
  "command_expected (Initialize c) = None"
| "command_expected (Expand c) = Some (ev_expected c)"
| "command_expected (SetDisposition c) = Some (svd_expected c)"
| "command_expected (GrantWriter c) = Some (gvw_expected c)"
| "command_expected (FenceWriter c) = Some (fvw_expected c)"
| "command_expected (BeginRecovery c) = Some (bvr_expected c)"
| "command_expected (RevokeRecovery c) = Some (rvr_expected c)"
| "command_expected (BeginReplacement c) = Some (brr_expected c)"
| "command_expected (CancelReplacement c) = Some (crr_expected c)"
| "command_expected (AdoptReplacement c) = Some (arr_expected c)"

text \<open>One entry of the log, as \<open>VolumeControlStateMachine::apply\<close> replaces the state.\<close>

inductive control_step :: "VolumeControlState \<Rightarrow> VolumeControlState \<Rightarrow> bool" where
  entry: "evaluate s cmd = Some p \<Longrightarrow> control_step s (cp_state p)"

inductive_cases control_stepE: "control_step s t"

definition control_fence :: "VolumeControlState \<Rightarrow> FenceEpoch option" where
  "control_fence s = map_option dcs_fence (vcs_data s)"

definition control_authority ::
  "VolumeControlState \<Rightarrow> (VolumeNodeId fset \<times> WriterGrant option) option" where
  "control_authority s = map_option (\<lambda>d. (dcs_copies d, dcs_writer d)) (vcs_data s)"

text \<open>
  An example volume: its first two commands and the states after them.
\<close>

definition demo_descriptor :: VolumeDescriptor where
  "demo_descriptor =
     \<lparr>vd_volume_id = VolumeId 1, vd_generation = VolumeGeneration 1,
      vd_capacity = VolumeCapacity 8192, vd_block_sizes = VolumeBlockSizes_supported\<rparr>"

definition demo_initialize :: VolumeCommand where
  "demo_initialize =
     Initialize \<lparr>iv_descriptor = demo_descriptor,
                 iv_initial_copies = {|VolumeNodeId 1, VolumeNodeId 2, VolumeNodeId 3|}\<rparr>"

definition demo_writer :: WriterGrant where
  "demo_writer = \<lparr>wg_node_id = VolumeNodeId 1, wg_session_id = DriverSessionId 7\<rparr>"

definition demo_grant :: VolumeCommand where
  "demo_grant =
     GrantWriter \<lparr>gvw_expected = \<lparr>evr_generation = VolumeGeneration 1, evr_revision = 1\<rparr>,
                  gvw_writer = demo_writer\<rparr>"

definition demo_volume :: VolumeControlState where
  "demo_volume =
     \<lparr>vcs_descriptor = Some demo_descriptor, vcs_revision = 1, vcs_disposition = Live,
      vcs_data = Some \<lparr>dcs_fence = FenceEpoch 1,
                       dcs_copies = {|VolumeNodeId 1, VolumeNodeId 2, VolumeNodeId 3|},
                       dcs_writer = None, dcs_recovery = None\<rparr>,
      vcs_replacement = None\<rparr>"

definition demo_written :: VolumeControlState where
  "demo_written =
     \<lparr>vcs_descriptor = Some demo_descriptor, vcs_revision = 2, vcs_disposition = Live,
      vcs_data = Some \<lparr>dcs_fence = FenceEpoch 2,
                       dcs_copies = {|VolumeNodeId 1, VolumeNodeId 2, VolumeNodeId 3|},
                       dcs_writer = Some demo_writer, dcs_recovery = None\<rparr>,
      vcs_replacement = None\<rparr>"

definition demo_expand :: VolumeCommand where
  "demo_expand =
     Expand \<lparr>ev_expected = \<lparr>evr_generation = VolumeGeneration 1, evr_revision = 1\<rparr>,
             ev_target_capacity = VolumeCapacity 16384\<rparr>"

definition demo_expanded :: VolumeControlState where
  "demo_expanded = demo_volume\<lparr>vcs_revision := 2,
     vcs_descriptor := Some (demo_descriptor\<lparr>vd_capacity := VolumeCapacity 16384\<rparr>)\<rparr>"

section \<open>What an applied command did\<close>

lemma is_applied_simps [simp]:
  "is_applied (applied s)" "\<not> is_applied (current s)" "\<not> is_applied (rejected s x)"
  "\<not> is_applied (exhausted s)" "\<not> is_applied \<lparr>cp_state = s, cp_response = Conflict r\<rparr>"
  by (simp_all add: is_applied_def applied_def current_def rejected_def exhausted_def)

lemma check_expected_not_applied: "check_expected s e = Some p \<Longrightarrow> \<not> is_applied p"
  by (auto simp: check_expected_def split: option.splits if_splits)

lemma checked_applied:
  assumes "(if c then Some (current s)
            else case check_expected s e of Some plan \<Rightarrow> Some plan | None \<Rightarrow> k) = Some p"
    and "is_applied p"
  shows "check_expected s e = None" and "k = Some p"
  using assms by (auto dest: check_expected_not_applied split: option.splits if_splits)

lemma expand_applied:
  assumes "expand s c = Some p" and "is_applied p"
  shows "check_expected s (ev_expected c) = None
    \<and> (\<exists>d d' rev. vcs_descriptor s = Some d \<and> with_capacity d (ev_target_capacity c) = Ok d'
         \<and> vd_capacity d' = ev_target_capacity c \<and> has_same_storage_identity d' d
         \<and> p = applied (s\<lparr>vcs_revision := rev, vcs_descriptor := Some d'\<rparr>))"
  using checked_applied [OF assms(1) [unfolded expand_def] assms(2)] assms(2)
  by (auto dest: with_capacity_ok simp: data_ref_def data_mut_def  split: option.splits sum.splits if_splits)

lemma set_disposition_applied:
  assumes "set_disposition s c = Some p" and "is_applied p"
  shows "check_expected s (svd_expected c) = None
    \<and> (\<exists>rev. if svd_disposition c = Live
         then p = applied (s\<lparr>vcs_revision := rev, vcs_disposition := Live\<rparr>)
         else \<exists>data fence. vcs_data s = Some data \<and> fence_next (dcs_fence data) = Some fence
           \<and> p = applied (s\<lparr>vcs_revision := rev, vcs_disposition := svd_disposition c,
               vcs_data := Some (data\<lparr>dcs_fence := fence, dcs_writer := None, dcs_recovery := None\<rparr>),
               vcs_replacement := None\<rparr>))"
  using checked_applied [OF assms(1) [unfolded set_disposition_def] assms(2)] assms(2)
  by (auto simp: data_ref_def data_mut_def Let_def next_fence_def split: option.splits sum.splits if_splits)

lemma grant_writer_applied:
  assumes "grant_writer s c = Some p" and "is_applied p"
  shows "check_expected s (gvw_expected c) = None
    \<and> vcs_disposition s = Live \<and> vcs_replacement s = None
    \<and> (\<exists>rev data fence. vcs_data s = Some data \<and> fence_next (dcs_fence data) = Some fence
         \<and> wg_node_id (gvw_writer c) |\<in>| dcs_copies data \<and> dcs_recovery data = None
         \<and> p = applied (s\<lparr>vcs_revision := rev, vcs_data := Some (data\<lparr>dcs_fence := fence,
               dcs_writer := Some (gvw_writer c), dcs_recovery := None\<rparr>)\<rparr>))"
  using checked_applied [OF assms(1) [unfolded grant_writer_def] assms(2)] assms(2)
  by (auto simp: data_ref_def data_mut_def next_revision_and_fence_Some_iff split: option.splits sum.splits if_splits)

lemma fence_writer_applied:
  assumes "fence_writer s c = Some p" and "is_applied p"
  shows "check_expected s (fvw_expected c) = None
    \<and> (\<exists>rev data fence. vcs_data s = Some data \<and> fence_next (dcs_fence data) = Some fence
         \<and> dcs_writer data = Some (fvw_writer c)
         \<and> p = applied (s\<lparr>vcs_revision := rev,
               vcs_data := Some (data\<lparr>dcs_fence := fence, dcs_writer := None\<rparr>)\<rparr>))"
  using checked_applied [OF assms(1) [unfolded fence_writer_def] assms(2)] assms(2)
  by (auto simp: data_ref_def data_mut_def next_revision_and_fence_Some_iff split: option.splits sum.splits if_splits)

lemma begin_recovery_applied:
  assumes "begin_recovery s c = Some p" and "is_applied p"
  shows "check_expected s (bvr_expected c) = None
    \<and> vcs_disposition s = Live \<and> vcs_replacement s = None
    \<and> (\<exists>rev data fence. vcs_data s = Some data \<and> fence_next (dcs_fence data) = Some fence
         \<and> dcs_writer data = bvr_expected_writer c
         \<and> is_ok (check_requested_recovery data (bvr_recovery c))
         \<and> p = applied (s\<lparr>vcs_revision := rev, vcs_data := Some (data\<lparr>dcs_fence := fence,
               dcs_copies := rcg_target_node_ids (bvr_recovery c), dcs_writer := None,
               dcs_recovery := Some (bvr_recovery c)\<rparr>), vcs_replacement := None\<rparr>))"
  using checked_applied [OF assms(1) [unfolded begin_recovery_def] assms(2)] assms(2)
  by (auto simp: data_ref_def data_mut_def next_revision_and_fence_Some_iff split: option.splits sum.splits if_splits)

lemma revoke_recovery_applied:
  assumes "revoke_recovery s c = Some p" and "is_applied p"
  shows "check_expected s (rvr_expected c) = None
    \<and> (\<exists>rev data. vcs_data s = Some data
         \<and> p = applied (s\<lparr>vcs_revision := rev,
               vcs_data := Some (data\<lparr>dcs_recovery := None\<rparr>)\<rparr>))"
  using checked_applied [OF assms(1) [unfolded revoke_recovery_def] assms(2)] assms(2)
  by (auto simp: data_ref_def data_mut_def  split: option.splits sum.splits if_splits)

lemma begin_replacement_applied:
  assumes "begin_replacement s c = Some p" and "is_applied p"
  shows "check_expected s (brr_expected c) = None
    \<and> vcs_disposition s = Live
    \<and> (\<exists>rev data. vcs_data s = Some data \<and> is_ok (check_replacement_grant data (brr_replacement c))
         \<and> p = applied (s\<lparr>vcs_revision := rev, vcs_replacement := Some (brr_replacement c)\<rparr>))"
  using checked_applied [OF assms(1) [unfolded begin_replacement_def] assms(2)] assms(2)
  by (auto simp: data_ref_def data_mut_def  split: option.splits sum.splits if_splits)

lemma cancel_replacement_applied:
  assumes "cancel_replacement s c = Some p" and "is_applied p"
  shows "check_expected s (crr_expected c) = None
    \<and> (\<exists>rev. p = applied (s\<lparr>vcs_revision := rev, vcs_replacement := None\<rparr>))"
  using checked_applied [OF assms(1) [unfolded cancel_replacement_def] assms(2)] assms(2)
  by (auto simp: data_ref_def data_mut_def  split: option.splits sum.splits if_splits)

lemma adopt_replacement_applied:
  assumes "adopt_replacement s c = Some p" and "is_applied p"
  shows "check_expected s (arr_expected c) = None
    \<and> vcs_disposition s = Live
    \<and> (\<exists>rev data fence grant. vcs_data s = Some data \<and> fence_next (dcs_fence data) = Some fence
         \<and> vcs_replacement s = Some grant \<and> rpg_id grant = arr_replacement_id c
         \<and> dcs_writer data = arr_expected_writer c
         \<and> copies_after_replacement (dcs_copies data) grant = arr_new_copies c
         \<and> p = applied (s\<lparr>vcs_revision := rev, vcs_data := Some (data\<lparr>dcs_fence := fence,
               dcs_copies := arr_new_copies c\<rparr>), vcs_replacement := None\<rparr>))"
  using checked_applied [OF assms(1) [unfolded adopt_replacement_def] assms(2)] assms(2)
  by (auto simp: data_ref_def data_mut_def next_revision_and_fence_Some_iff finished_copies_match_replacement_def split: option.splits sum.splits if_splits)


lemma initialize_applied:
  assumes "initialize s c = Some p" and "is_applied p"
  shows "vcs_descriptor s = None \<and> fcard (iv_initial_copies c) = 3
    \<and> initialization_is_current (cp_state p) c"
  using assms by (auto simp: initialize_def initialization_is_current_def applied_def split: if_splits)

lemmas command_applied = initialize_applied expand_applied set_disposition_applied
  grant_writer_applied fence_writer_applied begin_recovery_applied revoke_recovery_applied
  begin_replacement_applied cancel_replacement_applied adopt_replacement_applied

lemma cp_state_applied [simp]: "cp_state (applied s) = s"
  by (simp add: applied_def)

lemma expected_generation_kept:
  "check_expected s e = None \<Longrightarrow> vcs_descriptor s' = vcs_descriptor s \<Longrightarrow>
     expected_generation_is_current s' e"
  by (auto simp: check_expected_None_iff expected_generation_is_current_def)

lemmas command_defs = initialize_def expand_def set_disposition_def grant_writer_def
  fence_writer_def begin_recovery_def revoke_recovery_def begin_replacement_def
  cancel_replacement_def adopt_replacement_def

lemma evaluate_retry:
  assumes "evaluate s cmd = Some p" and "is_applied p"
  shows "evaluate (cp_state p) cmd = Some (current (cp_state p))"
proof (cases cmd)
  case (Expand c)
  with assms have "expand s c = Some p" by simp
  from expand_applied [OF this assms(2)] show ?thesis
    by (auto simp: Expand expand_def check_expected_None_iff
      expected_generation_is_current_def has_same_storage_identity_def)
qed (insert assms, simp_all, (drule (1) command_applied,
       force simp: command_defs expected_generation_kept split: if_splits)+)


lemma applied_expected:
  assumes "evaluate s cmd = Some p" and "is_applied p"
  shows "case command_expected cmd of
           None \<Rightarrow> vcs_descriptor s = None
         | Some e \<Rightarrow> check_expected s e = None"
  using assms by (cases cmd) (simp_all, (drule (1) command_applied, simp)+)

lemma evaluate_cases:
  assumes "valid s" and "evaluate s cmd = Some p"
  obtains (advanced) "is_applied p" "control_advance s (cp_state p)"
    | (unchanged) "\<not> is_applied p" "cp_state p = s"
  using assms evaluate_sound [of s cmd]
  by (auto simp: plan_ok_def is_applied_def split: VolumeCommandResponse.splits)

lemma control_step_advance: "valid s \<Longrightarrow> control_step s t \<Longrightarrow> t = s \<or> control_advance s t"
  by (metis control_stepE evaluate_cases)

section \<open>The fence and the revision order the histories\<close>

lemma control_advance_valid: "control_advance s t \<Longrightarrow> valid t"
  by (simp add: control_advance_def)

lemma control_advance_fence:
  assumes "control_advance s t"
  shows "control_fence s \<le> control_fence t"
    and "control_fence t = control_fence s \<Longrightarrow> control_authority t = control_authority s"
  using assms
  by (auto simp: control_advance_def control_fence_def control_authority_def data_advance_def
      split: option.splits)

lemma control_advance_revision: "control_advance s t \<Longrightarrow> vcs_revision s < vcs_revision t"
  by (simp add: control_advance_def word_less_nat_alt)

interpretation fence_run: epoch_machine control_step valid control_fence control_authority
  by unfold_locales
    (metis control_step_advance control_advance_valid control_advance_fence order_refl)+

interpretation revision_run: epoch_machine control_step valid vcs_revision id
  by unfold_locales
    (metis control_step_advance control_advance_valid control_advance_revision less_imp_le
      order_refl less_irrefl)+

lemma control_advance_descriptor:
  "control_advance s t \<Longrightarrow> vcs_descriptor s = Some d \<Longrightarrow>
     \<exists>d'. vcs_descriptor t = Some d' \<and> descriptor_advance d d'"
  by (auto simp: control_advance_def split: option.splits)

lemma descriptor_advance_trans:
  "descriptor_advance a b \<Longrightarrow> descriptor_advance b c \<Longrightarrow> descriptor_advance a c"
  unfolding descriptor_advance_def using same_storage_identity_trans order_trans by blast

lemma run_descriptor:
  "control_step\<^sup>*\<^sup>* s t \<Longrightarrow> valid s \<Longrightarrow> vcs_descriptor s = Some d \<Longrightarrow>
     \<exists>d'. vcs_descriptor t = Some d' \<and> descriptor_advance d d'"
proof (induction rule: rtranclp_induct)
  case (step t u)
  have "valid t"
    using step.hyps(1) step.prems(1) by (rule fence_run.run_inv)
  then show ?case
    using step control_step_advance control_advance_descriptor descriptor_advance_trans by metis
qed simp

section \<open>The example, evaluated\<close>

lemma valid_demo: "valid VolumeControlState_default" "valid demo_volume"
  by (simp_all add: valid_def validate_def VolumeControlState_default_def demo_volume_def
      demo_descriptor_def is_ok_def fcard_finsert_if)

lemma evaluate_demo_initialize:
  "evaluate VolumeControlState_default demo_initialize = Some (applied demo_volume)"
  by (simp add: demo_initialize_def demo_volume_def initialize_def initialization_is_current_def
      VolumeControlState_default_def fcard_finsert_if fence_initial_def)

lemma evaluate_demo_grant: "evaluate demo_volume demo_grant = Some (applied demo_written)"
  by (simp add: demo_grant_def demo_volume_def demo_written_def grant_writer_def
      check_expected_def data_ref_def data_mut_def next_revision_and_fence_def next_fence_def
      fence_next_def checked_add_def demo_descriptor_def demo_writer_def
      expected_generation_is_current_def is_some_and_def)

lemma evaluate_demo_expand: "evaluate demo_volume demo_expand = Some (applied demo_expanded)"
  using check_alignments_supported [of 16384]
  by (simp add: demo_expand_def demo_volume_def demo_expanded_def expand_def check_expected_def
      data_ref_def checked_add_def demo_descriptor_def expected_generation_is_current_def
      is_some_and_def with_capacity_def VolumeDescriptor_new_def VolumeCapacity_new_def
      less_VolumeCapacity_def)

lemma demo_run:
  "control_step\<^sup>*\<^sup>* VolumeControlState_default demo_volume"
  "control_step\<^sup>*\<^sup>* demo_volume demo_written"
  "control_step\<^sup>*\<^sup>* demo_volume demo_expanded"
  using control_step.entry [OF evaluate_demo_initialize] control_step.entry [OF evaluate_demo_grant]
    control_step.entry [OF evaluate_demo_expand] by simp_all

section \<open>Properties\<close>

text \<open>
  C1. On a control state that validates, every command is evaluated without a panic; the
  state of the plan validates again, its revision grows by exactly one when the command is
  applied, and on every other response (current, conflict, rejected) it is the old state.
\<close>

theorem evaluate_preserves:
  assumes "valid s"
  shows "\<exists>p. evaluate s cmd = Some p \<and> valid (cp_state p)
    \<and> (if is_applied p then unat (vcs_revision (cp_state p)) = unat (vcs_revision s) + 1
       else cp_state p = s)"
proof -
  obtain p where p: "evaluate s cmd = Some p"
    using evaluate_sound [OF assms] by blast
  from assms p show ?thesis
    by (rule evaluate_cases) (use p assms in \<open>auto simp: control_advance_def\<close>)
qed

theorem evaluate_preserves_witness:
  "valid demo_volume \<and> (\<exists>p. evaluate demo_volume demo_grant = Some p \<and> valid (cp_state p)
     \<and> (if is_applied p
        then unat (vcs_revision (cp_state p)) = unat (vcs_revision demo_volume) + 1
        else cp_state p = demo_volume))"
  using evaluate_preserves [OF valid_demo(2), of demo_grant] valid_demo(2) by simp

text \<open>
  C2. In the history of one volume two states with the same fence have the same copies and
  the same writer: a fence epoch names at most one writer and one copy set, so work admitted
  under an older fence can be told from work of the current writer.
\<close>

theorem fence_names_one_authority:
  assumes "valid s" and "control_step\<^sup>*\<^sup>* s t" and "control_step\<^sup>*\<^sup>* t u"
    and "control_fence u = control_fence t"
  shows "control_authority u = control_authority t"
  using fence_run.run_auth [OF assms(3) fence_run.run_inv [OF assms(2,1)] assms(4)] .

theorem fence_names_one_authority_witness:
  "control_fence demo_expanded = control_fence demo_volume
     \<and> control_authority demo_expanded = control_authority demo_volume"
proof -
  have fence: "control_fence demo_expanded = control_fence demo_volume"
    by (simp add: control_fence_def demo_expanded_def)
  with fence_names_one_authority [OF valid_demo(1) demo_run(1,3)] show ?thesis by simp
qed

text \<open>
  C3. Retrying a command that was applied is answered \<open>Current\<close> and changes nothing, so a
  client that lost the response may send the command again.
\<close>

theorem applied_command_retry:
  assumes "evaluate s cmd = Some p" and "is_applied p"
  shows "evaluate (cp_state p) cmd = Some (current (cp_state p))"
  using assms by (rule evaluate_retry)

theorem applied_command_retry_witness:
  "evaluate demo_written demo_grant = Some (current demo_written)"
  using applied_command_retry [OF evaluate_demo_grant] by simp

text \<open>
  C4. Commands are compare-and-set on the revision: of two commands that expect the same
  revision of a volume, the second is not applied when the first was, even when other
  commands ran in between.
\<close>

theorem one_command_per_revision:
  assumes "valid s" and "evaluate s cmd = Some p" and "is_applied p"
    and "control_step\<^sup>*\<^sup>* (cp_state p) t" and "evaluate t cmd' = Some q"
    and "command_expected cmd = Some e" and "command_expected cmd' = Some e'"
    and "evr_revision e' = evr_revision e"
  shows "\<not> is_applied q"
proof
  assume "is_applied q"
  then have "check_expected t e' = None" and "check_expected s e = None"
    using applied_expected assms by fastforce+
  then have eq: "vcs_revision t = vcs_revision s"
    using assms(8) by (auto simp: check_expected_None_iff)
  have adv: "control_advance s (cp_state p)"
    using assms(1-3) by (auto elim: evaluate_cases)
  with revision_run.run_epoch [OF assms(4)] have "vcs_revision (cp_state p) \<le> vcs_revision t"
    by (simp add: control_advance_valid)
  with control_advance_revision [OF adv] eq show False by simp
qed

theorem one_command_per_revision_witness:
  "\<exists>q. evaluate demo_written demo_expand = Some q \<and> \<not> is_applied q"
proof -
  have "valid demo_written"
    using fence_run.run_inv [OF demo_run(2) valid_demo(2)] .
  then obtain q where "evaluate demo_written demo_expand = Some q"
    using evaluate_sound by blast
  with one_command_per_revision [OF valid_demo(2) evaluate_demo_grant, of demo_written demo_expand q]
  show ?thesis by (simp add: demo_grant_def demo_expand_def)
qed

text \<open>
  C5. Granting a writer installs a fence above every fence the volume ever had, and the new
  writer runs on a live volume, on a node that holds a copy, with no recovery or replacement
  in progress.
\<close>

theorem grant_writer_fences_predecessors:
  assumes "valid s" and "control_step\<^sup>*\<^sup>* s t" and "evaluate t (GrantWriter c) = Some p"
    and "is_applied p"
  shows "control_fence s < control_fence (cp_state p)
    \<and> vcs_disposition (cp_state p) = Live \<and> vcs_replacement (cp_state p) = None
    \<and> (\<exists>data. vcs_data (cp_state p) = Some data \<and> dcs_writer data = Some (gvw_writer c)
         \<and> wg_node_id (gvw_writer c) |\<in>| dcs_copies data \<and> dcs_recovery data = None)"
proof -
  have "control_fence s \<le> control_fence t"
    using assms(2,1) by (rule fence_run.run_epoch)
  also have "control_fence t < control_fence (cp_state p)"
    using grant_writer_applied [of t c p] assms(3,4)
    by (auto simp: control_fence_def dest: fence_next_less)
  finally show ?thesis
    using grant_writer_applied [of t c p] assms(3,4) by auto
qed

theorem grant_writer_fences_predecessors_witness:
  "control_fence demo_volume < control_fence demo_written \<and> vcs_disposition demo_written = Live"
  using grant_writer_fences_predecessors [OF valid_demo(2) rtranclp.rtrancl_refl
      evaluate_demo_grant [unfolded demo_grant_def]] by simp

text \<open>
  C6. The storage identity of an initialized volume (its id, generation and block sizes)
  never changes in its history, and its capacity never shrinks.
\<close>

theorem history_keeps_storage:
  assumes "valid s" and "control_step\<^sup>*\<^sup>* s t" and "vcs_descriptor s = Some d"
  shows "\<exists>d'. vcs_descriptor t = Some d' \<and> has_same_storage_identity d' d
    \<and> vd_capacity d \<le> vd_capacity d'"
  using run_descriptor [OF assms(2,1,3)] by (simp add: descriptor_advance_def)

theorem history_keeps_storage_witness:
  "\<exists>d'. vcs_descriptor demo_expanded = Some d' \<and> has_same_storage_identity d' demo_descriptor
    \<and> vd_capacity demo_descriptor \<le> vd_capacity d'"
  using history_keeps_storage [OF valid_demo(2) demo_run(3), of demo_descriptor]
  by (simp add: demo_volume_def)

text \<open>
  The revision identifies the state: two states of one history with the same revision are
  equal, so a reader may compare revisions in place of states.
\<close>

theorem revision_identifies_state:
  assumes "valid s" and "control_step\<^sup>*\<^sup>* s t" and "control_step\<^sup>*\<^sup>* t u"
    and "vcs_revision u = vcs_revision t"
  shows "u = t"
  using revision_run.run_auth [OF assms(3) revision_run.run_inv [OF assms(2,1)] assms(4)] by simp

theorem revision_identifies_state_witness:
  "\<exists>p. evaluate demo_volume (SetDisposition
      \<lparr>svd_expected = \<lparr>evr_generation = VolumeGeneration 1, evr_revision = 9\<rparr>,
       svd_disposition = Retained\<rparr>) = Some p
     \<and> cp_response p = Conflict 1 \<and> cp_state p = demo_volume"
proof -
  let ?cmd = "SetDisposition
      \<lparr>svd_expected = \<lparr>evr_generation = VolumeGeneration 1, evr_revision = 9\<rparr>,
       svd_disposition = Retained\<rparr>"
  have e: "evaluate demo_volume ?cmd = Some \<lparr>cp_state = demo_volume, cp_response = Conflict 1\<rparr>"
    by (simp add: set_disposition_def demo_volume_def check_expected_def demo_descriptor_def)
  then have "control_step\<^sup>*\<^sup>* demo_volume (cp_state \<lparr>cp_state = demo_volume, cp_response = Conflict 1\<rparr>)"
    by (blast intro: control_step.entry)
  from revision_identifies_state [OF valid_demo(1) demo_run(1) this] e show ?thesis by simp
qed

end
