(* ===== verification/Volume_Admission.thy ===== *)
theory Volume_Admission
  imports Volume_Control_Log "HOL-Library.AList" "HOL-Library.Multiset"
begin

text \<open>
  \<open>crates/mantissa-volume/src/storage/replica_file/io_admission.rs\<close>: the applied control
  state a replica publishes to its data path, the registry of those cells, and the gate
  (\<open>FenceAdmission\<close>) that admits each block request against them.

  A \<open>BTreeMap<FenceEpoch, usize>\<close> is an association list with distinct keys. An \<open>Arc\<close> of a
  cell is an address in the registry's heap, so that \<open>Arc::ptr_eq\<close> compares addresses.
  The methods of the gate read two atomics (the local state and the cell) that other threads
  change, so besides its straight-line form each method has a form as a sequence of atomic
  steps; these run interleaved in \<open>gate_step\<close> of the theory on concurrent admission.
  \<open>Notify\<close> only wakes waiters that check the counters again and carries no state.
\<close>

section \<open>Applied control state\<close>

record ApplyContext =
  ac_term :: u64
  ac_index :: u64

record ReplicaKey =
  rk_volume_id :: VolumeId
  rk_generation :: VolumeGeneration

definition ReplicaKey_from :: "VolumeDescriptor \<Rightarrow> ReplicaKey" where
  "ReplicaKey_from descriptor =
     \<lparr>rk_volume_id = vd_volume_id descriptor, rk_generation = vd_generation descriptor\<rparr>"

record AppliedVolumeState =
  avs_applied :: ApplyContext
  avs_descriptor :: VolumeDescriptor
  avs_revision :: u64
  avs_disposition :: VolumeDisposition
  avs_data :: DataControlState
  avs_replacement :: "ReplacementGrant option"

definition from_state :: "ApplyContext \<Rightarrow> VolumeControlState \<Rightarrow> AppliedVolumeState option" where
  "from_state position state =
     (case vcs_descriptor state of
        None \<Rightarrow> None
      | Some descriptor \<Rightarrow>
          (case vcs_data state of
             None \<Rightarrow> None
           | Some data \<Rightarrow>
               Some \<lparr>avs_applied = position, avs_descriptor = descriptor,
                     avs_revision = vcs_revision state, avs_disposition = vcs_disposition state,
                     avs_data = data, avs_replacement = vcs_replacement state\<rparr>))"

definition control_state ::
  "AppliedVolumeState \<Rightarrow> (VolumeControlState, VolumeControlStateInvariantError) result" where
  "control_state self =
     from_parts (Some (avs_descriptor self)) (avs_revision self) (avs_disposition self)
       (Some (avs_data self)) (avs_replacement self)"

datatype AppliedVolumeStatePublicationError =
    InvalidControlState
  | StaleAppliedIndex u64 u64
  | ConflictingAppliedEntry u64
  | ControlStateRegressed

text \<open>\<open>AppliedVolumeStateCell::publish\<close>: the result and the content of the cell after it.\<close>

definition cell_publish ::
  "AppliedVolumeState \<Rightarrow> AppliedVolumeState
     \<Rightarrow> (unit, AppliedVolumeStatePublicationError) result \<times> AppliedVolumeState" where
  "cell_publish published applied_state =
     (if ac_index (avs_applied applied_state) < ac_index (avs_applied published)
      then (Err (StaleAppliedIndex (ac_index (avs_applied published))
                   (ac_index (avs_applied applied_state))), published)
      else if ac_index (avs_applied applied_state) = ac_index (avs_applied published)
      then (if applied_state = published then (Ok (), published)
            else (Err (ConflictingAppliedEntry (ac_index (avs_applied applied_state))), published))
      else if avs_revision applied_state < avs_revision published
           \<or> dcs_fence (avs_data applied_state) < dcs_fence (avs_data published)
           \<or> \<not> has_same_storage_identity (avs_descriptor applied_state) (avs_descriptor published)
           \<or> vd_capacity (avs_descriptor applied_state) < vd_capacity (avs_descriptor published)
      then (Err ControlStateRegressed, published)
      else (Ok (), applied_state))"

section \<open>The gate\<close>

datatype IoRequestKind =
    Foreground
  | InstallFence
  | RecoverySource RecoveryId
  | RecoveryTarget RecoveryId
  | ReplacementSource ReplacementId
  | ReplacementTarget ReplacementId

record IoAdmissionRequest =
  iar_descriptor :: VolumeDescriptor
  iar_fence :: FenceEpoch
  iar_session_id :: DriverSessionId
  iar_authenticated_peer :: VolumeNodeId
  iar_kind :: IoRequestKind

datatype IoAdmissionError =
    LocallyDisabled
  | Retired
  | StaleEnable
  | WrongDescriptor
  | IoVolumeNotLive
  | StaleFence FenceEpoch FenceEpoch
  | Unauthorized
  | RequestCountExhausted

definition ADMISSION_DISABLED :: u8 where
  "ADMISSION_DISABLED = 0"

definition ADMISSION_ENABLED :: u8 where
  "ADMISSION_ENABLED = 1"

definition ADMISSION_RETIRED :: u8 where
  "ADMISSION_RETIRED = 2"

type_synonym in_flight_counts = "(FenceEpoch \<times> usize) list"

record FenceAdmission =
  fa_applied_volume_state :: nat
  fa_local_node :: VolumeNodeId
  fa_local_state :: u8
  fa_in_flight :: in_flight_counts

definition FenceAdmission_new :: "nat \<Rightarrow> VolumeNodeId \<Rightarrow> FenceAdmission" where
  "FenceAdmission_new applied_volume_state local_node =
     \<lparr>fa_applied_volume_state = applied_volume_state, fa_local_node = local_node,
      fa_local_state = ADMISSION_DISABLED, fa_in_flight = []\<rparr>"

definition local_node_belongs :: "AppliedVolumeState \<Rightarrow> VolumeNodeId \<Rightarrow> bool" where
  "local_node_belongs applied_state local_node \<longleftrightarrow>
     local_node |\<in>| dcs_copies (avs_data applied_state)
     \<or> is_some_and (avs_replacement applied_state)
          (\<lambda>replacement. rpg_new_node_id replacement = local_node)"

fun request_allowed ::
  "AppliedVolumeState \<Rightarrow> VolumeNodeId \<Rightarrow> IoAdmissionRequest \<Rightarrow> IoRequestKind \<Rightarrow> bool" where
  "request_allowed applied_state local_node request (RecoverySource grant_id) =
     is_some_and (dcs_recovery (avs_data applied_state)) (\<lambda>recovery.
       rcg_id recovery = grant_id
       \<and> rcg_coordinator_node_id recovery = iar_authenticated_peer request
       \<and> rcg_source_node_id recovery = local_node)"
| "request_allowed applied_state local_node request (RecoveryTarget grant_id) =
     is_some_and (dcs_recovery (avs_data applied_state)) (\<lambda>recovery.
       rcg_id recovery = grant_id
       \<and> rcg_coordinator_node_id recovery = iar_authenticated_peer request
       \<and> local_node |\<in>| rcg_target_node_ids recovery)"
| "request_allowed applied_state local_node request (ReplacementSource grant_id) =
     is_some_and (avs_replacement applied_state) (\<lambda>replacement.
       rpg_id replacement = grant_id
       \<and> rpg_coordinator_node_id replacement = iar_authenticated_peer request
       \<and> rpg_source_node_id replacement = local_node)"
| "request_allowed applied_state local_node request (ReplacementTarget grant_id) =
     is_some_and (avs_replacement applied_state) (\<lambda>replacement.
       rpg_id replacement = grant_id
       \<and> rpg_coordinator_node_id replacement = iar_authenticated_peer request
       \<and> rpg_new_node_id replacement = local_node)"
| "request_allowed applied_state local_node request _ \<longleftrightarrow>
     local_node |\<in>| dcs_copies (avs_data applied_state)
     \<and> dcs_writer (avs_data applied_state) =
         Some \<lparr>wg_node_id = iar_authenticated_peer request,
               wg_session_id = iar_session_id request\<rparr>"

definition validate_request ::
  "AppliedVolumeState \<Rightarrow> VolumeNodeId \<Rightarrow> IoAdmissionRequest \<Rightarrow> (unit, IoAdmissionError) result" where
  "validate_request applied_state local_node request =
     (if \<not> has_same_storage_identity (avs_descriptor applied_state) (iar_descriptor request)
         \<or> vd_capacity (avs_descriptor applied_state) < vd_capacity (iar_descriptor request)
      then Err WrongDescriptor
      else if avs_disposition applied_state \<noteq> Live then Err IoVolumeNotLive
      else if dcs_fence (avs_data applied_state) \<noteq> iar_fence request
      then Err (StaleFence (dcs_fence (avs_data applied_state)) (iar_fence request))
      else if request_allowed applied_state local_node request (iar_kind request)
      then Ok ()
      else Err Unauthorized)"

text \<open>The counters: \<open>entry(..).or_default()\<close> with \<open>checked_add\<close>, and \<open>decrement_count\<close>.\<close>

definition increment_count ::
  "in_flight_counts \<Rightarrow> FenceEpoch
     \<Rightarrow> (unit, IoAdmissionError) result \<times> in_flight_counts" where
  "increment_count in_flight fence =
     (let n = (case map_of in_flight fence of None \<Rightarrow> 0 | Some n \<Rightarrow> n)
      in case checked_add n 1 of
           None \<Rightarrow> (Err RequestCountExhausted, AList.update fence n in_flight)
         | Some next \<Rightarrow> (Ok (), AList.update fence next in_flight))"

definition decrement_count :: "in_flight_counts \<Rightarrow> FenceEpoch \<Rightarrow> in_flight_counts" where
  "decrement_count in_flight fence =
     (case map_of in_flight fence of
        Some n \<Rightarrow>
          (let n = saturating_sub n 1
           in if n = 0 then AList.delete fence in_flight
              else AList.update fence n in_flight)
      | None \<Rightarrow> in_flight)"

definition older_in_flight :: "in_flight_counts \<Rightarrow> FenceEpoch \<Rightarrow> bool" where
  "older_in_flight in_flight fence \<longleftrightarrow>
     list_ex (\<lambda>(f, n). f < fence \<and> n \<noteq> 0) in_flight"

text \<open>\<open>compare_exchange\<close> on the local state: the value found and the state after it.\<close>

definition compare_exchange :: "u8 \<Rightarrow> u8 \<Rightarrow> FenceAdmission \<Rightarrow> (u8, u8) result \<times> FenceAdmission" where
  "compare_exchange expected new self =
     (if fa_local_state self = expected
      then (Ok expected, self\<lparr>fa_local_state := new\<rparr>)
      else (Err (fa_local_state self), self))"

definition disable :: "FenceAdmission \<Rightarrow> FenceAdmission" where
  "disable self = snd (compare_exchange ADMISSION_ENABLED ADMISSION_DISABLED self)"

definition is_enabled :: "FenceAdmission \<Rightarrow> bool" where
  "is_enabled self \<longleftrightarrow> fa_local_state self = ADMISSION_ENABLED"

definition retire :: "FenceAdmission \<Rightarrow> FenceAdmission" where
  "retire self = self\<lparr>fa_local_state := ADMISSION_RETIRED\<rparr>"

definition release_permit :: "FenceAdmission \<Rightarrow> FenceEpoch \<Rightarrow> FenceAdmission" where
  "release_permit self fence =
     self\<lparr>fa_in_flight := decrement_count (fa_in_flight self) fence\<rparr>"

text \<open>
  The straight-line methods, with the cell's content as an argument: what a call returns and
  leaves behind when nothing else runs.
\<close>

definition enable_for ::
  "AppliedVolumeState \<Rightarrow> FenceAdmission \<Rightarrow> u64
     \<Rightarrow> (unit, IoAdmissionError) result \<times> FenceAdmission" where
  "enable_for cell self applied_index =
     (if fa_local_state self = ADMISSION_RETIRED then (Err Retired, self)
      else if ac_index (avs_applied cell) \<noteq> applied_index
              \<or> \<not> local_node_belongs cell (fa_local_node self)
              \<or> avs_disposition cell \<noteq> Live
      then (Err StaleEnable, self)
      else
        (let (swapped, self) = compare_exchange ADMISSION_DISABLED ADMISSION_ENABLED self
         in if swapped = Err ADMISSION_RETIRED then (Err Retired, self)
            else if \<not> is_ok swapped \<and> swapped \<noteq> Err ADMISSION_ENABLED
            then (Err LocallyDisabled, self)
            else if ac_index (avs_applied cell) \<noteq> applied_index
            then (Err StaleEnable,
                  snd (compare_exchange ADMISSION_ENABLED ADMISSION_DISABLED self))
            else if fa_local_state self = ADMISSION_ENABLED then (Ok (), self)
            else if fa_local_state self = ADMISSION_RETIRED then (Err Retired, self)
            else (Err LocallyDisabled, self)))"

definition admit ::
  "AppliedVolumeState \<Rightarrow> FenceAdmission \<Rightarrow> IoAdmissionRequest
     \<Rightarrow> (FenceEpoch, IoAdmissionError) result \<times> FenceAdmission" where
  "admit cell self request =
     (if fa_local_state self \<noteq> ADMISSION_ENABLED then (Err LocallyDisabled, self)
      else case validate_request cell (fa_local_node self) request of
        Inl e \<Rightarrow> (Err e, self)
      | Inr _ \<Rightarrow>
          (if fa_local_state self \<noteq> ADMISSION_ENABLED then (Err LocallyDisabled, self)
           else case validate_request cell (fa_local_node self) request of
             Inl e \<Rightarrow> (Err e, self)
           | Inr _ \<Rightarrow>
               (case increment_count (fa_in_flight self) (iar_fence request) of
                  (Inl e, in_flight) \<Rightarrow> (Err e, self\<lparr>fa_in_flight := in_flight\<rparr>)
                | (Inr _, in_flight) \<Rightarrow>
                    (let self = self\<lparr>fa_in_flight := in_flight\<rparr>;
                         final_result =
                           (if fa_local_state self = ADMISSION_ENABLED
                            then validate_request cell (fa_local_node self) request
                            else Err LocallyDisabled)
                     in case final_result of
                          Inl e \<Rightarrow>
                            (Err e, self\<lparr>fa_in_flight :=
                               decrement_count (fa_in_flight self) (iar_fence request)\<rparr>)
                        | Inr _ \<Rightarrow> (Ok (iar_fence request), self)))))"

text \<open>The checks of \<open>prepare_fence_install\<close> after older requests have drained.\<close>

definition check_fence_install ::
  "AppliedVolumeState \<Rightarrow> VolumeNodeId \<Rightarrow> FenceEpoch \<Rightarrow> (unit, IoAdmissionError) result" where
  "check_fence_install applied_state local_node fence =
     (if avs_disposition applied_state \<noteq> Live then Err IoVolumeNotLive
      else if dcs_fence (avs_data applied_state) \<noteq> fence
      then Err (StaleFence (dcs_fence (avs_data applied_state)) fence)
      else if local_node |\<notin>| dcs_copies (avs_data applied_state) then Err Unauthorized
      else Ok ())"

section \<open>The registry\<close>

datatype AppliedVolumeStateRemovalError = NotFound | WrongAdmissionGate | RequestsInFlight

text \<open>
  \<open>reg_entries\<close> maps each generation to the address of its cell; \<open>reg_heap\<close> holds the cells,
  which gates may keep after the entry is gone.
\<close>

record AppliedVolumeStateRegistry =
  reg_entries :: "(ReplicaKey \<times> nat) list"
  reg_heap :: "AppliedVolumeState list"

definition AppliedVolumeStateRegistry_new :: AppliedVolumeStateRegistry where
  "AppliedVolumeStateRegistry_new = \<lparr>reg_entries = [], reg_heap = []\<rparr>"

definition registry_publish ::
  "AppliedVolumeStateRegistry \<Rightarrow> ApplyContext \<Rightarrow> VolumeControlState
     \<Rightarrow> (nat option, AppliedVolumeStatePublicationError) result \<times> AppliedVolumeStateRegistry" where
  "registry_publish self position state =
     (case validate state of
        Inl _ \<Rightarrow> (Err InvalidControlState, self)
      | Inr _ \<Rightarrow>
          (case from_state position state of
             None \<Rightarrow> (Ok None, self)
           | Some applied_state \<Rightarrow>
               (let key = ReplicaKey_from (avs_descriptor applied_state)
                in case map_of (reg_entries self) key of
                     None \<Rightarrow>
                       (let cell = length (reg_heap self)
                        in (Ok (Some cell),
                            self\<lparr>reg_entries := AList.update key cell (reg_entries self),
                                 reg_heap := reg_heap self @ [applied_state]\<rparr>))
                   | Some cell \<Rightarrow>
                       (case cell_publish (reg_heap self ! cell) applied_state of
                          (Inl e, _) \<Rightarrow> (Err e, self)
                        | (Inr _, content) \<Rightarrow>
                            (Ok (Some cell),
                             self\<lparr>reg_heap := (reg_heap self)[cell := content]\<rparr>)))))"

definition registry_cell :: "AppliedVolumeStateRegistry \<Rightarrow> ReplicaKey \<Rightarrow> nat option" where
  "registry_cell self key = map_of (reg_entries self) key"

definition registry_len :: "AppliedVolumeStateRegistry \<Rightarrow> nat" where
  "registry_len self = length (reg_entries self)"

definition registry_is_empty :: "AppliedVolumeStateRegistry \<Rightarrow> bool" where
  "registry_is_empty self \<longleftrightarrow> reg_entries self = []"

definition remove_locally_revoked ::
  "AppliedVolumeStateRegistry \<Rightarrow> ReplicaKey \<Rightarrow> FenceAdmission
     \<Rightarrow> (unit, AppliedVolumeStateRemovalError) result
        \<times> AppliedVolumeStateRegistry \<times> FenceAdmission" where
  "remove_locally_revoked self key admission =
     (case map_of (reg_entries self) key of
        None \<Rightarrow> (Err NotFound, self, admission)
      | Some cell \<Rightarrow>
          (if cell \<noteq> fa_applied_volume_state admission
           then (Err WrongAdmissionGate, self, admission)
           else
             (let admission = retire admission
              in if fa_in_flight admission \<noteq> []
                 then (Err RequestsInFlight, self, admission)
                 else (Ok (), self\<lparr>reg_entries := AList.delete key (reg_entries self)\<rparr>,
                       admission))))"

section \<open>Specification-level definitions\<close>

definition publish_step :: "AppliedVolumeState \<Rightarrow> AppliedVolumeState \<Rightarrow> bool" where
  "publish_step c c' \<longleftrightarrow> (\<exists>proposed. c' = snd (cell_publish c proposed))"

definition permit_count :: "in_flight_counts \<Rightarrow> FenceEpoch \<Rightarrow> nat" where
  "permit_count m f = (case map_of m f of None \<Rightarrow> 0 | Some n \<Rightarrow> unat n)"

text \<open>Distinct keys and no zero counts: what the map holds between two calls.\<close>

definition counts_wf :: "in_flight_counts \<Rightarrow> bool" where
  "counts_wf m \<longleftrightarrow> distinct (map fst m) \<and> 0 \<notin> snd ` set m"

definition registry_wf :: "AppliedVolumeStateRegistry \<Rightarrow> bool" where
  "registry_wf r \<longleftrightarrow>
     distinct (map fst (reg_entries r))
     \<and> (\<forall>(key, cell) \<in> set (reg_entries r).
          cell < length (reg_heap r)
          \<and> ReplicaKey_from (avs_descriptor (reg_heap r ! cell)) = key)"

text \<open>The value under the key, as \<open>or_default\<close> finds it.\<close>

definition stored_count :: "in_flight_counts \<Rightarrow> FenceEpoch \<Rightarrow> usize" where
  "stored_count m f = (case map_of m f of None \<Rightarrow> 0 | Some n \<Rightarrow> n)"

text \<open>The example volume with its writer, as its replica on node 2 publishes it.\<close>

definition demo_cell :: AppliedVolumeState where
  "demo_cell =
     \<lparr>avs_applied = \<lparr>ac_term = 1, ac_index = 2\<rparr>, avs_descriptor = demo_descriptor,
      avs_revision = 2, avs_disposition = Live,
      avs_data = \<lparr>dcs_fence = FenceEpoch 2,
                  dcs_copies = {|VolumeNodeId 1, VolumeNodeId 2, VolumeNodeId 3|},
                  dcs_writer = Some demo_writer, dcs_recovery = None\<rparr>,
      avs_replacement = None\<rparr>"

definition demo_request :: IoAdmissionRequest where
  "demo_request =
     \<lparr>iar_descriptor = demo_descriptor, iar_fence = FenceEpoch 2,
      iar_session_id = DriverSessionId 7, iar_authenticated_peer = VolumeNodeId 1,
      iar_kind = Foreground\<rparr>"

definition demo_gate :: FenceAdmission where
  "demo_gate = (FenceAdmission_new 0 (VolumeNodeId 2))\<lparr>fa_local_state := ADMISSION_ENABLED\<rparr>"

section \<open>Publication\<close>

lemma cell_publish_cases:
  "snd (cell_publish c proposed) = c
   \<or> (snd (cell_publish c proposed) = proposed
      \<and> ac_index (avs_applied c) < ac_index (avs_applied proposed)
      \<and> avs_revision c \<le> avs_revision proposed
      \<and> dcs_fence (avs_data c) \<le> dcs_fence (avs_data proposed)
      \<and> has_same_storage_identity (avs_descriptor proposed) (avs_descriptor c)
      \<and> vd_capacity (avs_descriptor c) \<le> vd_capacity (avs_descriptor proposed))"
  by (auto simp: cell_publish_def not_less)

lemma publish_step_cases:
  "publish_step c c' \<Longrightarrow> c' = c \<or> ac_index (avs_applied c) < ac_index (avs_applied c')"
  unfolding publish_step_def using cell_publish_cases by metis

interpretation cell_run: epoch_machine publish_step "\<lambda>_. True"
    "\<lambda>c. ac_index (avs_applied c)" id
  by unfold_locales (auto dest: publish_step_cases)

lemma publish_fence_mono:
  "dcs_fence (avs_data c) \<le> dcs_fence (avs_data (snd (cell_publish c proposed)))"
  using cell_publish_cases [of c proposed] by auto

lemma from_state_Some_iff:
  "from_state p s = Some a \<longleftrightarrow>
     vcs_descriptor s = Some (avs_descriptor a) \<and> vcs_data s = Some (avs_data a)
     \<and> avs_applied a = p \<and> avs_revision a = vcs_revision s
     \<and> avs_disposition a = vcs_disposition s \<and> avs_replacement a = vcs_replacement s"
  by (auto simp: from_state_def split: option.split)

lemma control_state_from_state:
  assumes "valid s" and "from_state p s = Some a"
  shows "control_state a = Ok s"
proof -
  have "s = \<lparr>vcs_descriptor = Some (avs_descriptor a), vcs_revision = avs_revision a,
             vcs_disposition = avs_disposition a, vcs_data = Some (avs_data a),
             vcs_replacement = avs_replacement a\<rparr>"
    using assms(2) by (simp add: from_state_Some_iff)
  then show ?thesis
    using assms(1)
    by (auto simp: control_state_def from_parts_def Let_def valid_def is_ok_iff)
qed

lemma run_applied_state:
  assumes "valid s" and "control_step\<^sup>*\<^sup>* s t" and "from_state p s = Some a"
    and "from_state q t = Some b"
  shows "avs_revision a \<le> avs_revision b"
    and "dcs_fence (avs_data a) \<le> dcs_fence (avs_data b)"
    and "descriptor_advance (avs_descriptor a) (avs_descriptor b)"
proof -
  show "avs_revision a \<le> avs_revision b"
    using revision_run.run_epoch [OF assms(2,1)] assms(3,4) by (simp add: from_state_Some_iff)
  show "dcs_fence (avs_data a) \<le> dcs_fence (avs_data b)"
    using fence_run.run_epoch [OF assms(2,1)] assms(3,4)
    by (simp add: from_state_Some_iff control_fence_def)
  show "descriptor_advance (avs_descriptor a) (avs_descriptor b)"
    using run_descriptor [OF assms(2,1), of "avs_descriptor a"] assms(3,4)
    by (simp add: from_state_Some_iff)
qed

lemma publish_later_state:
  assumes "valid s" and "control_step\<^sup>*\<^sup>* s t" and "from_state p s = Some a"
    and "from_state q t = Some b" and "ac_index p < ac_index q"
  shows "cell_publish a b = (Ok (), b)"
  using run_applied_state [OF assms(1-4)] assms(3-5)
  by (auto simp: cell_publish_def from_state_Some_iff descriptor_advance_def)

section \<open>Counters\<close>

lemma permit_count_Nil [simp]: "permit_count [] f = 0"
  by (simp add: permit_count_def)

lemma permit_count_update [simp]:
  "permit_count (AList.update f n m) g = (if g = f then unat n else permit_count m g)"
  by (simp add: permit_count_def update_conv')

lemma permit_count_delete [simp]:
  "permit_count (AList.delete f m) g = (if g = f then 0 else permit_count m g)"
  by (simp add: permit_count_def delete_conv')

lemma counts_wf_iff:
  "counts_wf m \<longleftrightarrow> distinct (map fst m) \<and> (\<forall>f. map_of m f \<noteq> Some 0)"
  by (force simp: counts_wf_def)

lemma permit_count_zero_iff:
  assumes "counts_wf m"
  shows "permit_count m f = 0 \<longleftrightarrow> f \<notin> fst ` set m"
proof -
  have "permit_count m f = 0 \<longleftrightarrow> map_of m f = None"
    using assms by (cases "map_of m f") (auto simp: permit_count_def counts_wf_iff unat_eq_zero)
  then show ?thesis by (simp add: map_of_eq_None_iff)
qed

lemma counts_wf_update: "counts_wf m \<Longrightarrow> n \<noteq> 0 \<Longrightarrow> counts_wf (AList.update f n m)"
  by (auto simp: counts_wf_iff update_conv' distinct_update)

lemma counts_wf_delete: "counts_wf m \<Longrightarrow> counts_wf (AList.delete f m)"
  by (auto simp: counts_wf_iff delete_conv' distinct_delete)

lemma permit_count_stored: "permit_count m f = unat (stored_count m f)"
  by (simp add: permit_count_def stored_count_def split: option.split)

lemma increment_count_alt:
  "increment_count m f =
     (case checked_add (stored_count m f) 1 of
        None \<Rightarrow> (Err RequestCountExhausted, AList.update f (stored_count m f) m)
      | Some n \<Rightarrow> (Ok (), AList.update f n m))"
  by (simp add: increment_count_def stored_count_def Let_def split: option.split)

lemma increment_count_ok:
  assumes "increment_count m f = (Ok u, m')"
  shows "permit_count m' g = permit_count m g + (if g = f then 1 else 0)"
    and "counts_wf m \<Longrightarrow> counts_wf m'"
proof -
  obtain n where n: "unat n = unat (stored_count m f) + 1" and m': "m' = AList.update f n m"
    using assms by (auto simp: increment_count_alt checked_add_Some_iff split: option.splits)
  show "permit_count m' g = permit_count m g + (if g = f then 1 else 0)"
    using n by (simp add: m' permit_count_stored [of m f])
  have "n \<noteq> 0" using n by auto
  then show "counts_wf m \<Longrightarrow> counts_wf m'"
    by (simp add: m' counts_wf_update)
qed

lemma increment_count_err:
  assumes "increment_count m f = (Err e, m')"
  shows "permit_count m' g = permit_count m g" and "e = RequestCountExhausted"
    and "counts_wf m \<Longrightarrow> counts_wf m'"
proof -
  have none: "checked_add (stored_count m f) 1 = None" and e: "e = RequestCountExhausted"
    and m': "m' = AList.update f (stored_count m f) m"
    using assms by (auto simp: increment_count_alt split: option.splits)
  show "e = RequestCountExhausted" by (rule e)
  show "permit_count m' g = permit_count m g"
    by (simp add: m' permit_count_stored [of m f])
  have "stored_count m f \<noteq> 0"
    using none by (auto simp: checked_add_def)
  then show "counts_wf m \<Longrightarrow> counts_wf m'"
    by (simp add: m' counts_wf_update)
qed

lemma decrement_count_permits:
  assumes "counts_wf m"
  shows "permit_count (decrement_count m f) g = permit_count m g - (if g = f then 1 else 0)"
    and "counts_wf (decrement_count m f)"
proof -
  have "permit_count (decrement_count m f) g = permit_count m g - (if g = f then 1 else 0)
      \<and> counts_wf (decrement_count m f)"
  proof (cases "map_of m f")
    case None
    then show ?thesis
      using assms by (simp add: decrement_count_def permit_count_def)
  next
    case (Some n)
    have "unat (saturating_sub n 1) = unat n - 1"
      by (simp add: unat_saturating_sub)
    moreover have "permit_count m f = unat n"
      using Some by (simp add: permit_count_def)
    ultimately show ?thesis
      using assms Some
      by (auto simp: decrement_count_def Let_def counts_wf_update counts_wf_delete
          simp flip: unat_eq_zero)
  qed
  then show "permit_count (decrement_count m f) g = permit_count m g - (if g = f then 1 else 0)"
    and "counts_wf (decrement_count m f)" by simp_all
qed

lemma older_in_flight_iff:
  assumes "counts_wf m"
  shows "older_in_flight m fence \<longleftrightarrow> (\<exists>f < fence. permit_count m f \<noteq> 0)"
proof -
  have "older_in_flight m fence \<longleftrightarrow> (\<exists>f < fence. f \<in> fst ` set m)"
    using assms by (force simp: older_in_flight_def list_ex_iff counts_wf_def image_iff)
  then show ?thesis
    using permit_count_zero_iff [OF assms] by simp
qed

lemma counts_empty_iff: "counts_wf m \<Longrightarrow> m = [] \<longleftrightarrow> (\<forall>f. permit_count m f = 0)"
  by (auto simp: permit_count_zero_iff)

section \<open>The registry\<close>

lemma cell_publish_ok:
  "cell_publish c b = (Ok u, c') \<Longrightarrow> c' = b \<and> (b = c \<or> has_same_storage_identity (avs_descriptor b) (avs_descriptor c))"
  by (auto simp: cell_publish_def split: if_splits)

lemma same_identity_same_key:
  "has_same_storage_identity d e \<Longrightarrow> ReplicaKey_from d = ReplicaKey_from e"
  by (simp add: has_same_storage_identity_def ReplicaKey_from_def)

lemma registry_wf_iff:
  "registry_wf r \<longleftrightarrow> distinct (map fst (reg_entries r))
     \<and> (\<forall>key cell. map_of (reg_entries r) key = Some cell \<longrightarrow>
          cell < length (reg_heap r)
          \<and> ReplicaKey_from (avs_descriptor (reg_heap r ! cell)) = key)"
  unfolding registry_wf_def by fastforce

lemma registry_publish_ok:
  assumes "registry_wf r" and "registry_publish r p s = (Ok (Some cell), r')"
  obtains b where "from_state p s = Some b" and "valid s"
    and "registry_cell r' (ReplicaKey_from (avs_descriptor b)) = Some cell"
    and "cell < length (reg_heap r')" and "reg_heap r' ! cell = b"
proof -
  obtain b where b: "from_state p s = Some b" and v: "valid s"
    using assms(2)
    by (auto simp: registry_publish_def valid_def is_ok_def split: sum.splits option.splits)
  let ?k = "ReplicaKey_from (avs_descriptor b)"
  have "registry_cell r' ?k = Some cell \<and> cell < length (reg_heap r') \<and> reg_heap r' ! cell = b"
  proof (cases "map_of (reg_entries r) ?k")
    case None
    then show ?thesis
      using assms(2) v b
      by (auto simp: registry_publish_def registry_cell_def Let_def update_conv' valid_def
          is_ok_iff)
  next
    case (Some cell')
    then show ?thesis
      using assms v b
      by (auto simp: registry_publish_def registry_cell_def Let_def valid_def is_ok_iff
          registry_wf_iff dest: cell_publish_ok split: prod.splits sum.splits)
  qed
  with that b v show thesis by blast
qed

lemma registry_publish_wf:
  assumes "registry_wf r"
  shows "registry_wf (snd (registry_publish r p s))"
proof (cases "is_ok (validate s) \<and> (\<exists>b. from_state p s = Some b)")
  case True
  then obtain b where v: "validate s = Ok ()" and b: "from_state p s = Some b"
    by (auto simp: is_ok_unit_iff)
  let ?k = "ReplicaKey_from (avs_descriptor b)"
  show ?thesis
  proof (cases "map_of (reg_entries r) ?k")
    case None
    then show ?thesis
      using assms v b
      by (auto simp: registry_publish_def Let_def registry_wf_iff update_conv' distinct_update
          nth_append intro: less_SucI split: if_splits)
  next
    case (Some cell)
    then show ?thesis
      using assms v b
      by (auto simp: registry_publish_def Let_def registry_wf_iff nth_list_update
          dest!: cell_publish_ok split: prod.splits sum.splits; metis)
  qed
qed (use assms in \<open>auto simp: registry_publish_def is_ok_def split: sum.splits option.splits\<close>)

section \<open>One call at a time\<close>

lemma validate_request_ok_iff:
  "validate_request c node req = Ok () \<longleftrightarrow>
     has_same_storage_identity (avs_descriptor c) (iar_descriptor req)
     \<and> vd_capacity (iar_descriptor req) \<le> vd_capacity (avs_descriptor c)
     \<and> avs_disposition c = Live \<and> dcs_fence (avs_data c) = iar_fence req
     \<and> request_allowed c node req (iar_kind req)"
  by (auto simp: validate_request_def)

lemma admit_ok_iff:
  "(\<exists>g'. admit c g req = (Ok f, g')) \<longleftrightarrow>
     is_enabled g \<and> validate_request c (fa_local_node g) req = Ok () \<and> f = iar_fence req
     \<and> permit_count (fa_in_flight g) f + 1 < 2 ^ 64"
proof -
  have "(\<exists>m'. increment_count m h = (Ok (), m')) \<longleftrightarrow> permit_count m h + 1 < 2 ^ 64" for m h
    by (simp add: increment_count_alt permit_count_stored checked_add_def split: option.split)
  from this [of "fa_in_flight g" "iar_fence req"] show ?thesis
    by (auto simp: admit_def is_enabled_def Let_def split: sum.splits prod.splits)
qed

lemma admit_counts:
  assumes "counts_wf (fa_in_flight g)" and "admit c g req = (r, g')"
  shows "permit_count (fa_in_flight g') h =
      permit_count (fa_in_flight g) h + (if is_ok r \<and> h = iar_fence req then 1 else 0)"
    and "counts_wf (fa_in_flight g')"
  using assms
  by (auto simp: admit_def Let_def is_ok_def increment_count_ok increment_count_err
      decrement_count_permits split: if_splits sum.splits prod.splits)

lemma demo_admits:
  "from_state \<lparr>ac_term = 1, ac_index = 2\<rparr> demo_written = Some demo_cell"
  "validate_request demo_cell (VolumeNodeId 2) demo_request = Ok ()"
  "iar_fence demo_request = FenceEpoch 2" "iar_kind demo_request = Foreground"
  "is_enabled demo_gate" "fa_local_node demo_gate = VolumeNodeId 2" "fa_in_flight demo_gate = []"
  by (simp_all add: from_state_Some_iff demo_written_def demo_cell_def validate_request_ok_iff
      demo_request_def demo_descriptor_def demo_writer_def demo_gate_def is_enabled_def
      FenceAdmission_new_def)

section \<open>Properties\<close>

text \<open>
  C7. The cell never rejects the volume's own history: once a state of the log is published,
  publishing any later state of the log under a larger index succeeds, and the cell then
  holds that state.
\<close>

theorem history_publication_accepted:
  assumes "valid s" and "control_step\<^sup>*\<^sup>* s t" and "from_state p s = Some a"
    and "from_state q t = Some b" and "ac_index p < ac_index q"
  shows "cell_publish a b = (Ok (), b)"
  using assms by (rule publish_later_state)

theorem history_publication_accepted_witness:
  "\<exists>a. from_state \<lparr>ac_term = 1, ac_index = 1\<rparr> demo_volume = Some a
     \<and> cell_publish a demo_cell = (Ok (), demo_cell)"
proof -
  obtain a where a: "from_state \<lparr>ac_term = 1, ac_index = 1\<rparr> demo_volume = Some a"
    by (simp add: from_state_def demo_volume_def)
  from history_publication_accepted [OF valid_demo(2) demo_run(2) this demo_admits(1)] a
  show ?thesis by simp
qed

text \<open>
  C8. Publication through the registry is a round trip: after a publication that returns a
  cell, the generation's key finds that cell, the cell holds the published entry, and the
  control state read back from it is the published one; the registry stays well formed.
\<close>

theorem registry_publish_roundtrip:
  assumes "registry_wf r" and "registry_publish r p s = (Ok (Some cell), r')"
  shows "registry_wf r' \<and> control_state (reg_heap r' ! cell) = Ok s
    \<and> avs_applied (reg_heap r' ! cell) = p
    \<and> registry_cell r' (ReplicaKey_from (avs_descriptor (reg_heap r' ! cell))) = Some cell"
proof -
  have "registry_wf r'"
    using registry_publish_wf [OF assms(1), of p s] assms(2) by simp
  moreover obtain b where "from_state p s = Some b" and "valid s" and "reg_heap r' ! cell = b"
      and "registry_cell r' (ReplicaKey_from (avs_descriptor b)) = Some cell"
    using registry_publish_ok [OF assms] by metis
  ultimately show ?thesis
    by (simp add: control_state_from_state) (simp add: from_state_Some_iff)
qed

theorem registry_publish_roundtrip_witness:
  "\<exists>r'. registry_publish AppliedVolumeStateRegistry_new \<lparr>ac_term = 1, ac_index = 1\<rparr> demo_volume
      = (Ok (Some 0), r') \<and> control_state (reg_heap r' ! 0) = Ok demo_volume"
proof -
  have wf: "registry_wf AppliedVolumeStateRegistry_new"
    by (simp add: registry_wf_def AppliedVolumeStateRegistry_new_def)
  have "validate demo_volume = Ok ()"
    using valid_demo(2) by (simp add: valid_def is_ok_unit_iff)
  then obtain r' where r': "registry_publish AppliedVolumeStateRegistry_new
      \<lparr>ac_term = 1, ac_index = 1\<rparr> demo_volume = (Ok (Some 0), r')"
    by (simp add: registry_publish_def AppliedVolumeStateRegistry_new_def from_state_def
        demo_volume_def Let_def)
  with registry_publish_roundtrip [OF wf this] show ?thesis by simp
qed

text \<open>
  C9. A foreground or fence-install request is admitted only for the writer the applied state
  names, on the node and session of the grant, under the applied fence, on a live volume, at
  a replica that is an active copy; exactly one request is then counted, under that fence.
\<close>

theorem admit_only_current_writer:
  assumes "counts_wf (fa_in_flight g)" and "admit c g req = (Ok f, g')"
    and "iar_kind req = Foreground \<or> iar_kind req = InstallFence"
  shows "dcs_writer (avs_data c) = Some \<lparr>wg_node_id = iar_authenticated_peer req,
                                         wg_session_id = iar_session_id req\<rparr>
    \<and> f = dcs_fence (avs_data c) \<and> avs_disposition c = Live \<and> is_enabled g
    \<and> fa_local_node g |\<in>| dcs_copies (avs_data c)
    \<and> has_same_storage_identity (avs_descriptor c) (iar_descriptor req)
    \<and> permit_count (fa_in_flight g') = (permit_count (fa_in_flight g))
         (f := permit_count (fa_in_flight g) f + 1)"
proof -
  have ok: "is_enabled g" "validate_request c (fa_local_node g) req = Ok ()" "f = iar_fence req"
    using admit_ok_iff [of c g req f] assms(2) by auto
  moreover have "permit_count (fa_in_flight g') = (permit_count (fa_in_flight g))
      (f := permit_count (fa_in_flight g) f + 1)"
    using admit_counts(1) [OF assms(1,2)] ok(3) by (auto simp: is_ok_def)
  ultimately show ?thesis
    using assms(3) by (auto simp: validate_request_ok_iff)
qed

theorem admit_only_current_writer_witness:
  "\<exists>g'. admit demo_cell demo_gate demo_request = (Ok (FenceEpoch 2), g')
     \<and> permit_count (fa_in_flight g') (FenceEpoch 2) = 1"
proof -
  have wf: "counts_wf (fa_in_flight demo_gate)"
    by (simp add: demo_admits counts_wf_def)
  obtain g' where g': "admit demo_cell demo_gate demo_request = (Ok (FenceEpoch 2), g')"
    using admit_ok_iff [of demo_cell demo_gate demo_request "FenceEpoch 2"]
    by (auto simp: demo_admits)
  from admit_only_current_writer [OF wf this] g' show ?thesis
    by (auto simp: demo_admits)
qed

end
