(* ===== verification/Volume_Admission_Concurrent.thy ===== *)
theory Volume_Admission_Concurrent
  imports Volume_Admission
begin

text \<open>
  The gate of \<open>io_admission.rs\<close> under concurrency. Each method of \<open>FenceAdmission\<close> is split
  into its atomic accesses: a load of the local state, a load of the cell, a compare-and-swap,
  taking or dropping the mutex of the counters. A program counter says how far a thread's
  call has come; \<open>gate_step\<close> lets any thread take its next access, and lets publications,
  \<open>disable\<close> calls and releases of permits happen at any point in between.
  \<open>gw_leases\<close> holds the fence of every \<open>FencePermitLease\<close> that is still owned.
\<close>

section \<open>The methods as atomic accesses\<close>

datatype AdmitPc =
    AdmitStart IoAdmissionRequest
  | AdmitEnabled IoAdmissionRequest
  | AdmitValidated IoAdmissionRequest
  | AdmitLocked IoAdmissionRequest
  | AdmitRechecked IoAdmissionRequest
  | AdmitRevalidated IoAdmissionRequest
  | AdmitCounted IoAdmissionRequest
  | AdmitCountedEnabled IoAdmissionRequest
  | AdmitFinal IoAdmissionRequest "(unit, IoAdmissionError) result"
  | AdmitUnlock "(FenceEpoch, IoAdmissionError) result"
  | AdmitReturned "(FenceEpoch, IoAdmissionError) result"

datatype EnablePc =
    EnableStart u64
  | EnableNotRetired u64
  | EnableInspected u64
  | EnableSwapped u64
  | EnableMoved u64
  | EnableConfirm
  | EnableReturned "(unit, IoAdmissionError) result"

datatype InstallPc =
    InstallStart FenceEpoch
  | InstallLane FenceEpoch
  | InstallDrained FenceEpoch
  | InstallEnabled FenceEpoch
  | InstallReturned "(FenceEpoch, IoAdmissionError) result"

datatype RemovePc =
    RemoveStart
  | RemoveRetired
  | RemoveReturned "(unit, AppliedVolumeStateRemovalError) result"

datatype GatePc =
    IdlePc
  | AdmitPc AdmitPc
  | EnablePc EnablePc
  | InstallPc InstallPc
  | RemovePc RemovePc

record GateWorld =
  gw_cell :: AppliedVolumeState
  gw_gate :: FenceAdmission
  gw_lock :: "nat option"
  gw_lane :: "nat option"
  gw_leases :: "FenceEpoch multiset"
  gw_pc :: "nat \<Rightarrow> GatePc"

definition set_in_flight :: "in_flight_counts \<Rightarrow> GateWorld \<Rightarrow> GateWorld" where
  "set_in_flight m w = w\<lparr>gw_gate := (gw_gate w)\<lparr>fa_in_flight := m\<rparr>\<rparr>"

definition world_validate :: "GateWorld \<Rightarrow> IoAdmissionRequest \<Rightarrow> (unit, IoAdmissionError) result" where
  "world_validate w request = validate_request (gw_cell w) (fa_local_node (gw_gate w)) request"

text \<open>One access of \<open>admit\<close>; \<open>None\<close> when the thread waits for the mutex or has returned.\<close>

fun admit_step :: "nat \<Rightarrow> GateWorld \<Rightarrow> AdmitPc \<Rightarrow> (GateWorld \<times> AdmitPc) option" where
  "admit_step t w (AdmitStart request) =
     Some (w, if is_enabled (gw_gate w) then AdmitEnabled request
              else AdmitReturned (Err LocallyDisabled))"
| "admit_step t w (AdmitEnabled request) =
     Some (w, case world_validate w request of
                Inl e \<Rightarrow> AdmitReturned (Err e)
              | Inr _ \<Rightarrow> AdmitValidated request)"
| "admit_step t w (AdmitValidated request) =
     (if gw_lock w = None then Some (w\<lparr>gw_lock := Some t\<rparr>, AdmitLocked request) else None)"
| "admit_step t w (AdmitLocked request) =
     Some (w, if is_enabled (gw_gate w) then AdmitRechecked request
              else AdmitUnlock (Err LocallyDisabled))"
| "admit_step t w (AdmitRechecked request) =
     Some (w, case world_validate w request of
                Inl e \<Rightarrow> AdmitUnlock (Err e)
              | Inr _ \<Rightarrow> AdmitRevalidated request)"
| "admit_step t w (AdmitRevalidated request) =
     (case increment_count (fa_in_flight (gw_gate w)) (iar_fence request) of
        (Inl e, m) \<Rightarrow> Some (set_in_flight m w, AdmitUnlock (Err e))
      | (Inr _, m) \<Rightarrow> Some (set_in_flight m w, AdmitCounted request))"
| "admit_step t w (AdmitCounted request) =
     Some (w, if is_enabled (gw_gate w) then AdmitCountedEnabled request
              else AdmitFinal request (Err LocallyDisabled))"
| "admit_step t w (AdmitCountedEnabled request) =
     Some (w, AdmitFinal request (world_validate w request))"
| "admit_step t w (AdmitFinal request (Inl e)) =
     Some (set_in_flight (decrement_count (fa_in_flight (gw_gate w)) (iar_fence request)) w,
           AdmitUnlock (Err e))"
| "admit_step t w (AdmitFinal request (Inr _)) = Some (w, AdmitUnlock (Ok (iar_fence request)))"
| "admit_step t w (AdmitUnlock returned) =
     Some (w\<lparr>gw_lock := None,
             gw_leases := (case returned of
                             Inl _ \<Rightarrow> gw_leases w
                           | Inr fence \<Rightarrow> add_mset fence (gw_leases w))\<rparr>,
           AdmitReturned returned)"
| "admit_step t w (AdmitReturned returned) = None"

text \<open>One access of \<open>enable_for\<close>.\<close>

fun enable_step :: "GateWorld \<Rightarrow> EnablePc \<Rightarrow> (GateWorld \<times> EnablePc) option" where
  "enable_step w (EnableStart i) =
     Some (w, if fa_local_state (gw_gate w) = ADMISSION_RETIRED then EnableReturned (Err Retired)
              else EnableNotRetired i)"
| "enable_step w (EnableNotRetired i) =
     Some (w, if ac_index (avs_applied (gw_cell w)) \<noteq> i
                 \<or> \<not> local_node_belongs (gw_cell w) (fa_local_node (gw_gate w))
                 \<or> avs_disposition (gw_cell w) \<noteq> Live
              then EnableReturned (Err StaleEnable)
              else EnableInspected i)"
| "enable_step w (EnableInspected i) =
     (case compare_exchange ADMISSION_DISABLED ADMISSION_ENABLED (gw_gate w) of
        (swapped, gate) \<Rightarrow>
          Some (w\<lparr>gw_gate := gate\<rparr>,
                if swapped = Err ADMISSION_RETIRED then EnableReturned (Err Retired)
                else if \<not> is_ok swapped \<and> swapped \<noteq> Err ADMISSION_ENABLED
                then EnableReturned (Err LocallyDisabled)
                else EnableSwapped i))"
| "enable_step w (EnableSwapped i) =
     Some (w, if ac_index (avs_applied (gw_cell w)) \<noteq> i then EnableMoved i else EnableConfirm)"
| "enable_step w (EnableMoved i) =
     Some (w\<lparr>gw_gate := snd (compare_exchange ADMISSION_ENABLED ADMISSION_DISABLED (gw_gate w))\<rparr>,
           EnableReturned (Err StaleEnable))"
| "enable_step w EnableConfirm =
     Some (w, EnableReturned
       (if fa_local_state (gw_gate w) = ADMISSION_ENABLED then Ok ()
        else if fa_local_state (gw_gate w) = ADMISSION_RETIRED then Err Retired
        else Err LocallyDisabled))"
| "enable_step w (EnableReturned returned) = None"

text \<open>
  One access of \<open>prepare_fence_install\<close>. Its wait takes the mutex of the counters for one
  look at them: it goes on when no older fence is counted and looks again otherwise.
\<close>

fun install_step :: "nat \<Rightarrow> GateWorld \<Rightarrow> InstallPc \<Rightarrow> (GateWorld \<times> InstallPc) option" where
  "install_step t w (InstallStart fence) =
     (if gw_lane w = None then Some (w\<lparr>gw_lane := Some t\<rparr>, InstallLane fence) else None)"
| "install_step t w (InstallLane fence) =
     (if gw_lock w = None
      then Some (w, if older_in_flight (fa_in_flight (gw_gate w)) fence then InstallLane fence
                    else InstallDrained fence)
      else None)"
| "install_step t w (InstallDrained fence) =
     (if is_enabled (gw_gate w) then Some (w, InstallEnabled fence)
      else Some (w\<lparr>gw_lane := None\<rparr>, InstallReturned (Err LocallyDisabled)))"
| "install_step t w (InstallEnabled fence) =
     (case check_fence_install (gw_cell w) (fa_local_node (gw_gate w)) fence of
        Inl e \<Rightarrow> Some (w\<lparr>gw_lane := None\<rparr>, InstallReturned (Err e))
      | Inr _ \<Rightarrow> Some (w, InstallReturned (Ok fence)))"
| "install_step t w (InstallReturned returned) = None"

text \<open>
  \<open>remove_locally_revoked\<close> from the point where it has found its own cell: it retires the
  gate, then takes the mutex of the counters to see whether requests are in flight.
\<close>

fun remove_step :: "GateWorld \<Rightarrow> RemovePc \<Rightarrow> (GateWorld \<times> RemovePc) option" where
  "remove_step w RemoveStart = Some (w\<lparr>gw_gate := retire (gw_gate w)\<rparr>, RemoveRetired)"
| "remove_step w RemoveRetired =
     (if gw_lock w = None
      then Some (w, RemoveReturned
             (if fa_in_flight (gw_gate w) \<noteq> [] then Err RequestsInFlight else Ok ()))
      else None)"
| "remove_step w (RemoveReturned returned) = None"

definition set_pc :: "nat \<Rightarrow> GatePc \<Rightarrow> GateWorld \<Rightarrow> GateWorld" where
  "set_pc t p w = w\<lparr>gw_pc := (gw_pc w)(t := p)\<rparr>"

fun call_start :: "GatePc \<Rightarrow> bool" where
  "call_start (AdmitPc (AdmitStart _)) = True"
| "call_start (EnablePc (EnableStart _)) = True"
| "call_start (InstallPc (InstallStart _)) = True"
| "call_start (RemovePc RemoveStart) = True"
| "call_start _ = False"

fun call_returned :: "GatePc \<Rightarrow> bool" where
  "call_returned (AdmitPc (AdmitReturned _)) = True"
| "call_returned (EnablePc (EnableReturned _)) = True"
| "call_returned (InstallPc (InstallReturned _)) = True"
| "call_returned (RemovePc (RemoveReturned _)) = True"
| "call_returned _ = False"

fun holds_guard :: "GatePc \<Rightarrow> bool" where
  "holds_guard (InstallPc (InstallReturned (Inr _))) = True"
| "holds_guard _ = False"

inductive gate_step :: "GateWorld \<Rightarrow> GateWorld \<Rightarrow> bool" where
  call: "gw_pc w t = IdlePc \<Longrightarrow> call_start p \<Longrightarrow> gate_step w (set_pc t p w)"
| admit: "gw_pc w t = AdmitPc p \<Longrightarrow> admit_step t w p = Some (w', p') \<Longrightarrow>
    gate_step w (set_pc t (AdmitPc p') w')"
| enable: "gw_pc w t = EnablePc p \<Longrightarrow> enable_step w p = Some (w', p') \<Longrightarrow>
    gate_step w (set_pc t (EnablePc p') w')"
| install: "gw_pc w t = InstallPc p \<Longrightarrow> install_step t w p = Some (w', p') \<Longrightarrow>
    gate_step w (set_pc t (InstallPc p') w')"
| remove: "gw_pc w t = RemovePc p \<Longrightarrow> remove_step w p = Some (w', p') \<Longrightarrow>
    gate_step w (set_pc t (RemovePc p') w')"
| finish: "call_returned (gw_pc w t) \<Longrightarrow>
    gate_step w (set_pc t IdlePc
      (if holds_guard (gw_pc w t) then w\<lparr>gw_lane := None\<rparr> else w))"
| publish: "gate_step w (w\<lparr>gw_cell := snd (cell_publish (gw_cell w) proposed)\<rparr>)"
| disable: "gate_step w (w\<lparr>gw_gate := Volume_Admission.disable (gw_gate w)\<rparr>)"
| release: "fence \<in># gw_leases w \<Longrightarrow> gw_lock w = None \<Longrightarrow>
    gate_step w (w\<lparr>gw_gate := release_permit (gw_gate w) fence,
                  gw_leases := gw_leases w - {#fence#}\<rparr>)"

definition GateWorld_initial :: "AppliedVolumeState \<Rightarrow> nat \<Rightarrow> VolumeNodeId \<Rightarrow> GateWorld" where
  "GateWorld_initial cell address local_node =
     \<lparr>gw_cell = cell, gw_gate = FenceAdmission_new address local_node, gw_lock = None,
      gw_lane = None, gw_leases = {#}, gw_pc = \<lambda>_. IdlePc\<rparr>"

section \<open>The invariant\<close>

text \<open>The fence a thread has counted but not yet handed out, and the one it has admitted.\<close>

fun counted_fence :: "GatePc \<Rightarrow> FenceEpoch option" where
  "counted_fence (AdmitPc (AdmitCounted r)) = Some (iar_fence r)"
| "counted_fence (AdmitPc (AdmitCountedEnabled r)) = Some (iar_fence r)"
| "counted_fence (AdmitPc (AdmitFinal r _)) = Some (iar_fence r)"
| "counted_fence (AdmitPc (AdmitUnlock (Inr f))) = Some f"
| "counted_fence _ = None"

fun admitted_fence :: "GatePc \<Rightarrow> FenceEpoch option" where
  "admitted_fence (AdmitPc (AdmitFinal r (Inr _))) = Some (iar_fence r)"
| "admitted_fence (AdmitPc (AdmitUnlock (Inr f))) = Some f"
| "admitted_fence _ = None"

fun holds_lock :: "GatePc \<Rightarrow> bool" where
  "holds_lock (AdmitPc (AdmitLocked _)) = True"
| "holds_lock (AdmitPc (AdmitRechecked _)) = True"
| "holds_lock (AdmitPc (AdmitRevalidated _)) = True"
| "holds_lock (AdmitPc (AdmitCounted _)) = True"
| "holds_lock (AdmitPc (AdmitCountedEnabled _)) = True"
| "holds_lock (AdmitPc (AdmitFinal _ _)) = True"
| "holds_lock (AdmitPc (AdmitUnlock _)) = True"
| "holds_lock _ = False"

text \<open>A thread past the second check of the local state that will still hand out a permit.\<close>

fun may_permit :: "GatePc \<Rightarrow> bool" where
  "may_permit (AdmitPc (AdmitRechecked _)) = True"
| "may_permit (AdmitPc (AdmitRevalidated _)) = True"
| "may_permit (AdmitPc (AdmitCounted _)) = True"
| "may_permit (AdmitPc (AdmitCountedEnabled _)) = True"
| "may_permit (AdmitPc (AdmitFinal _ r)) = is_ok r"
| "may_permit (AdmitPc (AdmitUnlock r)) = is_ok r"
| "may_permit _ = False"

definition applied_fence :: "GateWorld \<Rightarrow> FenceEpoch" where
  "applied_fence w = dcs_fence (avs_data (gw_cell w))"

definition mid_count :: "GateWorld \<Rightarrow> FenceEpoch \<Rightarrow> nat" where
  "mid_count w f =
     (case gw_lock w of
        None \<Rightarrow> 0
      | Some t \<Rightarrow> (if counted_fence (gw_pc w t) = Some f then 1 else 0))"

definition gate_inv :: "GateWorld \<Rightarrow> bool" where
  "gate_inv w \<longleftrightarrow>
     counts_wf (fa_in_flight (gw_gate w))
     \<and> (\<forall>t. holds_lock (gw_pc w t) \<longleftrightarrow> gw_lock w = Some t)
     \<and> (\<forall>f. permit_count (fa_in_flight (gw_gate w)) f = count (gw_leases w) f + mid_count w f)
     \<and> (\<forall>f \<in># gw_leases w. f \<le> applied_fence w)
     \<and> (\<forall>t f. admitted_fence (gw_pc w t) = Some f \<longrightarrow> f \<le> applied_fence w)"

definition drained :: "FenceEpoch \<Rightarrow> GateWorld \<Rightarrow> bool" where
  "drained F w \<longleftrightarrow>
     F \<le> applied_fence w
     \<and> (\<forall>f \<in># gw_leases w. F \<le> f)
     \<and> (\<forall>t f. admitted_fence (gw_pc w t) = Some f \<longrightarrow> F \<le> f)"

definition silent :: "GateWorld \<Rightarrow> bool" where
  "silent w \<longleftrightarrow>
     fa_local_state (gw_gate w) = ADMISSION_RETIRED \<and> gw_leases w = {#}
     \<and> (\<forall>t. \<not> may_permit (gw_pc w t))"

text \<open>A removal that has retired the gate finds it retired from then on.\<close>

definition removal_retired :: "GateWorld \<Rightarrow> bool" where
  "removal_retired w \<longleftrightarrow>
     (\<forall>t. gw_pc w t = RemovePc RemoveRetired \<longrightarrow> fa_local_state (gw_gate w) = ADMISSION_RETIRED)"

text \<open>The accesses of one \<open>admit\<close> call with nothing in between; a call makes at most ten.\<close>

primrec admit_alone :: "nat \<Rightarrow> nat \<Rightarrow> GateWorld \<Rightarrow> AdmitPc \<Rightarrow> GateWorld \<times> AdmitPc" where
  "admit_alone 0 t w p = (w, p)"
| "admit_alone (Suc n) t w p =
     (case admit_step t w p of None \<Rightarrow> (w, p) | Some (w', p') \<Rightarrow> admit_alone n t w' p')"

primrec enable_alone :: "nat \<Rightarrow> GateWorld \<Rightarrow> EnablePc \<Rightarrow> GateWorld \<times> EnablePc" where
  "enable_alone 0 w p = (w, p)"
| "enable_alone (Suc n) w p =
     (case enable_step w p of None \<Rightarrow> (w, p) | Some (w', p') \<Rightarrow> enable_alone n w' p')"

section \<open>Preservation\<close>

lemmas world_defs = set_pc_def set_in_flight_def applied_fence_def mid_count_def

lemma mid_count_simps [simp]:
  "mid_count (w\<lparr>gw_lane := l\<rparr>) = mid_count w" "mid_count (w\<lparr>gw_gate := g\<rparr>) = mid_count w"
  "mid_count (w\<lparr>gw_cell := c\<rparr>) = mid_count w"
  by (simp_all add: mid_count_def fun_eq_iff split: option.split)

lemma applied_fence_simps [simp]:
  "applied_fence (w\<lparr>gw_lane := l\<rparr>) = applied_fence w"
  "applied_fence (w\<lparr>gw_gate := g\<rparr>) = applied_fence w"
  "applied_fence (w\<lparr>gw_lock := k\<rparr>) = applied_fence w"
  "applied_fence (w\<lparr>gw_leases := m\<rparr>) = applied_fence w"
  "applied_fence (w\<lparr>gw_pc := q\<rparr>) = applied_fence w"
  by (simp_all add: applied_fence_def)

lemma validate_ok_fence: "world_validate w r = Ok u \<Longrightarrow> iar_fence r = applied_fence w"
  using validate_request_ok_iff [of "gw_cell w" "fa_local_node (gw_gate w)" r]
  by (simp add: world_validate_def applied_fence_def)

lemma admitted_holds_lock: "admitted_fence p = Some f \<Longrightarrow> holds_lock p \<and> counted_fence p = Some f"
  by (cases p rule: admitted_fence.cases) auto

lemma counted_holds_lock: "counted_fence p = Some f \<Longrightarrow> holds_lock p"
  by (cases p rule: counted_fence.cases) auto

lemma start_pc: "call_start p \<Longrightarrow> \<not> holds_lock p \<and> counted_fence p = None
    \<and> admitted_fence p = None \<and> \<not> may_permit p"
  by (cases p rule: call_start.cases) auto

lemma returned_pc: "call_returned p \<Longrightarrow> \<not> holds_lock p \<and> counted_fence p = None
    \<and> admitted_fence p = None \<and> \<not> may_permit p"
  by (cases p rule: call_returned.cases) auto

lemma publish_applied_fence:
  "applied_fence w \<le> applied_fence (w\<lparr>gw_cell := snd (cell_publish (gw_cell w) proposed)\<rparr>)"
  by (simp add: applied_fence_def publish_fence_mono)

text \<open>A call that holds neither the mutex nor a counted request leaves the invariant alone.\<close>

lemma gate_inv_set_pc:
  assumes "gate_inv w" and "\<not> holds_lock (gw_pc w t)" and "\<not> holds_lock p"
  shows "gate_inv (set_pc t p w)"
proof -
  have "counted_fence p = None" "admitted_fence p = None"
    using assms(3) counted_holds_lock admitted_holds_lock by (cases "counted_fence p"; cases "admitted_fence p"; blast)+
  then show ?thesis
    using assms by (auto simp: gate_inv_def world_defs split: option.splits)
qed

text \<open>The owner of the mutex moves on.\<close>

lemma gate_inv_owner:
  assumes "gate_inv w" and "holds_lock (gw_pc w t)" and "holds_lock p"
    and "counts_wf m"
    and "\<And>f. permit_count m f + (if counted_fence (gw_pc w t) = Some f then 1 else 0) =
           permit_count (fa_in_flight (gw_gate w)) f + (if counted_fence p = Some f then 1 else 0)"
    and "\<And>f. admitted_fence p = Some f \<Longrightarrow> f \<le> applied_fence w"
  shows "gate_inv (set_pc t p (set_in_flight m w))"
proof -
  have lock: "gw_lock w = Some t"
    using assms(1,2) by (simp add: gate_inv_def)
  have "permit_count m f = count (gw_leases w) f + (if counted_fence p = Some f then 1 else 0)" for f
    using assms(1) assms(5) [of f] lock by (auto simp: gate_inv_def mid_count_def split: if_splits)
  then show ?thesis
    using assms(1-4,6) lock by (auto simp: gate_inv_def world_defs)
qed

lemma set_in_flight_same [simp]: "set_in_flight (fa_in_flight (gw_gate w)) w = w"
  by (simp add: set_in_flight_def)

lemma gate_inv_owner_same:
  assumes "gate_inv w" and "holds_lock (gw_pc w t)" and "holds_lock p"
    and "counted_fence p = counted_fence (gw_pc w t)"
    and "\<And>f. admitted_fence p = Some f \<Longrightarrow> f \<le> applied_fence w"
  shows "gate_inv (set_pc t p w)"
  using gate_inv_owner [OF assms(1-3), of "fa_in_flight (gw_gate w)"] assms
  by (simp add: gate_inv_def)

lemma gate_inv_admitted:
  "gate_inv w \<Longrightarrow> admitted_fence (gw_pc w t) = Some f \<Longrightarrow> f \<le> applied_fence w"
  unfolding gate_inv_def by blast

lemma gate_inv_wf: "gate_inv w \<Longrightarrow> counts_wf (fa_in_flight (gw_gate w))"
  by (simp add: gate_inv_def)

lemma gate_inv_counted:
  assumes "gate_inv w" and "counted_fence (gw_pc w t) = Some f"
  shows "0 < permit_count (fa_in_flight (gw_gate w)) f"
proof -
  have "gw_lock w = Some t"
    using assms counted_holds_lock by (auto simp: gate_inv_def)
  with assms show ?thesis by (simp add: gate_inv_def mid_count_def)
qed

lemma gate_inv_unlock:
  assumes "gate_inv w" and "gw_pc w t = AdmitPc (AdmitUnlock r)"
  shows "gate_inv (set_pc t (AdmitPc (AdmitReturned r)) (w\<lparr>gw_lock := None,
    gw_leases := (case r of Inl _ \<Rightarrow> gw_leases w | Inr f \<Rightarrow> add_mset f (gw_leases w))\<rparr>))"
proof -
  have lock: "gw_lock w = Some t"
    using assms by (auto simp: gate_inv_def)
  have owner: "\<not> holds_lock (gw_pc w u)" if "u \<noteq> t" for u
    using assms lock that by (auto simp: gate_inv_def)
  have le: "f \<le> applied_fence w" if "r = Inr f" for f
    using gate_inv_admitted [OF assms(1), of t] assms(2) that by simp
  show ?thesis
    using assms lock owner le
    by (auto simp: gate_inv_def world_defs split: sum.splits)
qed

lemma gate_inv_admit:
  assumes inv: "gate_inv w" and pc: "gw_pc w t = AdmitPc p"
    and step: "admit_step t w p = Some (w', p')"
  shows "gate_inv (set_pc t (AdmitPc p') w')"
proof (cases p)
  case (AdmitStart r)
  then show ?thesis
    using assms by (auto intro!: gate_inv_set_pc split: if_splits)
next
  case (AdmitEnabled r)
  then show ?thesis
    using assms by (auto intro!: gate_inv_set_pc split: sum.splits)
next
  case (AdmitValidated r)
  with assms have w: "gw_lock w = None" "w' = w\<lparr>gw_lock := Some t\<rparr>" "p' = AdmitLocked r"
    by (auto split: if_splits)
  with assms AdmitValidated show ?thesis
    by (auto simp: gate_inv_def world_defs)
next
  case (AdmitLocked r)
  then show ?thesis
    using assms by (auto intro!: gate_inv_owner_same split: if_splits)
next
  case (AdmitRechecked r)
  then show ?thesis
    using assms by (auto intro!: gate_inv_owner_same split: sum.splits)
next
  case (AdmitRevalidated r)
  then obtain x m where inc: "increment_count (fa_in_flight (gw_gate w)) (iar_fence r) = (x, m)"
    by (cases "increment_count (fa_in_flight (gw_gate w)) (iar_fence r)")
  show ?thesis
  proof (cases x)
    case (Inl e)
    with assms inc AdmitRevalidated show ?thesis
      by (auto intro!: gate_inv_owner simp: increment_count_err gate_inv_wf)
  next
    case (Inr u)
    with assms inc AdmitRevalidated show ?thesis
      by (auto intro!: gate_inv_owner simp: increment_count_ok gate_inv_wf)
  qed
next
  case (AdmitCounted r)
  then show ?thesis
    using assms by (auto intro!: gate_inv_owner_same split: if_splits)
next
  case (AdmitCountedEnabled r)
  then show ?thesis
    using assms by (auto intro!: gate_inv_owner_same simp: validate_ok_fence elim: admitted_fence.elims)
next
  case (AdmitFinal r x)
  note counted = gate_inv_counted [OF inv, of t "iar_fence r"]
  show ?thesis
  proof (cases x)
    case (Inl e)
    with assms AdmitFinal counted show ?thesis
      by (auto intro!: gate_inv_owner simp: decrement_count_permits gate_inv_wf)
  next
    case (Inr u)
    then have "iar_fence r \<le> applied_fence w"
      using gate_inv_admitted [OF inv, of t] pc AdmitFinal by simp
    with assms AdmitFinal Inr show ?thesis
      by (auto intro!: gate_inv_owner_same)
  qed
next
  case (AdmitUnlock r)
  then show ?thesis
    using step gate_inv_unlock [OF inv, of t r] pc by auto
qed (use step in simp)


lemma gate_inv_gate:
  assumes "gate_inv w" and "fa_in_flight g = fa_in_flight (gw_gate w)"
  shows "gate_inv (w\<lparr>gw_gate := g\<rparr>)"
  using assms by (simp add: gate_inv_def)

lemma compare_exchange_in_flight [simp]:
  "fa_in_flight (snd (compare_exchange a b g)) = fa_in_flight g"
  by (simp add: compare_exchange_def)

lemma gate_inv_lane [simp]: "gate_inv (w\<lparr>gw_lane := l\<rparr>) = gate_inv w"
  by (simp add: gate_inv_def)

lemma gate_inv_publish:
  assumes "gate_inv w"
  shows "gate_inv (w\<lparr>gw_cell := snd (cell_publish (gw_cell w) proposed)\<rparr>)"
  using assms publish_applied_fence [of w proposed]
  by (fastforce simp: gate_inv_def mid_count_def intro: order_trans)

lemma gate_inv_release:
  assumes "gate_inv w" and "f \<in># gw_leases w" and "gw_lock w = None"
  shows "gate_inv (w\<lparr>gw_gate := release_permit (gw_gate w) f, gw_leases := gw_leases w - {#f#}\<rparr>)"
  using assms
  by (auto simp: gate_inv_def applied_fence_def mid_count_def release_permit_def
      decrement_count_permits dest: in_diffD)

lemma other_step:
  "enable_step w p = Some (w', p') \<Longrightarrow>
     gw_pc w' = gw_pc w \<and> gw_cell w' = gw_cell w \<and> gw_leases w' = gw_leases w \<and>
     (gate_inv w \<longrightarrow> gate_inv w')"
  "remove_step w q = Some (w', q') \<Longrightarrow>
     gw_pc w' = gw_pc w \<and> gw_cell w' = gw_cell w \<and> gw_leases w' = gw_leases w \<and>
     (gate_inv w \<longrightarrow> gate_inv w')"
  "install_step t w r = Some (w', r') \<Longrightarrow>
     gw_pc w' = gw_pc w \<and> gw_cell w' = gw_cell w \<and> gw_leases w' = gw_leases w \<and>
     gw_gate w' = gw_gate w \<and> (gate_inv w \<longrightarrow> gate_inv w')"
  by (cases p; auto simp: retire_def compare_exchange_def intro!: gate_inv_gate split: if_splits prod.splits)
    (cases q; auto simp: retire_def intro!: gate_inv_gate split: if_splits;
     cases r; auto split: if_splits sum.splits)+

lemma gate_inv_step: "gate_step w w' \<Longrightarrow> gate_inv w \<Longrightarrow> gate_inv w'"
proof (induction rule: gate_step.induct)
  case (call w t p)
  then show ?case by (auto intro: gate_inv_set_pc dest: start_pc)
next
  case (admit w t p w' p')
  then show ?case by (blast intro: gate_inv_admit)
next
  case (enable w t p w' p')
  then show ?case using other_step(1) by (auto intro!: gate_inv_set_pc)
next
  case (install w t p w' p')
  then show ?case using other_step(3) by (auto intro!: gate_inv_set_pc)
next
  case (remove w t p w' p')
  then show ?case using other_step(2) by (auto intro!: gate_inv_set_pc)
next
  case (finish w t)
  then show ?case by (auto intro!: gate_inv_set_pc dest: returned_pc)
next
  case (publish w proposed)
  then show ?case by (rule gate_inv_publish)
next
  case (disable w)
  then show ?case by (auto intro: gate_inv_gate simp: Volume_Admission.disable_def)
next
  case (release f w)
  then show ?case by (blast intro: gate_inv_release)
qed


section \<open>Draining, retirement and the fences that leases hold\<close>

text \<open>
  A predicate on worlds that every step keeps, given the invariant, holds along every run.
\<close>

lemma gate_inv_run: "gate_step\<^sup>*\<^sup>* w w' \<Longrightarrow> gate_inv w \<Longrightarrow> gate_inv w'"
  by (induction rule: rtranclp_induct) (auto intro: gate_inv_step)

lemma stable_run:
  assumes "\<And>w w'. gate_step w w' \<Longrightarrow> gate_inv w \<Longrightarrow> P w \<Longrightarrow> P w'"
    and "gate_step\<^sup>*\<^sup>* w w'" and "gate_inv w" and "P w"
  shows "P w'"
  using assms(2-4)
  by (induction rule: rtranclp_induct) (auto intro: assms(1) gate_inv_run)

lemma admit_step_shared:
  assumes "admit_step t w p = Some (w', p')"
  shows "gw_cell w' = gw_cell w \<and> gw_pc w' = gw_pc w
    \<and> fa_local_state (gw_gate w') = fa_local_state (gw_gate w)"
  using assms
  by (cases "(t, w, p)" rule: admit_step.cases)
    (auto simp: set_in_flight_def split: if_splits sum.splits prod.splits)

lemma admit_step_leases:
  assumes "admit_step t w p = Some (w', p')"
  shows "gw_leases w' = gw_leases w
    \<or> (\<exists>f. p = AdmitUnlock (Ok f) \<and> gw_leases w' = add_mset f (gw_leases w))"
  using assms
  by (cases "(t, w, p)" rule: admit_step.cases)
    (auto simp: set_in_flight_def split: if_splits sum.splits prod.splits)

lemma admit_step_admitted:
  assumes "admit_step t w p = Some (w', p')" and "admitted_fence (AdmitPc p') = Some f"
  shows "admitted_fence (AdmitPc p) = Some f \<or> f = applied_fence w"
proof (cases "\<exists>r. p = AdmitCountedEnabled r")
  case True
  with assms obtain r where "p' = AdmitFinal r (world_validate w r)" by auto
  with assms(2) show ?thesis
    using validate_ok_fence [of w r] by (cases "world_validate w r") auto
qed (use assms in \<open>cases "(t, w, p)" rule: admit_step.cases;
       auto split: if_splits sum.splits prod.splits\<close>)

lemma admit_step_may_permit:
  assumes "admit_step t w p = Some (w', p')" and "may_permit (AdmitPc p')"
  shows "may_permit (AdmitPc p) \<or> is_enabled (gw_gate w)"
  using assms
  by (cases "(t, w, p)" rule: admit_step.cases)
    (auto simp: is_ok_def split: if_splits sum.splits prod.splits)

lemma drained_set_pc:
  "drained F w \<Longrightarrow> (\<And>f. admitted_fence p = Some f \<Longrightarrow> F \<le> f) \<Longrightarrow> drained F (set_pc t p w)"
  by (simp add: drained_def set_pc_def)

lemma drained_cong:
  "gw_cell w' = gw_cell w \<Longrightarrow> gw_leases w' = gw_leases w \<Longrightarrow> gw_pc w' = gw_pc w \<Longrightarrow>
     drained F w' = drained F w"
  by (simp add: drained_def applied_fence_def)

lemma drained_admit:
  assumes "drained F w" and "gw_pc w t = AdmitPc p" and "admit_step t w p = Some (w', p')"
  shows "drained F (set_pc t (AdmitPc p') w')"
proof (rule drained_set_pc)
  have admitted: "F \<le> f" if "admitted_fence (AdmitPc p) = Some f" for f
    using assms(1,2) that unfolding drained_def by metis
  then show "drained F w'"
    using assms(1) admit_step_shared [OF assms(3)] admit_step_leases [OF assms(3)]
    by (auto simp: drained_def applied_fence_def)
  show "F \<le> f" if "admitted_fence (AdmitPc p') = Some f" for f
    using admit_step_admitted [OF assms(3) that] admitted assms(1) by (auto simp: drained_def)
qed

lemma unadmitted_pc [simp]:
  "admitted_fence (EnablePc e) = None" "admitted_fence (InstallPc i) = None"
  "admitted_fence (RemovePc r) = None"
  by simp_all

lemma drained_step: "gate_step w w' \<Longrightarrow> drained F w \<Longrightarrow> drained F w'"
proof (induction rule: gate_step.induct)
  case (call w t p)
  then show ?case by (auto intro!: drained_set_pc dest: start_pc)
next
  case (admit w t p w' p')
  then show ?case by (blast intro: drained_admit)
next
  case (enable w t p w' p')
  then show ?case
    using other_step(1) drained_cong [of w' w F] by (auto intro!: drained_set_pc)
next
  case (install w t p w' p')
  then show ?case
    using other_step(3) drained_cong [of w' w F] by (auto intro!: drained_set_pc)
next
  case (remove w t p w' p')
  then show ?case
    using other_step(2) drained_cong [of w' w F] by (auto intro!: drained_set_pc)
next
  case (finish w t)
  then show ?case
    using drained_cong [of "w\<lparr>gw_lane := None\<rparr>" w F] by (auto intro!: drained_set_pc)
next
  case (publish w proposed)
  then show ?case
    using publish_applied_fence [of w proposed] by (auto simp: drained_def)
next
  case (disable w)
  then show ?case by (simp add: drained_def)
next
  case (release f w)
  then show ?case by (auto simp: drained_def dest: in_diffD)
qed




lemma retired_step:
  assumes "gate_step w w'" and "fa_local_state (gw_gate w) = ADMISSION_RETIRED"
  shows "fa_local_state (gw_gate w') = ADMISSION_RETIRED"
  using assms
proof (induction rule: gate_step.induct)
  case (admit w t p w' p')
  then show ?case using admit_step_shared by (simp add: set_pc_def)
next
  case (enable w t p w' p')
  then show ?case
    by (cases p) (auto simp: set_pc_def compare_exchange_def ADMISSION_DISABLED_def
        ADMISSION_ENABLED_def ADMISSION_RETIRED_def split: if_splits)
next
  case (install w t p w' p')
  then show ?case using other_step(3) by (simp add: set_pc_def)
next
  case (remove w t p w' p')
  then show ?case by (cases p) (auto simp: set_pc_def retire_def split: if_splits)
qed (auto simp: set_pc_def Volume_Admission.disable_def compare_exchange_def release_permit_def
    ADMISSION_DISABLED_def ADMISSION_ENABLED_def ADMISSION_RETIRED_def)

lemma retired_not_enabled:
  "fa_local_state g = ADMISSION_RETIRED \<Longrightarrow> \<not> is_enabled g"
  by (simp add: is_enabled_def ADMISSION_ENABLED_def ADMISSION_RETIRED_def)

lemma silent_set_pc: "silent w \<Longrightarrow> \<not> may_permit p \<Longrightarrow> silent (set_pc t p w)"
  by (simp add: silent_def set_pc_def)

lemma silent_cong:
  assumes "gw_leases w' = gw_leases w" and "gw_pc w' = gw_pc w"
    and "fa_local_state (gw_gate w') = fa_local_state (gw_gate w)"
  shows "silent w' = silent w"
  using assms by (simp add: silent_def)

lemma silent_admit:
  assumes "silent w" and "gw_pc w t = AdmitPc p" and "admit_step t w p = Some (w', p')"
  shows "silent (set_pc t (AdmitPc p') w')"
proof (rule silent_set_pc)
  have quiet: "\<not> may_permit (AdmitPc p)"
    using assms(1,2) unfolding silent_def by metis
  then have "gw_leases w' = gw_leases w"
    using admit_step_leases [OF assms(3)] by (auto simp: is_ok_def)
  then show "silent w'"
    using silent_cong admit_step_shared [OF assms(3)] assms(1) by blast
  show "\<not> may_permit (AdmitPc p')"
    using admit_step_may_permit [OF assms(3)] quiet assms(1) retired_not_enabled
    by (auto simp: silent_def)
qed

lemma silent_step: "gate_step w w' \<Longrightarrow> silent w \<Longrightarrow> silent w'"
proof -
  assume step: "gate_step w w'" and sil: "silent w"
  then have retired: "fa_local_state (gw_gate w') = ADMISSION_RETIRED"
    using retired_step by (auto simp: silent_def)
  from step sil retired show "silent w'"
  proof (induction rule: gate_step.induct)
    case (call w t p)
    then show ?case by (auto intro!: silent_set_pc dest: start_pc)
  next
    case (admit w t p w' p')
    then show ?case by (blast intro: silent_admit)
  next
    case (enable w t p w' p')
    then show ?case using other_step(1) [of w p w' p'] by (auto simp: silent_def set_pc_def)
  next
    case (install w t p w' p')
    then show ?case using other_step(3) [of t w p w' p'] by (auto simp: silent_def set_pc_def)
  next
    case (remove w t p w' p')
    then show ?case using other_step(2) [of w p w' p'] by (auto simp: silent_def set_pc_def)
  qed (auto simp: silent_def set_pc_def)
qed

lemma remove_retired_pc:
  assumes "gate_step w w'" and "gw_pc w' u = RemovePc RemoveRetired"
  shows "gw_pc w u = RemovePc RemoveRetired \<or> fa_local_state (gw_gate w') = ADMISSION_RETIRED"
  using assms
proof (induction rule: gate_step.induct)
  case (call w t p)
  then show ?case by (cases "u = t") (auto simp: set_pc_def)
next
  case (admit w t p w' p')
  then show ?case
    using admit_step_shared [of t w p w' p'] by (auto simp: set_pc_def split: if_splits)
next
  case (enable w t p w' p')
  then show ?case using other_step(1) [of w p w' p'] by (auto simp: set_pc_def split: if_splits)
next
  case (install w t p w' p')
  then show ?case using other_step(3) [of t w p w' p'] by (auto simp: set_pc_def split: if_splits)
next
  case (remove w t p w' p')
  then show ?case by (cases p) (auto simp: set_pc_def retire_def split: if_splits)
qed (auto simp: set_pc_def split: if_splits)

lemma removal_retired_step:
  "gate_step w w' \<Longrightarrow> removal_retired w \<Longrightarrow> removal_retired w'"
  unfolding removal_retired_def using remove_retired_pc retired_step by metis

lemma initial_world [simp]:
  "gate_inv (GateWorld_initial c a n)" "removal_retired (GateWorld_initial c a n)"
  by (auto simp: gate_inv_def removal_retired_def GateWorld_initial_def FenceAdmission_new_def
      counts_wf_def mid_count_def)

lemma removal_retired_run:
  "gate_step\<^sup>*\<^sup>* w w' \<Longrightarrow> removal_retired w \<Longrightarrow> removal_retired w'"
  by (induction rule: rtranclp_induct) (auto intro: removal_retired_step)

lemma unlocked_no_permit:
  assumes "gate_inv w" and "gw_lock w = None"
  shows "\<not> may_permit (gw_pc w t)" and "admitted_fence (gw_pc w t) = None"
proof -
  have "\<not> holds_lock (gw_pc w t)"
    using assms by (simp add: gate_inv_def)
  then show "\<not> may_permit (gw_pc w t)"
    by (cases "gw_pc w t" rule: may_permit.cases) auto
  show "admitted_fence (gw_pc w t) = None"
    using \<open>\<not> holds_lock (gw_pc w t)\<close> admitted_holds_lock by (cases "admitted_fence (gw_pc w t)") auto
qed

lemma unlocked_counts:
  assumes "gate_inv w" and "gw_lock w = None"
  shows "permit_count (fa_in_flight (gw_gate w)) f = count (gw_leases w) f"
  using assms by (simp add: gate_inv_def mid_count_def)

lemma unlocked_drained:
  assumes "gate_inv w" and "gw_lock w = None" and "F \<le> applied_fence w"
    and "\<not> older_in_flight (fa_in_flight (gw_gate w)) F"
  shows "drained F w"
proof -
  have "F \<le> f" if "f \<in># gw_leases w" for f
  proof (rule ccontr)
    assume "\<not> F \<le> f"
    then show False
      using assms(4) that unlocked_counts [OF assms(1,2), of f]
      by (auto simp: older_in_flight_iff [OF gate_inv_wf [OF assms(1)]] not_le
          simp flip: count_greater_zero_iff)
  qed
  then show ?thesis
    using assms(3) unlocked_no_permit(2) [OF assms(1,2)] by (simp add: drained_def)
qed

section \<open>A call that runs alone\<close>

lemma admit_alone_admit:
  assumes "gw_lock w = None" and "admit (gw_cell w) (gw_gate w) request = (r, g)"
  shows "\<exists>w'. admit_alone 10 t w (AdmitStart request) = (w', AdmitReturned r)
    \<and> gw_gate w' = g \<and> gw_cell w' = gw_cell w \<and> gw_lock w' = None
    \<and> gw_leases w' = (case r of Inl _ \<Rightarrow> gw_leases w | Inr f \<Rightarrow> add_mset f (gw_leases w))"
proof -
  obtain x m where inc: "increment_count (fa_in_flight (gw_gate w)) (iar_fence request) = (x, m)"
    by (cases "increment_count (fa_in_flight (gw_gate w)) (iar_fence request)")
  show ?thesis
    using assms inc
    by (cases "is_enabled (gw_gate w)";
        cases "validate_request (gw_cell w) (fa_local_node (gw_gate w)) request"; cases x)
      (auto simp: eval_nat_numeral admit_def is_enabled_def world_validate_def set_in_flight_def)
qed


lemma enable_alone_enable_for:
  assumes "enable_for (gw_cell w) (gw_gate w) i = (r, g)"
  shows "enable_alone 5 w (EnableStart i) = (w\<lparr>gw_gate := g\<rparr>, EnableReturned r)"
  using assms
  by (cases "fa_local_state (gw_gate w) = ADMISSION_RETIRED";
      cases "fa_local_state (gw_gate w) = ADMISSION_ENABLED";
      cases "fa_local_state (gw_gate w) = ADMISSION_DISABLED";
      cases "ac_index (avs_applied (gw_cell w)) = i")
    (auto simp: eval_nat_numeral enable_for_def compare_exchange_def Let_def is_ok_def
      ADMISSION_DISABLED_def ADMISSION_ENABLED_def ADMISSION_RETIRED_def split: if_splits)

lemma set_pc_twice [simp]: "set_pc t q (set_pc t p w) = set_pc t q w"
  by (simp add: set_pc_def)

lemma gw_pc_set_pc [simp]: "gw_pc (set_pc t p w) = (gw_pc w)(t := p)"
  by (simp add: set_pc_def)

lemma set_pc_same: "gw_pc w t = p \<Longrightarrow> set_pc t p w = w"
  by (auto simp: set_pc_def)

lemma admit_step_set_pc:
  "admit_step t (set_pc u q w) p = map_option (apfst (set_pc u q)) (admit_step t w p)"
  by (cases "(t, w, p)" rule: admit_step.cases)
    (auto simp: set_pc_def set_in_flight_def world_validate_def split: sum.splits prod.splits)

lemma enable_step_set_pc:
  "enable_step (set_pc u q w) p = map_option (apfst (set_pc u q)) (enable_step w p)"
  by (cases p) (auto simp: set_pc_def split: prod.splits)

lemma admit_alone_run:
  "admit_alone n t w p = (w', p') \<Longrightarrow>
     gate_step\<^sup>*\<^sup>* (set_pc t (AdmitPc p) w) (set_pc t (AdmitPc p') w')"
proof (induction n arbitrary: w p)
  case (Suc n)
  show ?case
  proof (cases "admit_step t w p")
    case (Some x)
    obtain w1 p1 where x: "x = (w1, p1)" by (cases x)
    have "gate_step (set_pc t (AdmitPc p) w) (set_pc t (AdmitPc p1) (set_pc t (AdmitPc p) w1))"
      by (rule gate_step.admit [where p = p]) (simp_all add: admit_step_set_pc Some x)
    then show ?thesis
      using Suc Some x by (auto intro: converse_rtranclp_into_rtranclp)
  qed (use Suc in simp)
qed simp

lemma enable_alone_run:
  "enable_alone n w p = (w', p') \<Longrightarrow>
     gate_step\<^sup>*\<^sup>* (set_pc t (EnablePc p) w) (set_pc t (EnablePc p') w')"
proof (induction n arbitrary: w p)
  case (Suc n)
  show ?case
  proof (cases "enable_step w p")
    case (Some x)
    obtain w1 p1 where x: "x = (w1, p1)" by (cases x)
    have "gate_step (set_pc t (EnablePc p) w) (set_pc t (EnablePc p1) (set_pc t (EnablePc p) w1))"
      by (rule gate_step.enable [where p = p]) (simp_all add: enable_step_set_pc Some x)
    then show ?thesis
      using Suc Some x by (auto intro: converse_rtranclp_into_rtranclp)
  qed (use Suc in simp)
qed simp

text \<open>A whole call of an idle thread, from its call to its return.\<close>

lemma admit_call_run:
  assumes "gw_pc w t = IdlePc" and "gw_lock w = None"
    and "admit (gw_cell w) (gw_gate w) request = (r, g)"
  shows "\<exists>w'. gate_step\<^sup>*\<^sup>* w w' \<and> gw_pc w' t = IdlePc \<and> gw_gate w' = g
    \<and> gw_cell w' = gw_cell w \<and> gw_lock w' = None
    \<and> gw_leases w' = (case r of Inl _ \<Rightarrow> gw_leases w | Inr f \<Rightarrow> add_mset f (gw_leases w))"
proof -
  obtain w1 where w1: "admit_alone 10 t w (AdmitStart request) = (w1, AdmitReturned r)"
      and eff: "gw_gate w1 = g" "gw_cell w1 = gw_cell w" "gw_lock w1 = None"
      "gw_leases w1 = (case r of Inl _ \<Rightarrow> gw_leases w | Inr f \<Rightarrow> add_mset f (gw_leases w))"
    using admit_alone_admit [OF assms(2,3)] by metis
  let ?w2 = "set_pc t (AdmitPc (AdmitReturned r)) w1"
  have "gate_step w (set_pc t (AdmitPc (AdmitStart request)) w)"
    using assms(1) by (rule gate_step.call) simp
  moreover have "gate_step ?w2 (set_pc t IdlePc ?w2)"
    using gate_step.finish [of ?w2 t] by simp
  ultimately have "gate_step\<^sup>*\<^sup>* w (set_pc t IdlePc ?w2)"
    using admit_alone_run [OF w1]
    by (meson converse_rtranclp_into_rtranclp rtranclp.rtrancl_into_rtrancl)
  then show ?thesis
    using eff by (intro exI [of _ "set_pc t IdlePc ?w2"]) (auto simp: set_pc_def)
qed

lemma enable_call_run:
  assumes "gw_pc w t = IdlePc" and "enable_for (gw_cell w) (gw_gate w) i = (r, g)"
  shows "gate_step\<^sup>*\<^sup>* w (set_pc t IdlePc (w\<lparr>gw_gate := g\<rparr>))"
proof -
  let ?w2 = "set_pc t (EnablePc (EnableReturned r)) (w\<lparr>gw_gate := g\<rparr>)"
  have "gate_step w (set_pc t (EnablePc (EnableStart i)) w)"
    using assms(1) by (rule gate_step.call) simp
  moreover have "gate_step ?w2 (set_pc t IdlePc ?w2)"
    using gate_step.finish [of ?w2 t] by simp
  ultimately show ?thesis
    using enable_alone_run [OF enable_alone_enable_for [OF assms(2)], of t] set_pc_twice
    by (metis converse_rtranclp_into_rtranclp rtranclp.rtrancl_into_rtrancl)
qed


lemma demo_enable: "enable_for demo_cell (FenceAdmission_new 0 (VolumeNodeId 2)) 2 = (Ok (), demo_gate)"
  by (simp add: enable_for_def demo_cell_def demo_gate_def FenceAdmission_new_def Let_def
      compare_exchange_def local_node_belongs_def is_ok_def ADMISSION_DISABLED_def
      ADMISSION_ENABLED_def ADMISSION_RETIRED_def)

text \<open>A run in which the gate is enabled and then admits the example request.\<close>

lemma demo_lease:
  "\<exists>w. gate_step\<^sup>*\<^sup>* (GateWorld_initial demo_cell 0 (VolumeNodeId 2)) w
     \<and> gw_leases w = {#FenceEpoch 2#} \<and> gw_lock w = None \<and> gw_cell w = demo_cell
     \<and> fa_in_flight (gw_gate w) = [(FenceEpoch 2, 1)]"
proof -
  let ?w0 = "GateWorld_initial demo_cell 0 (VolumeNodeId 2)"
  let ?w1 = "set_pc 0 IdlePc (?w0\<lparr>gw_gate := demo_gate\<rparr>)"
  have "gate_step\<^sup>*\<^sup>* ?w0 ?w1"
    by (rule enable_call_run [where i = 2 and r = "Ok ()"])
      (simp_all add: GateWorld_initial_def demo_enable)
  moreover have "admit demo_cell demo_gate demo_request =
      (Ok (FenceEpoch 2), demo_gate\<lparr>fa_in_flight := [(FenceEpoch 2, 1)]\<rparr>)"
    using demo_admits
    by (simp add: admit_def is_enabled_def increment_count_def checked_add_def Let_def)
  then have "\<exists>w. gate_step\<^sup>*\<^sup>* ?w1 w \<and> gw_pc w 0 = IdlePc
      \<and> gw_gate w = demo_gate\<lparr>fa_in_flight := [(FenceEpoch 2, 1)]\<rparr> \<and> gw_cell w = gw_cell ?w1
      \<and> gw_lock w = None
      \<and> gw_leases w = (case Ok (FenceEpoch 2) of Inl (_ :: IoAdmissionError) \<Rightarrow> gw_leases ?w1
                        | Inr f \<Rightarrow> add_mset f (gw_leases ?w1))"
    by (intro admit_call_run [where request = demo_request])
      (simp_all add: GateWorld_initial_def set_pc_def)
  then obtain w where "gate_step\<^sup>*\<^sup>* ?w1 w" "gw_cell w = demo_cell" "gw_lock w = None"
      "gw_leases w = {#FenceEpoch 2#}" "fa_in_flight (gw_gate w) = [(FenceEpoch 2, 1)]"
    by (auto simp: GateWorld_initial_def set_pc_def)
  ultimately show ?thesis
    by (metis rtranclp_trans)
qed

section \<open>Properties\<close>

text \<open>
  C10. When \<open>prepare_fence_install\<close> for a fence sees no older request in flight, no permit of
  an older fence exists then or at any later time, whatever runs concurrently, provided the
  applied state had reached the fence; a caller that holds a permit for it, as the replica
  connection does, knows that it had.
\<close>

theorem fence_install_excludes_older:
  assumes "gate_step\<^sup>*\<^sup>* (GateWorld_initial c a n) w"
    and "F \<in># gw_leases w \<or> F \<le> applied_fence w"
    and "install_step t w (InstallLane F) = Some (w1, InstallDrained F)"
    and "gate_step\<^sup>*\<^sup>* w w'"
  shows "\<forall>f \<in># gw_leases w'. F \<le> f"
proof -
  have inv: "gate_inv w"
    using assms(1) by (rule gate_inv_run) simp
  then have fence: "F \<le> applied_fence w"
    using assms(2) unfolding gate_inv_def by blast
  have "gw_lock w = None" "\<not> older_in_flight (fa_in_flight (gw_gate w)) F"
    using assms(3) by (simp_all split: if_splits)
  from unlocked_drained [OF inv this(1) fence this(2)] have "drained F w" .
  then have "drained F w'"
    using drained_step by (rule stable_run [OF _ assms(4) inv, rotated])
  then show ?thesis by (simp add: drained_def)
qed

theorem fence_install_excludes_older_witness:
  "\<exists>w. gate_step\<^sup>*\<^sup>* (GateWorld_initial demo_cell 0 (VolumeNodeId 2)) w
     \<and> FenceEpoch 2 \<in># gw_leases w \<and> (\<forall>f \<in># gw_leases w. FenceEpoch 2 \<le> f)"
proof -
  obtain w where w: "gate_step\<^sup>*\<^sup>* (GateWorld_initial demo_cell 0 (VolumeNodeId 2)) w"
      "gw_leases w = {#FenceEpoch 2#}" "gw_lock w = None"
      "fa_in_flight (gw_gate w) = [(FenceEpoch 2, 1)]"
    using demo_lease by blast
  have "install_step 5 w (InstallLane (FenceEpoch 2)) = Some (w, InstallDrained (FenceEpoch 2))"
    using w by (simp add: older_in_flight_def)
  from fence_install_excludes_older [OF w(1) _ this rtranclp.rtrancl_refl] w show ?thesis
    by auto
qed

text \<open>
  C11. When \<open>remove_locally_revoked\<close> reports success, no permit of the gate is left and none
  is ever handed out again: the gate stays retired whatever threads were in the middle of
  \<open>admit\<close> or \<open>enable_for\<close>.
\<close>

theorem removed_gate_is_silent:
  assumes "gate_step\<^sup>*\<^sup>* (GateWorld_initial c a n) w"
    and "gw_pc w t = RemovePc RemoveRetired"
    and "remove_step w RemoveRetired = Some (w1, RemoveReturned (Ok ()))"
    and "gate_step\<^sup>*\<^sup>* w w'"
  shows "gw_leases w' = {#} \<and> fa_local_state (gw_gate w') = ADMISSION_RETIRED"
proof -
  have inv: "gate_inv w"
    using assms(1) by (rule gate_inv_run) simp
  have "removal_retired w"
    using assms(1) by (rule removal_retired_run) simp
  then have "fa_local_state (gw_gate w) = ADMISSION_RETIRED"
    using assms(2) unfolding removal_retired_def by blast
  moreover have lock: "gw_lock w = None" and "fa_in_flight (gw_gate w) = []"
    using assms(3) by (auto split: if_splits)
  then have "count (gw_leases w) f = 0" for f
    using unlocked_counts [OF inv lock, of f] by simp
  then have "gw_leases w = {#}"
    by (simp add: multiset_eq_iff)
  ultimately have "silent w"
    using unlocked_no_permit [OF inv lock] by (simp add: silent_def)
  then have "silent w'"
    using silent_step by (rule stable_run [OF _ assms(4) inv, rotated])
  then show ?thesis by (simp add: silent_def)
qed

theorem removed_gate_is_silent_witness:
  "\<exists>w. gate_step\<^sup>*\<^sup>* (GateWorld_initial demo_cell 0 (VolumeNodeId 2)) w
     \<and> gw_pc w 3 = RemovePc RemoveRetired \<and> gw_leases w = {#}"
proof -
  let ?w0 = "GateWorld_initial demo_cell 0 (VolumeNodeId 2)"
  let ?w1 = "set_pc 3 (RemovePc RemoveStart) ?w0"
  let ?w2 = "set_pc 3 (RemovePc RemoveRetired) (?w1\<lparr>gw_gate := retire (gw_gate ?w1)\<rparr>)"
  have "gate_step ?w0 ?w1"
    by (rule gate_step.call) (simp_all add: GateWorld_initial_def)
  moreover have "gate_step ?w1 ?w2"
    by (rule gate_step.remove [where p = RemoveStart]) simp_all
  ultimately have run: "gate_step\<^sup>*\<^sup>* ?w0 ?w2" by simp
  have "remove_step ?w2 RemoveRetired = Some (?w2, RemoveReturned (Ok ()))"
    by (simp add: GateWorld_initial_def FenceAdmission_new_def set_pc_def retire_def)
  from removed_gate_is_silent [OF run _ this rtranclp.rtrancl_refl, of 3]
  have "gw_leases ?w2 = {#}" by simp
  with run show ?thesis
    by (intro exI [of _ ?w2]) simp
qed

text \<open>
  C12. Between two critical sections the counters of the gate are exact: the count under each
  fence is the number of permits that are held for it, and no permit has a fence above the
  applied one.
\<close>

theorem in_flight_counts_permits:
  assumes "gate_step\<^sup>*\<^sup>* (GateWorld_initial c a n) w" and "gw_lock w = None"
  shows "permit_count (fa_in_flight (gw_gate w)) f = count (gw_leases w) f
    \<and> (f \<in># gw_leases w \<longrightarrow> f \<le> applied_fence w)"
proof -
  have "gate_inv w"
    using assms(1) by (rule gate_inv_run) simp
  then show ?thesis
    using unlocked_counts [OF _ assms(2)] by (auto simp: gate_inv_def)
qed

theorem in_flight_counts_permits_witness:
  "\<exists>w. gate_step\<^sup>*\<^sup>* (GateWorld_initial demo_cell 0 (VolumeNodeId 2)) w
     \<and> permit_count (fa_in_flight (gw_gate w)) (FenceEpoch 2) = 1"
proof -
  obtain w where w: "gate_step\<^sup>*\<^sup>* (GateWorld_initial demo_cell 0 (VolumeNodeId 2)) w"
      "gw_leases w = {#FenceEpoch 2#}" "gw_lock w = None"
    using demo_lease by blast
  with in_flight_counts_permits [OF w(1,3), of "FenceEpoch 2"] show ?thesis by auto
qed

text \<open>
  Without interference the atomic accesses of \<open>admit\<close> and of \<open>enable_for\<close> compose to the
  straight-line methods: same result, same gate, and a permit exactly when \<open>admit\<close> succeeds.
\<close>

theorem atomic_accesses_compose:
  assumes "gw_lock w = None"
  shows "(\<exists>w'. admit_alone 10 t w (AdmitStart request) =
            (w', AdmitReturned (fst (admit (gw_cell w) (gw_gate w) request)))
          \<and> gw_gate w' = snd (admit (gw_cell w) (gw_gate w) request)
          \<and> gw_leases w' = (case fst (admit (gw_cell w) (gw_gate w) request) of
               Inl _ \<Rightarrow> gw_leases w | Inr f \<Rightarrow> add_mset f (gw_leases w)))
    \<and> enable_alone 5 w (EnableStart i) =
        (w\<lparr>gw_gate := snd (enable_for (gw_cell w) (gw_gate w) i)\<rparr>,
         EnableReturned (fst (enable_for (gw_cell w) (gw_gate w) i)))"
  using admit_alone_admit [OF assms, of request _ _ t, OF prod.collapse [symmetric]]
    enable_alone_enable_for [of w i, OF prod.collapse [symmetric]]
  by blast

theorem atomic_accesses_compose_witness:
  "\<exists>w'. admit_alone 10 0 (GateWorld_initial demo_cell 0 (VolumeNodeId 2)) (AdmitStart demo_request)
     = (w', AdmitReturned (Err LocallyDisabled))"
  using atomic_accesses_compose [of "GateWorld_initial demo_cell 0 (VolumeNodeId 2)" 0 demo_request 0]
  by (auto simp: GateWorld_initial_def admit_def FenceAdmission_new_def ADMISSION_DISABLED_def
      ADMISSION_ENABLED_def)

end
