(* ===== verification/Btree.thy ===== *)
theory Btree
  imports Prelude
begin

text \<open>
  \<open>std::collections::BTreeMap\<close> as its sorted list of entries, which is what its iterators,
  its equality and its order see. The locale \<open>ordered_map\<close> is the contract the components
  rely on: lookup after an update, and that maps with the same lookups are equal.
\<close>

fun bt_insert :: "'k::linorder \<Rightarrow> 'v \<Rightarrow> ('k \<times> 'v) list \<Rightarrow> ('k \<times> 'v) list" where
  "bt_insert k v [] = [(k, v)]"
| "bt_insert k v ((l, w) # m) =
     (if k < l then (k, v) # (l, w) # m
      else if k = l then (k, v) # m
      else (l, w) # bt_insert k v m)"

definition bt_remove :: "'k \<Rightarrow> ('k \<times> 'v) list \<Rightarrow> ('k \<times> 'v) list" where
  "bt_remove k m = filter (\<lambda>(l, w). l \<noteq> k) m"

definition bt_wf :: "('k::linorder \<times> 'v) list \<Rightarrow> bool" where
  "bt_wf m \<longleftrightarrow> sorted_wrt (<) (map fst m)"

locale ordered_map =
  fixes empty :: 'm
    and insert :: "'k \<Rightarrow> 'v \<Rightarrow> 'm \<Rightarrow> 'm"
    and remove :: "'k \<Rightarrow> 'm \<Rightarrow> 'm"
    and lookup :: "'m \<Rightarrow> 'k \<Rightarrow> 'v option"
    and wf :: "'m \<Rightarrow> bool"
  assumes empty_wf: "wf empty"
    and insert_wf: "wf m \<Longrightarrow> wf (insert k v m)"
    and remove_wf: "wf m \<Longrightarrow> wf (remove k m)"
    and lookup_empty: "lookup empty k = None"
    and lookup_insert: "wf m \<Longrightarrow> lookup (insert k v m) = (lookup m)(k \<mapsto> v)"
    and lookup_remove: "wf m \<Longrightarrow> lookup (remove k m) = (lookup m)(k := None)"
    and canonical: "wf m \<Longrightarrow> wf n \<Longrightarrow> lookup m = lookup n \<Longrightarrow> m = n"
begin

lemma insert_twice: "wf m \<Longrightarrow> insert k v (insert k w m) = insert k v m"
  by (intro canonical) (auto simp: insert_wf lookup_insert)

lemma insert_commute:
  "wf m \<Longrightarrow> k \<noteq> l \<Longrightarrow> insert k v (insert l w m) = insert l w (insert k v m)"
  by (intro canonical) (auto simp: insert_wf lookup_insert)

lemma insert_same: "wf m \<Longrightarrow> lookup m k = Some v \<Longrightarrow> insert k v m = m"
  by (intro canonical) (auto simp: insert_wf lookup_insert)

lemma remove_insert: "wf m \<Longrightarrow> lookup m k = None \<Longrightarrow> remove k (insert k v m) = m"
  by (intro canonical) (auto simp: insert_wf remove_wf lookup_insert lookup_remove)

end

lemma bt_wf_Cons:
  "bt_wf ((k, v) # m) \<longleftrightarrow> (\<forall>l \<in> fst ` set m. k < l) \<and> bt_wf m"
  by (auto simp: bt_wf_def)

lemma bt_wf_Nil [simp]: "bt_wf []"
  by (simp add: bt_wf_def)

lemma keys_bt_insert: "fst ` set (bt_insert k v m) = insert k (fst ` set m)"
  by (induction k v m rule: bt_insert.induct) auto

lemma bt_insert_wf: "bt_wf m \<Longrightarrow> bt_wf (bt_insert k v m)"
  by (induction k v m rule: bt_insert.induct) (force simp: bt_wf_Cons keys_bt_insert)+

lemma bt_remove_wf: "bt_wf m \<Longrightarrow> bt_wf (bt_remove k m)"
  by (induction m) (auto simp: bt_remove_def bt_wf_Cons)

lemma bt_fresh: "bt_wf ((k, v) # m) \<Longrightarrow> l \<le> k \<Longrightarrow> map_of m l = None"
  by (force simp: bt_wf_Cons map_of_eq_None_iff)

lemma bt_lookup_insert: "bt_wf m \<Longrightarrow> map_of (bt_insert k v m) = (map_of m)(k \<mapsto> v)"
  by (induction k v m rule: bt_insert.induct) (auto simp: bt_wf_Cons)

lemma bt_lookup_remove: "map_of (bt_remove k m) = (map_of m)(k := None)"
  by (induction m) (auto simp: bt_remove_def)

lemma bt_canonical: "bt_wf m \<Longrightarrow> bt_wf n \<Longrightarrow> map_of m = map_of n \<Longrightarrow> m = n"
proof (induction m arbitrary: n)
  case Nil
  then show ?case by (metis map_of_eq_empty_iff)
next
  case (Cons e m)
  obtain k v where e: "e = (k, v)" by (cases e)
  obtain l w n' where n: "n = (l, w) # n'"
    using Cons.prems(3) by (cases n) (auto simp: fun_eq_iff split: if_splits)
  have "k = l"
  proof (rule ccontr)
    assume "k \<noteq> l"
    then consider "k < l" | "l < k" by fastforce
    then show False
    proof cases
      case 1
      then have "map_of n k = None"
        using Cons.prems(2) bt_fresh [of l w n' k] by (simp add: n)
      then show False using fun_cong [OF Cons.prems(3), of k] by (simp add: e)
    next
      case 2
      then have "map_of (e # m) l = None"
        using Cons.prems(1) bt_fresh [of k v m l] by (simp add: e)
      then show False using fun_cong [OF Cons.prems(3), of l] by (simp add: n)
    qed
  qed
  moreover have "v = w"
    using fun_cong [OF Cons.prems(3), of k] \<open>k = l\<close> by (simp add: e n)
  moreover have "map_of m = map_of n'"
  proof
    fix x
    show "map_of m x = map_of n' x"
      using fun_cong [OF Cons.prems(3), of x] Cons.prems(1,2) bt_fresh [of k v m k]
        bt_fresh [of l w n' k] \<open>k = l\<close>
      by (cases "x = k") (simp_all add: e n)
  qed
  ultimately show ?case
    using Cons by (simp add: e n bt_wf_Cons)
qed

interpretation bt: ordered_map "[]" bt_insert bt_remove map_of bt_wf
  by unfold_locales
    (simp_all add: bt_insert_wf bt_remove_wf bt_lookup_insert bt_lookup_remove bt_canonical)

end
