(* ===== verification/Rust_Ord.thy ===== *)
theory Rust_Ord
  imports Prelude "HOL-Library.Multiset"
begin

text \<open>
  \<open>std::cmp::Ordering\<close>, comparators built from it, and the slice operations that take them.
  A stable sort has one result for a comparator that is a total preorder, so \<open>sort_by\<close> is
  the insertion sort that keeps equal elements in their order. The locale \<open>comparator\<close> is
  what a caller must provide.
\<close>

datatype Ordering = Less | Equal | Greater

primrec reverse_ordering :: "Ordering \<Rightarrow> Ordering" where
  "reverse_ordering Less = Greater"
| "reverse_ordering Equal = Equal"
| "reverse_ordering Greater = Less"

definition then_with :: "Ordering \<Rightarrow> Ordering \<Rightarrow> Ordering" where
  "then_with first second = (if first = Equal then second else first)"

definition cmp :: "'a::linorder \<Rightarrow> 'a \<Rightarrow> Ordering" where
  "cmp x y = (if x < y then Less else if x = y then Equal else Greater)"

fun list_cmp :: "('a \<Rightarrow> 'a \<Rightarrow> Ordering) \<Rightarrow> 'a list \<Rightarrow> 'a list \<Rightarrow> Ordering" where
  "list_cmp c [] [] = Equal"
| "list_cmp c [] (y # ys) = Less"
| "list_cmp c (x # xs) [] = Greater"
| "list_cmp c (x # xs) (y # ys) = then_with (c x y) (list_cmp c xs ys)"

fun insort_by :: "('a \<Rightarrow> 'a \<Rightarrow> Ordering) \<Rightarrow> 'a \<Rightarrow> 'a list \<Rightarrow> 'a list" where
  "insort_by c x [] = [x]"
| "insort_by c x (y # ys) = (if c x y = Greater then y # insort_by c x ys else x # y # ys)"

definition sort_by :: "('a \<Rightarrow> 'a \<Rightarrow> Ordering) \<Rightarrow> 'a list \<Rightarrow> 'a list" where
  "sort_by c xs = foldr (insort_by c) xs []"

locale comparator =
  fixes c :: "'a \<Rightarrow> 'a \<Rightarrow> Ordering"
  assumes antisym: "c y x = reverse_ordering (c x y)"
    and trans: "c x y \<noteq> Greater \<Longrightarrow> c y z \<noteq> Greater \<Longrightarrow> c x z \<noteq> Greater"
begin

lemma refl: "c x x = Equal"
  using antisym [of x x] by (cases "c x x") auto

lemma total: "c x y = Greater \<Longrightarrow> c y x \<noteq> Greater"
  using antisym [of x y] by auto

lemma insort_by_sorted:
  "sorted_wrt (\<lambda>x y. c x y \<noteq> Greater) ys \<Longrightarrow>
     sorted_wrt (\<lambda>x y. c x y \<noteq> Greater) (insort_by c x ys)"
proof (induction ys)
  case (Cons y ys)
  have set_insort: "set (insort_by c x ys) = insert x (set ys)"
    by (induction ys) auto
  show ?case
    using Cons total [of x y] trans [of x y] by (auto simp: set_insort)
qed simp

lemma sort_by_sorted: "sorted_wrt (\<lambda>x y. c x y \<noteq> Greater) (sort_by c xs)"
  unfolding sort_by_def by (induction xs) (auto intro: insort_by_sorted)

end

lemma reverse_ordering_eq_iff [simp]:
  "reverse_ordering o' = Greater \<longleftrightarrow> o' = Less" "reverse_ordering o' = Less \<longleftrightarrow> o' = Greater"
  "reverse_ordering o' = Equal \<longleftrightarrow> o' = Equal"
  by (cases o'; simp)+

lemma then_with_eq_iff:
  "then_with a b = Equal \<longleftrightarrow> a = Equal \<and> b = Equal"
  "then_with a b = Greater \<longleftrightarrow> a = Greater \<or> (a = Equal \<and> b = Greater)"
  "then_with a b = Less \<longleftrightarrow> a = Less \<or> (a = Equal \<and> b = Less)"
  by (auto simp: then_with_def)

lemma then_with_assoc: "then_with (then_with a b) d = then_with a (then_with b d)"
  by (simp add: then_with_def)

lemma reverse_then_with:
  "reverse_ordering (then_with a b) = then_with (reverse_ordering a) (reverse_ordering b)"
  by (cases a) (auto simp: then_with_def)

lemma cmp_simps:
  "cmp x y = Equal \<longleftrightarrow> x = y" "cmp x y = Less \<longleftrightarrow> x < y" "cmp x y = Greater \<longleftrightarrow> y < x"
  by (auto simp: cmp_def)

lemma cmp_swap: "cmp y x = reverse_ordering (cmp x y)"
  by (auto simp: cmp_def)

interpretation cmp: comparator cmp
  by unfold_locales (rule cmp_swap, auto simp: cmp_simps)

lemma mset_insort_by [simp]: "mset (insort_by c x ys) = add_mset x (mset ys)"
  by (induction ys) auto

lemma mset_sort_by [simp]: "mset (sort_by c xs) = mset xs"
  by (induction xs) (auto simp: sort_by_def)

lemma set_sort_by [simp]: "set (sort_by c xs) = set xs"
  by (metis mset_sort_by set_mset_mset)

lemma length_sort_by [simp]: "length (sort_by c xs) = length xs"
  by (metis mset_sort_by size_mset)

text \<open>Two comparators in sequence, and a comparator on a projection.\<close>

lemma comparator_on: "comparator c \<Longrightarrow> comparator (\<lambda>x y. c (f x) (f y))"
  unfolding comparator_def by blast

lemma comparator_flip: "comparator c \<Longrightarrow> comparator (\<lambda>x y. c y x)"
  unfolding comparator_def by blast

lemma comparator_then:
  assumes "comparator a" and "comparator b"
  shows "comparator (\<lambda>x y. then_with (a x y) (b x y))"
proof -
  have aa: "a y x = reverse_ordering (a x y)" and bb: "b y x = reverse_ordering (b x y)" for x y
    using assms unfolding comparator_def by blast+
  have ta: "a x y \<noteq> Greater \<Longrightarrow> a y z \<noteq> Greater \<Longrightarrow> a x z \<noteq> Greater"
    and tb: "b x y \<noteq> Greater \<Longrightarrow> b y z \<noteq> Greater \<Longrightarrow> b x z \<noteq> Greater" for x y z
    using assms unfolding comparator_def by blast+
  have eq: "a x y = Equal" "a y z = Equal"
    if "a x y \<noteq> Greater" "a y z \<noteq> Greater" "a x z = Equal" for x y z
  proof -
    have "a z x \<noteq> Greater" using aa [of z x] that(3) by simp
    then have "a z y \<noteq> Greater" "a y x \<noteq> Greater"
      using ta that by blast+
    then have "a y z \<noteq> Less" "a x y \<noteq> Less"
      by (simp_all add: aa [of z y] aa [of y x])
    then show "a x y = Equal" "a y z = Equal"
      using that(1,2) by (cases "a x y"; cases "a y z"; simp)+
  qed
  show ?thesis
  proof
    show "then_with (a y x) (b y x) = reverse_ordering (then_with (a x y) (b x y))" for x y
      using aa [of y x] bb [of y x] by (simp add: reverse_then_with)
    show "then_with (a x z) (b x z) \<noteq> Greater"
      if "then_with (a x y) (b x y) \<noteq> Greater" "then_with (a y z) (b y z) \<noteq> Greater" for x y z
      using that ta [of x y z] tb [of x y z] eq [of x y z]
      unfolding then_with_eq_iff by metis
  qed
qed

end
