(* ===== verification/Dominance.thy ===== *)
theory Dominance
  imports Prelude
begin

text \<open>
  What a merge of replicated values keeps: the elements that no other element dominates. The
  locale is the contract of a causal order; its lemmas make the union followed by
  \<open>maxima\<close> associative, commutative and idempotent on finite sets.
\<close>

definition maxima :: "('e \<Rightarrow> 'e \<Rightarrow> bool) \<Rightarrow> 'e set \<Rightarrow> 'e set" where
  "maxima below S = {e \<in> S. \<forall>f \<in> S. \<not> below e f}"

locale dominance =
  fixes below :: "'e \<Rightarrow> 'e \<Rightarrow> bool"
  assumes below_irrefl: "\<not> below e e"
    and below_trans: "below e f \<Longrightarrow> below f g \<Longrightarrow> below e g"
begin

lemma maxima_subset: "maxima below S \<subseteq> S"
  by (auto simp: maxima_def)

lemma below_maximum:
  assumes "finite S" and "e \<in> S"
  shows "\<exists>m \<in> maxima below S. m = e \<or> below e m"
  using assms
proof (induction "card {f \<in> S. below e f}" arbitrary: e rule: less_induct)
  case less
  show ?case
  proof (cases "e \<in> maxima below S")
    case False
    then obtain f where f: "f \<in> S" "below e f"
      using less.prems(2) by (auto simp: maxima_def)
    then have "{g \<in> S. below f g} \<subset> {g \<in> S. below e g}"
      using below_irrefl below_trans by blast
    then have "card {g \<in> S. below f g} < card {g \<in> S. below e g}"
      using less.prems(1) by (simp add: psubset_card_mono)
    then obtain m where "m \<in> maxima below S" "m = f \<or> below f m"
      using less.hyps less.prems(1) f(1) by blast
    then show ?thesis
      using f(2) below_trans by blast
  qed blast
qed

lemma maxima_Un_absorb:
  assumes "finite S"
  shows "maxima below (maxima below S \<union> T) = maxima below (S \<union> T)"
proof
  show "maxima below (maxima below S \<union> T) \<subseteq> maxima below (S \<union> T)"
  proof
    fix e
    assume e: "e \<in> maxima below (maxima below S \<union> T)"
    have "\<not> below e f" if "f \<in> S" for f
    proof
      assume "below e f"
      moreover obtain m where m: "m \<in> maxima below S" "m = f \<or> below f m"
        using below_maximum [OF assms \<open>f \<in> S\<close>] by blast
      ultimately have "below e m"
        using below_trans by blast
      with e m(1) show False
        unfolding maxima_def by blast
    qed
    with e show "e \<in> maxima below (S \<union> T)"
      by (auto simp: maxima_def)
  qed
qed (auto simp: maxima_def)

lemma maxima_assoc:
  assumes "finite S" and "finite T" and "finite U"
  shows "maxima below (maxima below (S \<union> T) \<union> U) = maxima below (S \<union> maxima below (T \<union> U))"
proof -
  have "maxima below (S \<union> maxima below (T \<union> U)) = maxima below (maxima below (T \<union> U) \<union> S)"
    by (simp only: Un_commute)
  also have "\<dots> = maxima below (T \<union> U \<union> S)"
    using assms by (intro maxima_Un_absorb) simp
  also have "T \<union> U \<union> S = S \<union> T \<union> U"
    by blast
  also have "maxima below (S \<union> T \<union> U) = maxima below (maxima below (S \<union> T) \<union> U)"
    using assms by (intro maxima_Un_absorb [symmetric]) simp
  finally show ?thesis by (rule sym)
qed

end

end
