(* ===== verification/Mvreg.thy ===== *)
theory Mvreg
  imports Btree Rust_Ord Dominance
begin

text \<open>
  \<open>crates/mantissa-store/src/mvreg.rs\<close>: vector clocks and the multi-value register that
  every replicated record of the store is kept in. A register is a list of values, each with
  the clock that wrote it; a write dominates what it has read, a merge keeps what nothing
  dominates, and a compaction drops low-ranked values but keeps their clocks, so that a stale
  peer cannot bring them back. \<open>usize\<close> indices into a \<open>Vec\<close> are natural numbers.
\<close>

section \<open>Vector clocks\<close>

datatype 'a VectorClock = VectorClock (dots: "('a \<times> u64) list")

definition clock_new :: "'a VectorClock" where
  "clock_new = VectorClock []"

definition clock_is_empty :: "'a VectorClock \<Rightarrow> bool" where
  "clock_is_empty self \<longleftrightarrow> dots self = []"

definition clock_len :: "'a VectorClock \<Rightarrow> nat" where
  "clock_len self = length (dots self)"

definition clock_get :: "'a VectorClock \<Rightarrow> 'a \<Rightarrow> u64" where
  "clock_get self actor = (case map_of (dots self) actor of None \<Rightarrow> 0 | Some counter \<Rightarrow> counter)"

definition clock_apply :: "'a::linorder VectorClock \<Rightarrow> 'a \<Rightarrow> u64 \<Rightarrow> 'a VectorClock" where
  "clock_apply self actor counter =
     (if clock_get self actor < counter
      then VectorClock (bt_insert actor counter (dots self)) else self)"

definition clock_increment :: "'a::linorder VectorClock \<Rightarrow> 'a \<Rightarrow> 'a VectorClock" where
  "clock_increment self actor =
     clock_apply self actor (saturating_add (clock_get self actor) 1)"

definition clock_merge :: "'a::linorder VectorClock \<Rightarrow> 'a VectorClock \<Rightarrow> 'a VectorClock" where
  "clock_merge self other =
     fold (\<lambda>(actor, counter) clock. clock_apply clock actor counter) (dots other) self"

definition clock_covers :: "'a VectorClock \<Rightarrow> 'a VectorClock \<Rightarrow> bool" where
  "clock_covers self other \<longleftrightarrow>
     list_all (\<lambda>(actor, counter). counter \<le> clock_get self actor) (dots other)"

definition partial_cmp :: "'a VectorClock \<Rightarrow> 'a VectorClock \<Rightarrow> Ordering option" where
  "partial_cmp self other =
     (if self = other then Some Equal
      else if clock_covers self other then Some Greater
      else if clock_covers other self then Some Less
      else None)"

section \<open>Registers\<close>

record ('v, 'a) MvRegEntry =
  entry_clock :: "'a VectorClock"
  entry_value :: 'v

datatype ('v, 'a) MvReg = MvReg (entries: "('v, 'a) MvRegEntry list")

datatype 'v MvRegSnapshot = MvRegSnapshot (snapshot_vals: "'v list")

definition from_unsorted :: "'v::linorder list \<Rightarrow> 'v MvRegSnapshot" where
  "from_unsorted vals = MvRegSnapshot (remdups_adj (sort vals))"

definition mvreg_new :: "('v, 'a) MvReg" where
  "mvreg_new = MvReg []"

definition apply_put :: "('v, 'a) MvReg \<Rightarrow> 'a VectorClock \<Rightarrow> 'v \<Rightarrow> ('v, 'a) MvReg" where
  "apply_put self clock value =
     (if clock_is_empty clock then self
      else
        (let kept = filter (\<lambda>entry. partial_cmp (entry_clock entry) clock = None
                                  \<or> partial_cmp (entry_clock entry) clock = Some Greater)
                     (entries self);
             should_add = list_all (\<lambda>entry. partial_cmp (entry_clock entry) clock \<noteq> Some Greater) kept
         in MvReg (if should_add then kept @ [\<lparr>entry_clock = clock, entry_value = value\<rparr>]
                   else kept)))"

definition from_entries :: "('v, 'a) MvRegEntry list \<Rightarrow> ('v, 'a) MvReg" where
  "from_entries es =
     fold (\<lambda>entry reg. apply_put reg (entry_clock entry) (entry_value entry)) es mvreg_new"

definition read_values :: "('v, 'a) MvReg \<Rightarrow> 'v list" where
  "read_values self = map entry_value (entries self)"

definition snapshot :: "('v::linorder, 'a) MvReg \<Rightarrow> 'v MvRegSnapshot" where
  "snapshot self = from_unsorted (read_values self)"

definition mvreg_clock :: "('v, 'a::linorder) MvReg \<Rightarrow> 'a VectorClock" where
  "mvreg_clock self = fold (\<lambda>entry clock. clock_merge clock (entry_clock entry)) (entries self) clock_new"

definition mvreg_write :: "('v, 'a::linorder) MvReg \<Rightarrow> 'a \<Rightarrow> 'v \<Rightarrow> ('v, 'a) MvReg" where
  "mvreg_write self actor value = apply_put self (clock_increment (mvreg_clock self) actor) value"

definition mvreg_merge :: "('v, 'a) MvReg \<Rightarrow> ('v, 'a) MvReg \<Rightarrow> ('v, 'a) MvReg" where
  "mvreg_merge self other =
     (let kept = filter (\<lambda>entry. \<not> list_ex (\<lambda>other_entry.
                     partial_cmp (entry_clock entry) (entry_clock other_entry) = Some Less)
                   (entries other)) (entries self);
          incoming = filter (\<lambda>entry. list_all (\<lambda>current. entry_clock entry \<noteq> entry_clock current) kept)
            (filter (\<lambda>entry. \<not> list_ex (\<lambda>current.
                 partial_cmp (entry_clock entry) (entry_clock current) = Some Less) kept)
              (entries other))
      in MvReg (kept @ incoming))"

section \<open>Compaction\<close>

record ('r, 'v, 'a) RankedEntry =
  rke_index :: nat
  rke_rank :: 'r
  rke_value :: 'v
  rke_clock :: "'a VectorClock"

definition dot_cmp :: "'a::linorder \<times> u64 \<Rightarrow> 'a \<times> u64 \<Rightarrow> Ordering" where
  "dot_cmp left right = then_with (cmp (fst left) (fst right)) (cmp (snd left) (snd right))"

definition total_clock_cmp_desc :: "'a::linorder VectorClock \<Rightarrow> 'a VectorClock \<Rightarrow> Ordering" where
  "total_clock_cmp_desc left right = list_cmp dot_cmp (dots right) (dots left)"

definition compare_ranked_entries_desc ::
  "('r::linorder, 'v::linorder, 'a::linorder) RankedEntry \<Rightarrow> ('r, 'v, 'a) RankedEntry \<Rightarrow> Ordering" where
  "compare_ranked_entries_desc left right =
     then_with (cmp (rke_rank right) (rke_rank left))
       (then_with (cmp (rke_value right) (rke_value left))
         (then_with (total_clock_cmp_desc (rke_clock left) (rke_clock right))
           (cmp (rke_index left) (rke_index right))))"

definition ranked_entries ::
  "(('v, 'a) MvRegEntry \<Rightarrow> 'r) \<Rightarrow> ('v, 'a) MvRegEntry list \<Rightarrow> ('r, 'v, 'a) RankedEntry list" where
  "ranked_entries rank es =
     map (\<lambda>(index, entry). \<lparr>rke_index = index, rke_rank = rank entry,
                            rke_value = entry_value entry, rke_clock = entry_clock entry\<rparr>)
       (enumerate 0 es)"

text \<open>The loop over \<open>drain(..).enumerate()\<close> with the sorted iterator of retained indices.\<close>

fun drain_retained ::
  "nat list \<Rightarrow> nat \<Rightarrow> ('v, 'a::linorder) MvRegEntry list \<Rightarrow> 'a VectorClock
     \<Rightarrow> (nat \<times> ('v, 'a) MvRegEntry) list \<times> 'a VectorClock" where
  "drain_retained retained index [] absorbed = ([], absorbed)"
| "drain_retained (next # retained) index (entry # es) absorbed =
     (if next = index
      then (case drain_retained retained (Suc index) es absorbed of
              (compacted, clock) \<Rightarrow> ((index, entry) # compacted, clock))
      else drain_retained (next # retained) (Suc index) es
             (clock_merge absorbed (entry_clock entry)))"
| "drain_retained [] index (entry # es) absorbed =
     drain_retained [] (Suc index) es (clock_merge absorbed (entry_clock entry))"

fun absorb_clock ::
  "nat \<Rightarrow> 'a::linorder VectorClock \<Rightarrow> (nat \<times> ('v, 'a) MvRegEntry) list
     \<Rightarrow> (nat \<times> ('v, 'a) MvRegEntry) list" where
  "absorb_clock absorb_index clock [] = []"
| "absorb_clock absorb_index clock ((index, entry) # compacted) =
     (if index = absorb_index
      then (index, entry\<lparr>entry_clock := clock_merge (entry_clock entry) clock\<rparr>) # compacted
      else (index, entry) # absorb_clock absorb_index clock compacted)"

definition compact_with ::
  "('v::linorder, 'a::linorder) MvReg \<Rightarrow> nat \<Rightarrow> (('v, 'a) MvRegEntry \<Rightarrow> 'r::linorder)
     \<Rightarrow> bool \<times> ('v, 'a) MvReg" where
  "compact_with self max_values rank =
     (if max_values = 0 \<or> length (entries self) \<le> max_values then (False, self)
      else
        (let ranked = sort_by compare_ranked_entries_desc (ranked_entries rank (entries self));
             absorb_index = rke_index (hd ranked);
             retained = sort (map rke_index (take max_values ranked));
             (compacted, absorbed) = drain_retained retained 0 (entries self) clock_new;
             compacted = absorb_clock absorb_index absorbed compacted
         in (True, from_entries (map snd compacted))))"

section \<open>Specification\<close>

text \<open>The causal order, and the clocks and registers the private fields allow.\<close>

definition clock_le :: "'a VectorClock \<Rightarrow> 'a VectorClock \<Rightarrow> bool" where
  "clock_le a b \<longleftrightarrow> (\<forall>x. clock_get a x \<le> clock_get b x)"

definition clock_less :: "'a VectorClock \<Rightarrow> 'a VectorClock \<Rightarrow> bool" where
  "clock_less a b \<longleftrightarrow> clock_le a b \<and> \<not> clock_le b a"

definition clock_wf :: "'a::linorder VectorClock \<Rightarrow> bool" where
  "clock_wf c \<longleftrightarrow> bt_wf (dots c) \<and> 0 \<notin> snd ` set (dots c)"

definition mvreg_wf :: "('v, 'a::linorder) MvReg \<Rightarrow> bool" where
  "mvreg_wf r \<longleftrightarrow>
     (\<forall>e \<in> set (entries r). clock_wf (entry_clock e) \<and> \<not> clock_is_empty (entry_clock e))
     \<and> sorted_wrt (\<lambda>e f. \<not> clock_le (entry_clock e) (entry_clock f)
                       \<and> \<not> clock_le (entry_clock f) (entry_clock e)) (entries r)"

definition entry_less :: "('v, 'a) MvRegEntry \<Rightarrow> ('v, 'a) MvRegEntry \<Rightarrow> bool" where
  "entry_less e f \<longleftrightarrow> clock_less (entry_clock e) (entry_clock f)"

definition entry_set :: "('v, 'a) MvReg \<Rightarrow> ('v, 'a) MvRegEntry set" where
  "entry_set r = set (entries r)"

text \<open>
  The two filters of \<open>merge\<close>, over the causal order. \<open>agree\<close> says that a clock names one
  write: two entries with the same clock are the same entry.
\<close>

definition agree :: "('v, 'a) MvReg \<Rightarrow> ('v, 'a) MvReg \<Rightarrow> bool" where
  "agree r s \<longleftrightarrow> (\<forall>e \<in> entry_set r. \<forall>f \<in> entry_set s. entry_clock e = entry_clock f \<longrightarrow> e = f)"

definition merge_kept :: "('v, 'a) MvReg \<Rightarrow> ('v, 'a) MvReg \<Rightarrow> ('v, 'a) MvRegEntry set" where
  "merge_kept r s = {e \<in> entry_set r. \<forall>f \<in> entry_set s. \<not> entry_less e f}"

definition merge_incoming :: "('v, 'a) MvReg \<Rightarrow> ('v, 'a) MvReg \<Rightarrow> ('v, 'a) MvRegEntry set" where
  "merge_incoming r s = {f \<in> entry_set s.
     \<forall>e \<in> merge_kept r s. \<not> entry_less f e \<and> entry_clock f \<noteq> entry_clock e}"

text \<open>A clock is covered by a register when some entry is at or above it.\<close>

definition covered :: "'a VectorClock \<Rightarrow> ('v, 'a) MvReg \<Rightarrow> bool" where
  "covered c r \<longleftrightarrow> (\<exists>f \<in> entry_set r. clock_le c (entry_clock f))"

definition demo_base :: "(nat, nat) MvReg" where
  "demo_base = mvreg_write mvreg_new 1 10"

text \<open>Two actors write concurrently on top of the first value.\<close>

definition demo_left :: "(nat, nat) MvReg" where
  "demo_left = mvreg_write demo_base 1 20"

definition demo_right :: "(nat, nat) MvReg" where
  "demo_right = mvreg_write demo_base 2 30"

section \<open>Clocks\<close>

lemma clock_le_refl [simp]: "clock_le a a"
  by (simp add: clock_le_def)

lemma clock_le_trans: "clock_le a b \<Longrightarrow> clock_le b c \<Longrightarrow> clock_le a c"
  unfolding clock_le_def using order_trans by blast

interpretation causal: dominance entry_less
  by unfold_locales (auto simp: entry_less_def clock_less_def intro: clock_le_trans)

lemma clock_wf_new [simp]: "clock_wf clock_new"
  by (simp add: clock_wf_def clock_new_def)

lemma clock_get_new [simp]: "clock_get clock_new x = 0"
  by (simp add: clock_get_def clock_new_def)

lemma clock_get_VectorClock [simp]:
  "clock_get (VectorClock m) x = (case map_of m x of None \<Rightarrow> 0 | Some n \<Rightarrow> n)"
  by (simp add: clock_get_def)

lemma clock_wf_iff: "clock_wf c \<longleftrightarrow> bt_wf (dots c) \<and> (\<forall>x. map_of (dots c) x \<noteq> Some 0)"
proof (cases "bt_wf (dots c)")
  case True
  then have "distinct (map fst (dots c))"
    using strict_sorted_iff by (auto simp: bt_wf_def)
  moreover have "0 \<in> snd ` set (dots c) \<longleftrightarrow> (\<exists>x. (x, 0) \<in> set (dots c))"
    by force
  ultimately show ?thesis
    by (simp add: clock_wf_def)
qed (simp add: clock_wf_def)

lemma clock_eqI:
  assumes "clock_wf a" and "clock_wf b" and "\<And>x. clock_get a x = clock_get b x"
  shows "a = b"
proof -
  have "map_of (dots a) x = map_of (dots b) x" for x
    using assms(1,2) assms(3) [of x]
    by (cases "map_of (dots a) x"; cases "map_of (dots b) x") (auto simp: clock_wf_iff clock_get_def)
  then have "dots a = dots b"
    using assms(1,2) by (intro bt.canonical) (auto simp: clock_wf_iff)
  then show ?thesis by (simp add: VectorClock.expand)
qed

lemma clock_le_antisym: "clock_wf a \<Longrightarrow> clock_wf b \<Longrightarrow> clock_le a b \<Longrightarrow> clock_le b a \<Longrightarrow> a = b"
  by (intro clock_eqI) (auto simp: clock_le_def intro: antisym)

lemma clock_apply_get:
  assumes "clock_wf c"
  shows "clock_get (clock_apply c a n) x = (if x = a then max (clock_get c a) n else clock_get c x)"
    and "clock_wf (clock_apply c a n)"
proof -
  show "clock_get (clock_apply c a n) x = (if x = a then max (clock_get c a) n else clock_get c x)"
    using assms
    by (auto simp: clock_apply_def clock_wf_def bt.lookup_insert max_def)
      (simp add: clock_get_def)
  show "clock_wf (clock_apply c a n)"
    using assms by (auto simp: clock_apply_def clock_wf_iff bt.lookup_insert bt.insert_wf)
qed

lemma clock_increment_get:
  assumes "clock_wf c"
  shows "clock_get (clock_increment c a) x =
      (if x = a then saturating_add (clock_get c a) 1 else clock_get c x)"
    and "clock_wf (clock_increment c a)"
proof -
  have "clock_get c a \<le> saturating_add (clock_get c a) 1"
    by (rule saturating_add_ge)
  then show "clock_get (clock_increment c a) x =
      (if x = a then saturating_add (clock_get c a) 1 else clock_get c x)"
    using assms by (simp add: clock_increment_def clock_apply_get max_def)
  show "clock_wf (clock_increment c a)"
    using assms by (simp add: clock_increment_def clock_apply_get)
qed

lemma clock_covers_iff: "clock_wf b \<Longrightarrow> clock_covers a b \<longleftrightarrow> clock_le b a"
proof -
  assume wf: "clock_wf b"
  then have d: "distinct (map fst (dots b))"
    using strict_sorted_iff by (auto simp: bt_wf_def clock_wf_def)
  show ?thesis
  proof
    assume cov: "clock_covers a b"
    show "clock_le b a"
      unfolding clock_le_def
    proof
      fix x
      show "clock_get b x \<le> clock_get a x"
        using cov by (cases "map_of (dots b) x")
          (auto simp: clock_get_def [of b] clock_covers_def list_all_iff dest: map_of_SomeD)
    qed
  next
    assume le: "clock_le b a"
    show "clock_covers a b"
      unfolding clock_covers_def list_all_iff
    proof clarify
      fix x n
      assume "(x, n) \<in> set (dots b)"
      then have "map_of (dots b) x = Some n"
        using d by simp
      then show "n \<le> clock_get a x"
        using le [unfolded clock_le_def, rule_format, of x] by (simp add: clock_get_def [of b])
    qed
  qed
qed

lemma clock_merge_get:
  assumes "clock_wf c" and "clock_wf d"
  shows "clock_get (clock_merge c d) x = max (clock_get c x) (clock_get d x)"
    and "clock_wf (clock_merge c d)"
proof -
  have *: "bt_wf m \<Longrightarrow> clock_wf c \<Longrightarrow>
      clock_wf (fold (\<lambda>(a, n) c. clock_apply c a n) m c)
      \<and> clock_get (fold (\<lambda>(a, n) c. clock_apply c a n) m c) x =
        max (clock_get c x) (case map_of m x of None \<Rightarrow> 0 | Some n \<Rightarrow> n)" for m
  proof (induction m arbitrary: c)
    case (Cons e m)
    obtain a n where e: "e = (a, n)" by (cases e)
    have "map_of m a = None"
      using Cons.prems(1) bt_fresh [of a n m a] by (simp add: e)
    then show ?case
      using Cons.IH [of "clock_apply c a n"] Cons.prems
      by (auto simp: e bt_wf_Cons clock_apply_get)
  qed simp
  show "clock_get (clock_merge c d) x = max (clock_get c x) (clock_get d x)"
    and "clock_wf (clock_merge c d)"
    using * [of "dots d"] assms by (simp_all add: clock_merge_def clock_wf_def clock_get_def [of d])
qed

text \<open>On well-formed clocks \<open>partial_cmp\<close> decides the causal order.\<close>

lemma partial_cmp_iff:
  assumes "clock_wf a" and "clock_wf b"
  shows "partial_cmp a b = Some Equal \<longleftrightarrow> a = b"
    and "partial_cmp a b = Some Less \<longleftrightarrow> clock_less a b"
    and "partial_cmp a b = Some Greater \<longleftrightarrow> clock_less b a"
    and "partial_cmp a b = None \<longleftrightarrow> \<not> clock_le a b \<and> \<not> clock_le b a"
  using assms clock_le_antisym [OF assms]
  by (auto simp: partial_cmp_def clock_covers_iff clock_less_def)

lemma clock_le_cases:
  "clock_wf a \<Longrightarrow> clock_wf b \<Longrightarrow> clock_le a b \<longleftrightarrow> clock_less a b \<or> a = b"
  using clock_le_antisym by (auto simp: clock_less_def)

lemma increment_dominates:
  assumes "clock_wf c"
  shows "clock_le c (clock_increment c a)"
    and "clock_get c a \<noteq> - 1 \<Longrightarrow> clock_less c (clock_increment c a)"
    and "\<not> clock_is_empty (clock_increment c a)"
proof -
  show le: "clock_le c (clock_increment c a)"
    using assms by (simp add: clock_le_def clock_increment_get saturating_add_ge)
  have ge1: "0 < unat (saturating_add (clock_get c a) 1)"
    by (simp add: unat_saturating_add)
  show "\<not> clock_is_empty (clock_increment c a)"
  proof
    assume "clock_is_empty (clock_increment c a)"
    then have "clock_get (clock_increment c a) a = 0"
      by (simp add: clock_is_empty_def clock_get_def)
    then show False
      using ge1 assms by (simp add: clock_increment_get)
  qed
  assume "clock_get c a \<noteq> - 1"
  then have "unat (clock_get c a) < unat (saturating_add (clock_get c a) 1)"
    using saturating_add_1_less by (simp flip: word_less_nat_alt)
  then have "\<not> clock_le (clock_increment c a) c"
    using assms
    by (auto simp: clock_le_def clock_increment_get word_le_nat_alt not_le intro!: exI [of _ a])
  with le show "clock_less c (clock_increment c a)"
    by (simp add: clock_less_def)
qed

section \<open>Registers\<close>

lemma mvreg_wf_new [simp]: "mvreg_wf mvreg_new"
  by (simp add: mvreg_wf_def mvreg_new_def)

lemma mvreg_entry_wf: "mvreg_wf r \<Longrightarrow> e \<in> set (entries r) \<Longrightarrow> clock_wf (entry_clock e)"
  by (simp add: mvreg_wf_def)

text \<open>Two entries of a register are the same entry or causally unrelated.\<close>

lemma sorted_wrt_symmetric:
  assumes "sorted_wrt P xs" and "\<And>x y. P x y \<Longrightarrow> P y x" and "x \<in> set xs" and "y \<in> set xs"
  shows "x = y \<or> P x y"
  using assms(1,3,4)
proof (induction xs)
  case (Cons z zs)
  then show ?case
    using assms(2) by auto
qed simp

lemma mvreg_antichain:
  assumes "mvreg_wf r" and "e \<in> entry_set r" and "f \<in> entry_set r"
    and "clock_le (entry_clock e) (entry_clock f)"
  shows "e = f"
  using sorted_wrt_symmetric [of "\<lambda>e f. \<not> clock_le (entry_clock e) (entry_clock f)
      \<and> \<not> clock_le (entry_clock f) (entry_clock e)" "entries r" e f] assms
  by (auto simp: mvreg_wf_def entry_set_def)

lemma apply_put_wf:
  assumes "mvreg_wf r" and "clock_wf c"
  shows "mvreg_wf (apply_put r c v)"
proof (cases "clock_is_empty c")
  case False
  let ?kept = "filter (\<lambda>e. partial_cmp (entry_clock e) c = None
      \<or> partial_cmp (entry_clock e) c = Some Greater) (entries r)"
  have "sorted_wrt (\<lambda>e f. \<not> clock_le (entry_clock e) (entry_clock f)
      \<and> \<not> clock_le (entry_clock f) (entry_clock e)) ?kept"
    using assms(1) by (simp add: mvreg_wf_def sorted_wrt_filter)
  moreover have "\<not> clock_le (entry_clock e) c \<and> \<not> clock_le c (entry_clock e)"
    if "list_all (\<lambda>e. partial_cmp (entry_clock e) c \<noteq> Some Greater) ?kept" "e \<in> set ?kept" for e
    using that partial_cmp_iff(4) [OF mvreg_entry_wf [OF assms(1)] assms(2), of e]
    by (auto simp: list_all_iff)
  ultimately show ?thesis
    using assms False
    by (auto simp: apply_put_def Let_def mvreg_wf_def sorted_wrt_append)
qed (simp add: apply_put_def assms(1))

lemma fold_put_wf:
  "\<forall>e \<in> set es. clock_wf (entry_clock e) \<Longrightarrow> mvreg_wf r \<Longrightarrow>
     mvreg_wf (fold (\<lambda>e r. apply_put r (entry_clock e) (entry_value e)) es r)"
  by (induction es arbitrary: r) (auto intro: apply_put_wf)

lemma from_entries_wf:
  "\<forall>e \<in> set es. clock_wf (entry_clock e) \<Longrightarrow> mvreg_wf (from_entries es)"
  by (simp add: from_entries_def fold_put_wf)

text \<open>
  A put of a non-empty clock leaves an entry at or above it, and every entry that was there
  is still there or covered by it.
\<close>

lemma apply_put_covers:
  assumes "mvreg_wf r" and "clock_wf c" and "\<not> clock_is_empty c"
  shows "\<exists>f \<in> entry_set (apply_put r c v). clock_le c (entry_clock f)"
    and "e \<in> entry_set r \<Longrightarrow> \<exists>f \<in> entry_set (apply_put r c v). clock_le (entry_clock e) (entry_clock f)"
    and "entry_set (apply_put r c v) \<subseteq> insert \<lparr>entry_clock = c, entry_value = v\<rparr> (entry_set r)"
proof -
  let ?r = "apply_put r c v"
  note cmp_iff = partial_cmp_iff [OF mvreg_entry_wf [OF assms(1)] assms(2)]
  show put: "\<exists>f \<in> entry_set ?r. clock_le c (entry_clock f)"
  proof (cases "\<exists>g \<in> set (entries r). partial_cmp (entry_clock g) c = Some Greater")
    case True
    then obtain g where g: "g \<in> set (entries r)" "partial_cmp (entry_clock g) c = Some Greater"
      by blast
    then have "g \<in> entry_set ?r"
      using assms(3) by (auto simp: apply_put_def Let_def entry_set_def)
    moreover have "clock_le c (entry_clock g)"
      using g cmp_iff(3) by (auto simp: clock_less_def)
    ultimately show ?thesis by blast
  next
    case False
    then have "\<lparr>entry_clock = c, entry_value = v\<rparr> \<in> entry_set ?r"
      using assms(3) by (auto simp: apply_put_def Let_def entry_set_def list_all_iff)
    then show ?thesis by force
  qed
  show "\<exists>f \<in> entry_set ?r. clock_le (entry_clock e) (entry_clock f)" if "e \<in> entry_set r"
  proof (cases "clock_le (entry_clock e) c")
    case True
    then show ?thesis
      using put clock_le_trans by blast
  next
    case False
    then have "partial_cmp (entry_clock e) c = None \<or> partial_cmp (entry_clock e) c = Some Greater"
      using that cmp_iff(3,4) [of e] by (auto simp: entry_set_def clock_less_def)
    then have "e \<in> entry_set ?r"
      using that assms(3) by (auto simp: apply_put_def Let_def entry_set_def)
    then show ?thesis by force
  qed
  show "entry_set ?r \<subseteq> insert \<lparr>entry_clock = c, entry_value = v\<rparr> (entry_set r)"
    using assms(3) by (auto simp: apply_put_def Let_def entry_set_def)
qed

lemma fold_merge_facts:
  "\<forall>e \<in> set es. clock_wf (entry_clock e) \<Longrightarrow> clock_wf c \<Longrightarrow>
     clock_wf (fold (\<lambda>e c. clock_merge c (entry_clock e)) es c)
     \<and> clock_le c (fold (\<lambda>e c. clock_merge c (entry_clock e)) es c)
     \<and> (\<forall>e \<in> set es. clock_le (entry_clock e) (fold (\<lambda>e c. clock_merge c (entry_clock e)) es c))"
proof (induction es arbitrary: c)
  case (Cons e es)
  let ?c = "clock_merge c (entry_clock e)"
  have "clock_wf ?c" "clock_le c ?c" "clock_le (entry_clock e) ?c"
    using Cons.prems by (simp_all add: clock_merge_get clock_le_def)
  then show ?case
    using Cons.IH [of ?c] Cons.prems clock_le_trans by (auto 0 3)
qed simp

lemma mvreg_clock_facts:
  assumes "mvreg_wf r"
  shows "clock_wf (mvreg_clock r)"
    and "e \<in> entry_set r \<Longrightarrow> clock_le (entry_clock e) (mvreg_clock r)"
  using fold_merge_facts [of "entries r" clock_new] assms
  by (simp_all add: mvreg_clock_def mvreg_wf_def entry_set_def)

text \<open>A write replaces everything the writer had read.\<close>

lemma write_entries:
  assumes "mvreg_wf r"
  shows "entries (mvreg_write r a v) =
    [\<lparr>entry_clock = clock_increment (mvreg_clock r) a, entry_value = v\<rparr>]"
proof -
  let ?c = "clock_increment (mvreg_clock r) a"
  note wf = clock_increment_get(2) [OF mvreg_clock_facts(1) [OF assms], of a]
  have "clock_le (entry_clock e) ?c" if "e \<in> set (entries r)" for e
    using mvreg_clock_facts [OF assms] that increment_dominates(1) clock_le_trans
    by (metis entry_set_def)
  then have "partial_cmp (entry_clock e) ?c \<noteq> None" "partial_cmp (entry_clock e) ?c \<noteq> Some Greater"
    if "e \<in> set (entries r)" for e
    using that partial_cmp_iff(3,4) [OF mvreg_entry_wf [OF assms that] wf]
    by (auto simp: clock_less_def)
  then have "filter (\<lambda>e. partial_cmp (entry_clock e) ?c = None
      \<or> partial_cmp (entry_clock e) ?c = Some Greater) (entries r) = []"
    by (simp add: filter_empty_conv)
  then show ?thesis
    using increment_dominates(3) [OF mvreg_clock_facts(1) [OF assms], of a]
    by (simp add: mvreg_write_def apply_put_def Let_def)
qed

section \<open>Merging\<close>

lemma entry_set_merge:
  assumes "mvreg_wf r" and "mvreg_wf s"
  shows "entry_set (mvreg_merge r s) = merge_kept r s \<union> merge_incoming r s"
  using partial_cmp_iff(2) [OF mvreg_entry_wf [OF assms(1)] mvreg_entry_wf [OF assms(2)]]
    partial_cmp_iff(2) [OF mvreg_entry_wf [OF assms(2)] mvreg_entry_wf [OF assms(1)]]
  by (auto simp: mvreg_merge_def Let_def merge_kept_def merge_incoming_def entry_set_def
      entry_less_def list_ex_iff list_all_iff)

lemma entry_less_antichain:
  "mvreg_wf r \<Longrightarrow> e \<in> entry_set r \<Longrightarrow> f \<in> entry_set r \<Longrightarrow> \<not> entry_less e f"
  using mvreg_antichain [of r e f] by (auto simp: entry_less_def clock_less_def)

lemma merge_maxima:
  assumes "mvreg_wf r" and "mvreg_wf s" and "agree r s"
  shows "entry_set (mvreg_merge r s) = maxima entry_less (entry_set r \<union> entry_set s)"
proof
  have "\<not> entry_less f e" if f: "f \<in> merge_incoming r s" and e: "e \<in> entry_set r" for e f
  proof (cases "e \<in> merge_kept r s")
    case False
    then obtain f' where "f' \<in> entry_set s" "entry_less e f'"
      using e by (auto simp: merge_kept_def)
    then show ?thesis
      using f entry_less_antichain [OF assms(2)] causal.below_trans
      by (fastforce simp: merge_incoming_def)
  qed (use f in \<open>auto simp: merge_incoming_def\<close>)
  then show "entry_set (mvreg_merge r s) \<subseteq> maxima entry_less (entry_set r \<union> entry_set s)"
    using entry_less_antichain assms(1,2)
    by (auto simp: entry_set_merge maxima_def merge_kept_def)
       (auto simp: merge_incoming_def entry_less_antichain)
  show "maxima entry_less (entry_set r \<union> entry_set s) \<subseteq> entry_set (mvreg_merge r s)"
    using assms(3)
    by (fastforce simp: entry_set_merge [OF assms(1,2)] maxima_def merge_kept_def
        merge_incoming_def agree_def)
qed

lemma clock_le_entry:
  assumes "clock_wf (entry_clock e)" and "clock_wf (entry_clock f)"
  shows "clock_le (entry_clock e) (entry_clock f) \<longleftrightarrow> entry_less e f \<or> entry_clock e = entry_clock f"
  using clock_le_cases [OF assms] by (simp add: entry_less_def)

lemma merge_wf:
  assumes "mvreg_wf r" and "mvreg_wf s"
  shows "mvreg_wf (mvreg_merge r s)"
proof -
  let ?P = "\<lambda>e f. \<not> clock_le (entry_clock e) (entry_clock f)
      \<and> \<not> clock_le (entry_clock f) (entry_clock e)"
  obtain kept incoming where m: "entries (mvreg_merge r s) = kept @ incoming"
      and kept: "sorted_wrt ?P kept" "set kept = merge_kept r s"
      and incoming: "sorted_wrt ?P incoming" "set incoming = merge_incoming r s"
  proof -
    let ?k = "filter (\<lambda>e. \<not> list_ex (\<lambda>f. partial_cmp (entry_clock e) (entry_clock f) = Some Less)
        (entries s)) (entries r)"
    let ?i = "filter (\<lambda>f. list_all (\<lambda>e. entry_clock f \<noteq> entry_clock e) ?k)
        (filter (\<lambda>f. \<not> list_ex (\<lambda>e. partial_cmp (entry_clock f) (entry_clock e) = Some Less) ?k)
          (entries s))"
    have k: "set ?k = merge_kept r s"
      using partial_cmp_iff(2) [OF mvreg_entry_wf [OF assms(1)] mvreg_entry_wf [OF assms(2)]]
      by (auto simp: merge_kept_def entry_set_def entry_less_def list_ex_iff)
    have i: "set ?i = merge_incoming r s"
      using partial_cmp_iff(2) [OF mvreg_entry_wf [OF assms(2)] mvreg_entry_wf [OF assms(1)]] k
      by (auto simp: merge_incoming_def entry_set_def entry_less_def list_ex_iff list_all_iff
          simp del: set_filter) (auto simp: merge_kept_def entry_set_def)
    show thesis
      using that [of ?k ?i] k i assms
      by (simp add: mvreg_merge_def Let_def sorted_wrt_filter mvreg_wf_def)
  qed
  have "?P e f" if "e \<in> merge_kept r s" "f \<in> merge_incoming r s" for e f
    using that assms clock_le_entry [of e f] clock_le_entry [of f e] mvreg_entry_wf
    by (auto simp: merge_kept_def merge_incoming_def entry_set_def)
  then have "sorted_wrt ?P (kept @ incoming)"
    using kept incoming by (simp add: sorted_wrt_append)
  moreover have "set (kept @ incoming) \<subseteq> set (entries r) \<union> set (entries s)"
    using kept(2) incoming(2) by (auto simp: merge_kept_def merge_incoming_def entry_set_def)
  ultimately show ?thesis
    using assms by (fastforce simp: mvreg_wf_def m)
qed

text \<open>A register that covers another one absorbs it without a change.\<close>

lemma merge_absorbs:
  assumes "mvreg_wf r" and "mvreg_wf s"
    and "\<forall>e \<in> entry_set s. \<exists>f \<in> entry_set r. clock_le (entry_clock e) (entry_clock f)"
  shows "mvreg_merge r s = r"
proof -
  have kept: "\<not> entry_less e f" if e: "e \<in> entry_set r" and f: "f \<in> entry_set s" for e f
  proof
    assume "entry_less e f"
    moreover obtain e' where "e' \<in> entry_set r" "clock_le (entry_clock f) (entry_clock e')"
      using assms(3) f by blast
    ultimately show False
      using mvreg_antichain [OF assms(1), of e e'] e clock_le_trans
      by (auto simp: entry_less_def clock_less_def)
  qed
  have incoming: "\<exists>e \<in> entry_set r. entry_less f e \<or> entry_clock f = entry_clock e"
    if f: "f \<in> entry_set s" for f
    using assms(3) f clock_le_entry mvreg_entry_wf [OF assms(1)] mvreg_entry_wf [OF assms(2)]
    by (metis entry_set_def)
  have "filter (\<lambda>e. \<not> list_ex (\<lambda>f. partial_cmp (entry_clock e) (entry_clock f) = Some Less)
      (entries s)) (entries r) = entries r"
    using kept partial_cmp_iff(2) [OF mvreg_entry_wf [OF assms(1)] mvreg_entry_wf [OF assms(2)]]
    by (auto simp: filter_id_conv list_ex_iff entry_set_def entry_less_def)
  moreover have "filter (\<lambda>f. list_all (\<lambda>e. entry_clock f \<noteq> entry_clock e) (entries r))
      (filter (\<lambda>f. \<not> list_ex (\<lambda>e. partial_cmp (entry_clock f) (entry_clock e) = Some Less) (entries r))
        (entries s)) = []"
    using incoming partial_cmp_iff(2) [OF mvreg_entry_wf [OF assms(2)] mvreg_entry_wf [OF assms(1)]]
    by (auto simp: filter_empty_conv list_ex_iff list_all_iff entry_set_def entry_less_def) metis
  ultimately show ?thesis
    by (simp only: mvreg_merge_def Let_def append_Nil2 MvReg.collapse)
qed

section \<open>Compaction lemmas\<close>

lemma apply_put_covered:
  assumes "mvreg_wf r" and "clock_wf c" and "\<not> clock_is_empty c"
    and "covered d r \<or> clock_le d c"
  shows "covered d (apply_put r c v)"
  using apply_put_covers [OF assms(1-3)] assms(4) clock_le_trans
  unfolding covered_def by blast

lemma fold_put_covered:
  assumes "covered d r \<or> (\<exists>e \<in> set es. clock_le d (entry_clock e))" and "mvreg_wf r"
    and "\<forall>e \<in> set es. clock_wf (entry_clock e) \<and> \<not> clock_is_empty (entry_clock e)"
  shows "covered d (fold (\<lambda>e r. apply_put r (entry_clock e) (entry_value e)) es r)"
  using assms
proof (induction es arbitrary: r)
  case (Cons g es)
  let ?r = "apply_put r (entry_clock g) (entry_value g)"
  have "covered d ?r \<or> (\<exists>e \<in> set es. clock_le d (entry_clock e))"
    using Cons.prems apply_put_covered [of r "entry_clock g" d] by auto
  then show ?case
    using Cons.IH [of ?r] Cons.prems(2,3) by (simp add: apply_put_wf)
qed simp

lemma from_entries_covered:
  assumes "\<forall>e \<in> set es. clock_wf (entry_clock e) \<and> \<not> clock_is_empty (entry_clock e)"
    and "e \<in> set es" and "clock_le d (entry_clock e)"
  shows "covered d (from_entries es)"
  unfolding from_entries_def using assms by (intro fold_put_covered) auto

lemma from_entries_subset: "entry_set (from_entries es) \<subseteq> set es"
proof -
  have "entry_set (fold (\<lambda>e r. apply_put r (entry_clock e) (entry_value e)) es r) \<subseteq> set es \<union> entry_set r"
    for r :: "('a, 'b) MvReg"
    by (induction es arbitrary: r)
      (fastforce simp: entry_set_def apply_put_def Let_def split: if_splits)+
  from this [of mvreg_new] show ?thesis
    by (simp add: from_entries_def mvreg_new_def entry_set_def)
qed

lemma from_entries_length: "length (entries (from_entries es)) \<le> length es"
proof -
  have "length (entries (apply_put r c v)) \<le> Suc (length (entries r))" for r :: "('a, 'b) MvReg" and c v
    by (simp add: apply_put_def Let_def le_SucI)
  then have "length (entries (fold (\<lambda>e r. apply_put r (entry_clock e) (entry_value e)) es r))
      \<le> length es + length (entries r)" for r :: "('a, 'b) MvReg"
    by (induction es arbitrary: r) (fastforce intro: order_trans)+
  from this [of mvreg_new] show ?thesis
    by (simp add: from_entries_def mvreg_new_def)
qed

text \<open>What the drain loop keeps and what it absorbs.\<close>

lemma drain_retained_spec:
  assumes "sorted_wrt (<) retained" and "\<forall>j \<in> set retained. i \<le> j"
  shows "drain_retained retained i es c =
    (filter (\<lambda>(j, e). j \<in> set retained) (enumerate i es),
     fold (\<lambda>e c. clock_merge c (entry_clock e))
       (map snd (filter (\<lambda>(j, e). j \<notin> set retained) (enumerate i es))) c)"
  using assms
proof (induction retained i es c rule: drain_retained.induct)
  case (2 j retained i e es c)
  show ?case
  proof (cases "j = i")
    case True
    have ge: "\<forall>k \<in> set retained. Suc i \<le> k"
      using 2(3) True by auto
    have "(k \<in> set (j # retained)) = (k \<in> set retained)" if "(k, x) \<in> set (enumerate (Suc i) es)" for k x
      using that True by (auto simp: in_set_enumerate_eq)
    then have "filter (\<lambda>(k, x). k \<in> set (j # retained)) (enumerate (Suc i) es) =
        filter (\<lambda>(k, x). k \<in> set retained) (enumerate (Suc i) es)"
      "filter (\<lambda>(k, x). k \<notin> set (j # retained)) (enumerate (Suc i) es) =
        filter (\<lambda>(k, x). k \<notin> set retained) (enumerate (Suc i) es)"
      by (auto intro!: filter_cong)
    then show ?thesis
      using 2 True ge by simp
  next
    case False
    have "i \<notin> set (j # retained)"
      using 2(3,4) False by auto
    moreover have "\<forall>k \<in> set (j # retained). Suc i \<le> k"
      using 2(4) \<open>i \<notin> set (j # retained)\<close> by (metis Suc_leI le_neq_implies_less)
    ultimately show ?thesis
      using 2 False by simp
  qed
qed auto

lemma absorb_clock_spec:
  assumes "distinct (map fst es)"
  shows "absorb_clock z c es =
    map (\<lambda>(j, e). (j, if j = z then e\<lparr>entry_clock := clock_merge (entry_clock e) c\<rparr> else e)) es"
  using assms
proof (induction z c es rule: absorb_clock.induct)
  case (2 z c i e es)
  have "map (\<lambda>(j, e). (j, if j = z then e\<lparr>entry_clock := clock_merge (entry_clock e) c\<rparr> else e)) es = es"
    if "i = z"
    using 2(2) that by (auto intro!: map_idI) force
  then show ?case
    using 2 by simp
qed simp

lemma enumerate_filter_keys:
  "distinct (map fst (filter (\<lambda>(j, e). j \<in> R) (enumerate 0 es)))"
  "set (map fst (filter (\<lambda>(j, e). j \<in> R) (enumerate 0 es))) = R \<inter> {..<length es}"
proof -
  show "distinct (map fst (filter (\<lambda>(j, e). j \<in> R) (enumerate 0 es)))"
    by (intro distinct_map_filter) (simp add: enumerate_eq_zip)
  show "set (map fst (filter (\<lambda>(j, e). j \<in> R) (enumerate 0 es))) = R \<inter> {..<length es}"
    by (force simp: in_set_enumerate_eq image_iff)
qed

lemma ranked_indices:
  "mset (map rke_index (sort_by c (ranked_entries rank es))) = mset [0..<length es]"
proof -
  have "mset (map rke_index (sort_by c (ranked_entries rank es))) =
      mset (map rke_index (ranked_entries rank es))"
    by simp
  also have "map rke_index (ranked_entries rank es) = [0..<length es]"
    by (simp add: ranked_entries_def enumerate_eq_zip comp_def case_prod_unfold)
  finally show ?thesis .
qed

text \<open>
  The compacted register before its entries are put again: the retained positions, one of
  which has absorbed the clocks of the rest.
\<close>

lemma compact_with_cases:
  assumes "compact_with r m rank = (True, r')"
  obtains z R absorbed where "r' = from_entries (map snd (map (\<lambda>(j, e).
        (j, if j = z then e\<lparr>entry_clock := clock_merge (entry_clock e) absorbed\<rparr> else e))
        (filter (\<lambda>(j, e). j \<in> R) (enumerate 0 (entries r)))))"
    and "absorbed = fold (\<lambda>e c. clock_merge c (entry_clock e))
        (map snd (filter (\<lambda>(j, e). j \<notin> R) (enumerate 0 (entries r)))) clock_new"
    and "z \<in> R" and "R \<subseteq> {..<length (entries r)}" and "card R = m"
proof -
  let ?ranked = "sort_by compare_ranked_entries_desc (ranked_entries rank (entries r))"
  let ?is = "map rke_index ?ranked"
  let ?R = "set (take m ?is)" and ?z = "rke_index (hd ?ranked)"
  have m: "0 < m" "m < length (entries r)"
    using assms by (auto simp: compact_with_def split: if_splits)
  have "mset ?is = mset [0..<length (entries r)]"
    by (rule ranked_indices)
  then have idx: "distinct ?is" "set ?is = {..<length (entries r)}"
      "length ?is = length (entries r)"
    by (metis distinct_upt mset_eq_imp_distinct_iff, metis atLeast_upt mset_eq_setD,
        metis length_upt minus_nat.diff_0 mset_eq_length)
  have sorted: "sorted_wrt (<) (sort (take m ?is))"
    using idx(1) by (simp add: strict_sorted_iff)
  have "?ranked \<noteq> []"
    using idx(3) m(2) by (metis length_map list.size(3) not_less_zero)
  then have "?z \<in> ?R"
    using m(1) by (cases ?ranked; cases m) auto
  moreover have "?R \<subseteq> {..<length (entries r)}"
    using idx(2) set_take_subset by fastforce
  moreover have "card ?R = m"
    using idx(1,3) m by (simp add: distinct_card)
  moreover have "drain_retained (sort (take m ?is)) 0 (entries r) clock_new =
      (filter (\<lambda>(j, e). j \<in> ?R) (enumerate 0 (entries r)),
       fold (\<lambda>e c. clock_merge c (entry_clock e))
         (map snd (filter (\<lambda>(j, e). j \<notin> ?R) (enumerate 0 (entries r)))) clock_new)"
    (is "_ = (?kept, ?absorbed)")
    using drain_retained_spec [OF sorted, of 0] by simp
  then have "r' = from_entries (map snd (absorb_clock ?z ?absorbed ?kept))"
    using assms m by (simp add: compact_with_def Let_def take_map)
  note this [unfolded absorb_clock_spec [OF enumerate_filter_keys(1)]]
  ultimately show thesis
    by (intro that [of ?z ?absorbed ?R]) simp_all
qed

lemma clock_nonempty_mono:
  assumes "clock_wf a" and "clock_le a b" and "\<not> clock_is_empty a"
  shows "\<not> clock_is_empty b"
proof
  assume "clock_is_empty b"
  then have "clock_get a x = clock_get clock_new x" for x
    using assms(2) by (simp add: clock_le_def clock_is_empty_def clock_get_def [of b])
  then have "a = clock_new"
    using assms(1) by (intro clock_eqI) simp_all
  then show False
    using assms(3) by (simp add: clock_is_empty_def clock_new_def)
qed

lemma compact_covers:
  assumes "mvreg_wf r" and "compact_with r m rank = (b, r')"
  shows "mvreg_wf r' \<and> (\<forall>e \<in> entry_set r. covered (entry_clock e) r')"
proof (cases b)
  case False
  then have "r' = r"
    using assms(2) by (auto simp: compact_with_def Let_def split: if_splits prod.splits)
  then show ?thesis
    using assms(1) clock_le_refl unfolding covered_def by blast
next
  case True
  obtain z R absorbed where r': "r' = from_entries (map snd (map (\<lambda>(j, e).
        (j, if j = z then e\<lparr>entry_clock := clock_merge (entry_clock e) absorbed\<rparr> else e))
        (filter (\<lambda>(j, e). j \<in> R) (enumerate 0 (entries r)))))" (is "_ = from_entries ?es")
      and ab: "absorbed = fold (\<lambda>e c. clock_merge c (entry_clock e))
        (map snd (filter (\<lambda>(j, e). j \<notin> R) (enumerate 0 (entries r)))) clock_new"
      and z: "z \<in> R" "R \<subseteq> {..<length (entries r)}" and "card R = m"
    by (rule compact_with_cases [OF assms(2) [unfolded eqTrueI [OF True]]])
  let ?at = "\<lambda>j. entries r ! j"
  have dropped: "\<forall>e \<in> set (map snd (filter (\<lambda>(j, e). j \<notin> R) (enumerate 0 (entries r)))).
      clock_wf (entry_clock e)"
    using assms(1) by (auto simp: in_set_enumerate_eq mvreg_wf_def)
  note absorbed = fold_merge_facts [OF dropped clock_wf_new, folded ab]
  have wf: "clock_wf (entry_clock (?at j))" "\<not> clock_is_empty (entry_clock (?at j))"
    if "j < length (entries r)" for j
    using assms(1) that by (auto simp: mvreg_wf_def)
  let ?merged = "(?at z)\<lparr>entry_clock := clock_merge (entry_clock (?at z)) absorbed\<rparr>"
  have es: "set ?es = (\<lambda>j. if j = z then ?merged else ?at j) ` R"
    using z by (force simp: in_set_enumerate_eq image_iff)
  have up: "clock_le (entry_clock (?at z)) (entry_clock ?merged)"
      "clock_le absorbed (entry_clock ?merged)" and wfm: "clock_wf (entry_clock ?merged)"
    using wf z absorbed by (auto simp: clock_le_def clock_merge_get)
  have "\<not> clock_is_empty (entry_clock ?merged)"
    using clock_nonempty_mono [OF wf(1) up(1) wf(2)] z by auto
  then have all: "\<forall>e \<in> set ?es. clock_wf (entry_clock e) \<and> \<not> clock_is_empty (entry_clock e)"
    unfolding es using z wf wfm by auto
  have "covered (entry_clock (?at j)) r'" if j: "j < length (entries r)" for j
  proof -
    have "\<exists>e \<in> set ?es. clock_le (entry_clock (?at j)) (entry_clock e)"
    proof (cases "j \<in> R \<and> j \<noteq> z")
      case True
      then show ?thesis unfolding es by force
    next
      case False
      have "j \<notin> R \<Longrightarrow> clock_le (entry_clock (?at j)) absorbed"
        using absorbed j by (auto simp: in_set_enumerate_eq)
      then have "clock_le (entry_clock (?at j)) (entry_clock ?merged)"
        using False up clock_le_trans by blast
      then show ?thesis
        unfolding es using z by force
    qed
    then show ?thesis
      unfolding r' using from_entries_covered [OF all] by blast
  qed
  then have "covered (entry_clock e) r'" if "e \<in> entry_set r" for e
    using that by (auto simp: entry_set_def in_set_conv_nth)
  moreover have "mvreg_wf r'"
    unfolding r' using all by (intro from_entries_wf) blast
  ultimately show ?thesis by blast
qed

lemma from_entries_values:
  assumes "entry_value ` set es \<subseteq> V"
  shows "entry_value ` entry_set (from_entries es) \<subseteq> V"
  using from_entries_subset [of es] assms by blast

lemma compact_unchanged:
  assumes "compact_with r m rank = (False, r')"
  shows "r' = r \<and> (m = 0 \<or> length (entries r) \<le> m)"
  using assms by (auto simp: compact_with_def Let_def split: if_splits prod.splits)

lemma compact_size:
  assumes "compact_with r m rank = (b, r')" and "0 < m"
  shows "length (entries r') \<le> m \<and> entry_value ` entry_set r' \<subseteq> entry_value ` entry_set r"
proof (cases b)
  case False
  then show ?thesis
    using assms compact_unchanged [of r m rank r'] by simp
next
  case True
  obtain z R absorbed where r': "r' = from_entries (map snd (map (\<lambda>(j, e).
        (j, if j = z then e\<lparr>entry_clock := clock_merge (entry_clock e) absorbed\<rparr> else e))
        (filter (\<lambda>(j, e). j \<in> R) (enumerate 0 (entries r)))))"
      and "absorbed = fold (\<lambda>e c. clock_merge c (entry_clock e))
        (map snd (filter (\<lambda>(j, e). j \<notin> R) (enumerate 0 (entries r)))) clock_new"
      and "z \<in> R" and R: "R \<subseteq> {..<length (entries r)}" "card R = m"
    by (rule compact_with_cases [OF assms(1) [unfolded eqTrueI [OF True]]])
  define es where "es = map snd (map (\<lambda>(j, e).
        (j, if j = z then e\<lparr>entry_clock := clock_merge (entry_clock e) absorbed\<rparr> else e))
        (filter (\<lambda>(j, e). j \<in> R) (enumerate 0 (entries r))))"
  have r'_es: "r' = from_entries es"
    unfolding es_def by (rule r')
  have "length es = card (R \<inter> {..<length (entries r)})"
    using distinct_card [OF enumerate_filter_keys(1), of R "entries r"]
    unfolding es_def by (simp only: enumerate_filter_keys(2) length_map)
  then have "length (entries r') \<le> m"
    using from_entries_length [of es] R unfolding r'_es by (simp add: Int_absorb2)
  moreover have "entry_value ` set es \<subseteq> entry_value ` entry_set r"
    unfolding es_def by (auto simp: in_set_enumerate_eq entry_set_def)
  then have "entry_value ` entry_set r' \<subseteq> entry_value ` entry_set r"
    unfolding r'_es by (rule from_entries_values)
  ultimately show ?thesis by blast
qed

lemma agree_sym: "agree r s \<Longrightarrow> agree s r"
  by (metis agree_def)

lemma agree_merge:
  assumes "mvreg_wf r" and "mvreg_wf s" and "agree r t" and "agree s t"
  shows "agree (mvreg_merge r s) t"
  using assms by (auto simp: agree_def entry_set_merge merge_kept_def merge_incoming_def)

section \<open>The example registers\<close>

lemma u64_two_above_one [simp]: "\<not> (2 :: u64) \<le> 1"
  by (simp add: word_le_nat_alt)

lemma demo_registers:
  "demo_left = MvReg [\<lparr>entry_clock = VectorClock [(1, 2)], entry_value = 20\<rparr>]"
  "demo_right = MvReg [\<lparr>entry_clock = VectorClock [(1, 1), (2, 1)], entry_value = 30\<rparr>]"
  by (simp_all add: demo_left_def demo_right_def demo_base_def mvreg_write_def mvreg_new_def
      mvreg_clock_def clock_new_def clock_increment_def clock_apply_def clock_merge_def
      apply_put_def clock_is_empty_def saturating_add_def partial_cmp_def clock_covers_def)

lemma demo_registers_wf: "mvreg_wf demo_left" "mvreg_wf demo_right" "agree demo_left demo_right"
proof -
  have "\<not> clock_le (VectorClock [(1 :: nat, 2)]) (VectorClock [(1, 1), (2, 1)])"
    unfolding clock_le_def not_all by (rule exI [of _ 1]) simp
  moreover have "\<not> clock_le (VectorClock [(1 :: nat, 1), (2, 1)]) (VectorClock [(1, 2)])"
    unfolding clock_le_def not_all by (rule exI [of _ 2]) simp
  ultimately show "mvreg_wf demo_left" "mvreg_wf demo_right" "agree demo_left demo_right"
    by (simp_all add: demo_registers mvreg_wf_def clock_wf_def bt_wf_Cons clock_is_empty_def
        agree_def entry_set_def)
qed

lemma demo_merged:
  "entries (mvreg_merge demo_left demo_right) =
     [\<lparr>entry_clock = VectorClock [(1, 2)], entry_value = 20\<rparr>,
      \<lparr>entry_clock = VectorClock [(1, 1), (2, 1)], entry_value = 30\<rparr>]"
  by (simp add: demo_registers mvreg_merge_def Let_def partial_cmp_def clock_covers_def)

section \<open>Properties\<close>

text \<open>
  C19. Registers converge: when a clock names one write, merging keeps exactly the entries no
  entry of either side dominates, so merges of well-formed registers give the same entries in
  every order and grouping, and merging a register with itself changes nothing.
\<close>

theorem mvreg_merge_converges:
  assumes "mvreg_wf r" and "mvreg_wf s" and "mvreg_wf t"
    and "agree r s" and "agree s t" and "agree r t"
  shows "entry_set (mvreg_merge r s) = entry_set (mvreg_merge s r)
    \<and> entry_set (mvreg_merge (mvreg_merge r s) t) = entry_set (mvreg_merge r (mvreg_merge s t))
    \<and> mvreg_merge r r = r \<and> mvreg_wf (mvreg_merge r s)"
proof -
  note m = merge_maxima [OF assms(1,2,4)] merge_maxima [OF assms(2,3,5)]
  have "agree (mvreg_merge r s) t" and "agree r (mvreg_merge s t)"
    using agree_merge agree_sym assms by blast+
  then have "entry_set (mvreg_merge (mvreg_merge r s) t) =
      maxima entry_less (maxima entry_less (entry_set r \<union> entry_set s) \<union> entry_set t)"
    and "entry_set (mvreg_merge r (mvreg_merge s t)) =
      maxima entry_less (entry_set r \<union> maxima entry_less (entry_set s \<union> entry_set t))"
    using merge_maxima merge_wf assms m by metis+
  moreover have "mvreg_merge r r = r"
    using merge_absorbs [OF assms(1,1)] clock_le_refl by blast
  moreover have "entry_set (mvreg_merge r s) = entry_set (mvreg_merge s r)"
    using merge_maxima [OF assms(2,1) agree_sym [OF assms(4)]] m(1) by (simp add: Un_commute)
  ultimately show ?thesis
    using causal.maxima_assoc [of "entry_set r" "entry_set s" "entry_set t"]
      merge_wf [OF assms(1,2)] by (simp add: entry_set_def)
qed

theorem mvreg_merge_converges_witness:
  "entry_set (mvreg_merge demo_left demo_right) = entry_set (mvreg_merge demo_right demo_left)
   \<and> read_values (mvreg_merge demo_left demo_right) = [20, 30]"
proof -
  have "agree demo_right demo_right"
    by (simp add: agree_def demo_registers entry_set_def)
  from mvreg_merge_converges [OF demo_registers_wf(1,2,2,3) this demo_registers_wf(3)]
  show ?thesis by (simp add: read_values_def demo_merged)
qed

text \<open>
  C20. A write supersedes what its writer had read: afterwards the register holds exactly the
  written value, and unless the writer's counter has reached its maximum (where it saturates),
  merging the register as it was before, in either direction, gives the written register.
\<close>

theorem mvreg_write_supersedes:
  assumes "mvreg_wf r"
  shows "read_values (mvreg_write r a v) = [v] \<and> mvreg_wf (mvreg_write r a v)
    \<and> (clock_get (mvreg_clock r) a \<noteq> - 1 \<longrightarrow>
         mvreg_merge (mvreg_write r a v) r = mvreg_write r a v
         \<and> entry_set (mvreg_merge r (mvreg_write r a v)) = entry_set (mvreg_write r a v))"
proof -
  let ?c = "clock_increment (mvreg_clock r) a" and ?w = "mvreg_write r a v"
  note clock = mvreg_clock_facts [OF assms(1)]
  have w: "entries ?w = [\<lparr>entry_clock = ?c, entry_value = v\<rparr>]"
    using assms(1) by (rule write_entries)
  have wf: "mvreg_wf ?w"
    using clock by (simp add: mvreg_wf_def w clock_increment_get increment_dominates)
  have "mvreg_merge ?w r = ?w \<and> entry_set (mvreg_merge r ?w) = entry_set ?w" if "clock_get (mvreg_clock r) a \<noteq> - 1"
  proof
    have less: "clock_less (entry_clock e) ?c" if "e \<in> entry_set r" for e
      using clock(2) [OF that] increment_dominates(2) [OF clock(1) \<open>clock_get (mvreg_clock r) a \<noteq> - 1\<close>] clock_le_trans
      unfolding clock_less_def by blast
    show "mvreg_merge ?w r = ?w"
      using less by (intro merge_absorbs [OF wf assms(1)]) (auto simp: entry_set_def w clock_less_def)
    have "merge_kept r ?w = {}" "merge_incoming r ?w = entry_set ?w"
      using less by (auto simp: merge_kept_def merge_incoming_def entry_set_def w entry_less_def)
    then show "entry_set (mvreg_merge r ?w) = entry_set ?w"
      using entry_set_merge [OF assms(1) wf] by simp
  qed
  then show ?thesis
    using wf by (simp add: read_values_def w)
qed

theorem mvreg_write_supersedes_witness:
  "read_values (mvreg_write demo_left 2 40) = [40]
   \<and> mvreg_merge (mvreg_write demo_left 2 40) demo_left = mvreg_write demo_left 2 40"
  using mvreg_write_supersedes [OF demo_registers_wf(1), of 2 40]
  by (simp add: demo_registers mvreg_clock_def clock_merge_def clock_new_def clock_apply_def)

text \<open>
  C21. Compaction is bounded and forgets nothing causally: at most \<open>max_values\<close> values stay,
  each of them a value of the register, and merging any peer whose entries the register had
  already seen leaves the compacted register as it is, so no dropped value comes back.
\<close>

theorem mvreg_compaction_absorbs:
  assumes "mvreg_wf r" and "compact_with r max_values rank = (changed, r')" and "0 < max_values"
    and "mvreg_wf peer"
    and "\<forall>e \<in> entry_set peer. \<exists>f \<in> entry_set r. clock_le (entry_clock e) (entry_clock f)"
  shows "length (entries r') \<le> max_values \<and> mvreg_wf r'
    \<and> set (read_values r') \<subseteq> set (read_values r)
    \<and> mvreg_merge r' peer = r'"
proof -
  note covers = compact_covers [OF assms(1,2)]
  have "\<forall>e \<in> entry_set peer. \<exists>f \<in> entry_set r'. clock_le (entry_clock e) (entry_clock f)"
    using assms(5) covers clock_le_trans unfolding covered_def by meson
  then have "mvreg_merge r' peer = r'"
    using covers assms(4) by (blast intro: merge_absorbs)
  then show ?thesis
    using covers compact_size [OF assms(2,3)] by (simp add: read_values_def entry_set_def)
qed

theorem mvreg_compaction_absorbs_witness:
  "\<exists>r'. compact_with (mvreg_merge demo_left demo_right) 1 entry_value = (True, r')
     \<and> length (entries r') \<le> 1 \<and> mvreg_merge r' demo_left = r'"
proof -
  let ?r = "mvreg_merge demo_left demo_right"
  have wf: "mvreg_wf ?r"
    using merge_wf demo_registers_wf by blast
  have "fst (compact_with ?r 1 entry_value)"
    by (simp add: compact_with_def demo_merged Let_def split: prod.split)
  then obtain r' where r': "compact_with ?r 1 entry_value = (True, r')"
    by (metis (full_types) prod.collapse)
  have "\<forall>e \<in> entry_set demo_left. \<exists>f \<in> entry_set ?r. clock_le (entry_clock e) (entry_clock f)"
    by (simp add: entry_set_def demo_merged) (simp add: demo_registers)
  with mvreg_compaction_absorbs [OF wf r' _ demo_registers_wf(1)] r' show ?thesis by simp
qed

end
