(* ===== verification/Rust_Text.thy ===== *)
theory Rust_Text
  imports Prelude
begin

text \<open>
  The text functions of the standard library that the network and service code uses: \<open>trim\<close>,
  \<open>split_once\<close>, decimal and hexadecimal formatting, \<open>u8::from_str\<close>, and the text of IPv4
  addresses. Strings are lists of Latin-1 characters. The text of IPv6 addresses is a parameter
  of the functions that need it, with the law \<open>v6_text_ok\<close>.
\<close>

section \<open>Strings\<close>

definition is_whitespace :: "char \<Rightarrow> bool" where
  "is_whitespace c \<longleftrightarrow> of_char c \<in> {9, 10, 11, 12, 13, 32, 133, 160 :: nat}"

definition trim :: "string \<Rightarrow> string" where
  "trim s = rev (dropWhile is_whitespace (rev (dropWhile is_whitespace s)))"

definition split_once :: "char \<Rightarrow> string \<Rightarrow> (string \<times> string) option" where
  "split_once c s =
     (if c \<in> set s then Some (takeWhile (\<lambda>d. d \<noteq> c) s, tl (dropWhile (\<lambda>d. d \<noteq> c) s)) else None)"

section \<open>Numbers\<close>

definition is_digit :: "char \<Rightarrow> bool" where
  "is_digit c \<longleftrightarrow> 48 \<le> (of_char c :: nat) \<and> (of_char c :: nat) \<le> 57"

definition digit_char :: "nat \<Rightarrow> char" where
  "digit_char n = char_of (48 + n)"

definition char_digit :: "char \<Rightarrow> nat" where
  "char_digit c = of_char c - 48"

text \<open>\<open>Display\<close> of unsigned integers, and the value of a digit sequence.\<close>

fun dec :: "nat \<Rightarrow> string" where
  "dec n = (if n < 10 then [digit_char n] else dec (n div 10) @ [digit_char (n mod 10)])"

definition dec_value :: "string \<Rightarrow> nat" where
  "dec_value s = fold (\<lambda>c n. 10 * n + char_digit c) s 0"

definition hex_char :: "nat \<Rightarrow> char" where
  "hex_char n = (if n < 10 then char_of (48 + n) else char_of (87 + n))"

text \<open>The formats \<open>{:02x}\<close> of a byte and \<open>{:04x}\<close> of a 16-bit group.\<close>

definition hex2 :: "u8 \<Rightarrow> string" where
  "hex2 b = [hex_char (unat b div 16), hex_char (unat b mod 16)]"

definition hex4 :: "16 word \<Rightarrow> string" where
  "hex4 g = map (\<lambda>i. hex_char (unat g div 16 ^ i mod 16)) [3, 2, 1, 0]"

fun join :: "string \<Rightarrow> string list \<Rightarrow> string" where
  "join sep [] = []"
| "join sep [s] = s"
| "join sep (s # t # ss) = s @ sep @ join sep (t # ss)"

text \<open>
  \<open>u8::from_str\<close>: an optional plus sign, then digits, and no overflow. A lone sign is no
  number.
\<close>

definition parse_u8 :: "string \<Rightarrow> u8 option" where
  "parse_u8 s = (let digits = (if s \<noteq> [] \<and> hd s = CHR ''+'' then tl s else s) in
     if digits = [] \<or> \<not> list_all is_digit digits \<or> 256 \<le> dec_value digits then None
     else Some (of_nat (dec_value digits)))"

section \<open>IP addresses\<close>

text \<open>An address is its integer value, as \<open>u32::from\<close> and \<open>u128::from\<close> read it.\<close>

datatype IpAddr = V4 u32 | V6 u128

definition octet :: "u32 \<Rightarrow> nat \<Rightarrow> nat" where
  "octet a i = unat a div 256 ^ i mod 256"

definition v4_to_string :: "u32 \<Rightarrow> string" where
  "v4_to_string a =
     dec (octet a 3) @ ''.'' @ dec (octet a 2) @ ''.'' @ dec (octet a 1) @ ''.'' @ dec (octet a 0)"

text \<open>One decimal group of at most three digits, without a leading zero.\<close>

definition read_octet :: "string \<Rightarrow> (nat \<times> string) option" where
  "read_octet s = (let digits = takeWhile is_digit s in
     if digits = [] \<or> 3 < length digits \<or> hd digits = CHR ''0'' \<and> 1 < length digits
       \<or> 256 \<le> dec_value digits then None
     else Some (dec_value digits, dropWhile is_digit s))"

fun read_octets :: "nat \<Rightarrow> nat \<Rightarrow> string \<Rightarrow> (nat \<times> string) option" where
  "read_octets acc 0 s = Some (acc, s)"
| "read_octets acc (Suc k) s = (case s of
     [] \<Rightarrow> None
   | c # s' \<Rightarrow> if c = CHR ''.'' then
       (case read_octet s' of None \<Rightarrow> None | Some (n, rest) \<Rightarrow> read_octets (256 * acc + n) k rest)
       else None)"

definition v4_from_str :: "string \<Rightarrow> u32 option" where
  "v4_from_str s = (case read_octet s of None \<Rightarrow> None | Some (n, rest) \<Rightarrow>
     (case read_octets n 3 rest of Some (a, []) \<Rightarrow> Some (of_nat a) | _ \<Rightarrow> None))"

primrec ip_to_string :: "(u128 \<Rightarrow> string) \<Rightarrow> IpAddr \<Rightarrow> string" where
  "ip_to_string v6 (V4 a) = v4_to_string a"
| "ip_to_string v6 (V6 a) = v6 a"

definition ip_from_str :: "(string \<Rightarrow> u128 option) \<Rightarrow> string \<Rightarrow> IpAddr option" where
  "ip_from_str v6 s = (case v4_from_str s of Some a \<Rightarrow> Some (V4 a) | None \<Rightarrow> map_option V6 (v6 s))"

text \<open>What \<open>Ipv6Addr\<close> promises: its text parses back to the address and is no IPv4 text.\<close>

definition v6_text_ok :: "(u128 \<Rightarrow> string) \<Rightarrow> (string \<Rightarrow> u128 option) \<Rightarrow> bool" where
  "v6_text_ok show_v6 read_v6 \<longleftrightarrow>
     (\<forall>a. read_v6 (show_v6 a) = Some a \<and> v4_from_str (show_v6 a) = None)"

section \<open>Round trips\<close>

declare dec.simps [simp del]

lemma of_char_char_of_nat [simp]: "n < 256 \<Longrightarrow> of_char (char_of n) = n" for n :: nat
  by simp

lemma digit_char_simps [simp]:
  assumes "n < 10"
  shows "is_digit (digit_char n)" "char_digit (digit_char n) = n"
    "digit_char n = CHR ''0'' \<longleftrightarrow> n = 0"
proof -
  show "is_digit (digit_char n)" "char_digit (digit_char n) = n"
    using assms by (simp_all add: is_digit_def digit_char_def char_digit_def)
  show "digit_char n = CHR ''0'' \<longleftrightarrow> n = 0"
  proof
    assume "digit_char n = CHR ''0''"
    then have "of_char (digit_char n) = (of_char (CHR ''0'') :: nat)" by simp
    then show "n = 0" using assms by (simp add: digit_char_def)
  next
    assume "n = 0"
    then show "digit_char n = CHR ''0''" by (simp add: digit_char_def) (code_simp)
  qed
qed

lemma dec_value_append: "dec_value (s @ [c]) = 10 * dec_value s + char_digit c"
  by (simp add: dec_value_def)

lemma dec_roundtrip: "list_all is_digit (dec n) \<and> dec_value (dec n) = n \<and> dec n \<noteq> []"
proof (induction n rule: dec.induct)
  case (1 n)
  show ?case
  proof (cases "n < 10")
    case True
    then show ?thesis by (simp add: dec.simps [of n]) (simp add: dec_value_def)
  next
    case False
    then show ?thesis
      using 1 by (simp add: dec.simps [of n] dec_value_append)
  qed
qed

lemma hd_dec: "hd (dec n) = CHR ''0'' \<longleftrightarrow> n = 0"
proof (induction n rule: dec.induct)
  case (1 n)
  then show ?case
    using dec_roundtrip [of "n div 10"]
    by (cases "n < 10") (auto simp: dec.simps [of n])
qed

lemma length_dec: "0 < k \<Longrightarrow> n < 10 ^ k \<Longrightarrow> length (dec n) \<le> k"
proof (induction n arbitrary: k rule: dec.induct)
  case (1 n)
  show ?case
  proof (cases "n < 10")
    case True
    then show ?thesis using 1 by (simp add: dec.simps [of n])
  next
    case False
    then obtain j where k: "k = Suc j" "0 < j"
      using 1 by (cases k; cases "k = 1") auto
    then have "length (dec (n div 10)) \<le> j"
      using 1 False by simp
    then show ?thesis using False k by (simp add: dec.simps [of n])
  qed
qed

lemma parse_u8_dec [simp]: "parse_u8 (dec (unat b)) = Some b"
proof -
  have "unat b < 256" using unsigned_less [of b] by simp
  moreover have "hd (dec (unat b)) \<noteq> CHR ''+''"
  proof
    assume "hd (dec (unat b)) = CHR ''+''"
    then have "is_digit CHR ''+''"
      using dec_roundtrip [of "unat b"] by (metis hd_in_set list.pred_set)
    then show False by (simp add: is_digit_def)
  qed
  ultimately show ?thesis
    using dec_roundtrip [of "unat b"] by (simp add: parse_u8_def)
qed

lemma read_octet_dec:
  assumes "n < 256" and "rest = [] \<or> \<not> is_digit (hd rest)"
  shows "read_octet (dec n @ rest) = Some (n, rest)"
proof -
  have d: "\<And>c. c \<in> set (dec n) \<Longrightarrow> is_digit c"
    using dec_roundtrip [of n] by (simp add: list.pred_set)
  have "takeWhile is_digit (dec n @ rest) = dec n"
    using d assms(2) by (cases rest) (auto simp: takeWhile_append)
  moreover have "dropWhile is_digit (dec n @ rest) = rest"
    using d assms(2) by (cases rest) (auto simp: dropWhile_append)
  moreover have "length (dec n) \<le> 3"
    using assms(1) by (intro length_dec) auto
  moreover have "n = 0 \<Longrightarrow> length (dec n) \<le> 1"
    by (simp add: dec.simps)
  ultimately show ?thesis
    using dec_roundtrip [of n] assms(1) by (auto simp: read_octet_def hd_dec Let_def)
qed

lemma octets_value: "256 * (256 * (256 * octet a 3 + octet a 2) + octet a 1) + octet a 0 = unat a"
proof -
  define u where "u = unat a"
  have "u < 4294967296" using unsigned_less [of a] by (simp add: u_def)
  then have "u div 16777216 < 256" by (simp add: div_less_iff_less_mult)
  then have o: "octet a 3 = u div 256 div 256 div 256" "octet a 2 = u div 256 div 256 mod 256"
    "octet a 1 = u div 256 mod 256" "octet a 0 = u mod 256"
    by (simp_all add: octet_def u_def flip: div_mult2_eq)
  show ?thesis unfolding o by (simp only: mult_div_mod_eq u_def)
qed

lemma v4_from_octets:
  assumes "a < 256" "b < 256" "c < 256" "d < 256"
  shows "v4_from_str (dec a @ ''.'' @ dec b @ ''.'' @ dec c @ ''.'' @ dec d) =
    Some (of_nat (256 * (256 * (256 * a + b) + c) + d))"
proof -
  have dot: "\<not> is_digit CHR ''.''" by (simp add: is_digit_def)
  have "read_octet (dec n @ CHR ''.'' # s) = Some (n, CHR ''.'' # s)" if "n < 256" for n s
    by (rule read_octet_dec [OF that]) (simp add: dot)
  moreover have "read_octet (dec d) = Some (d, [])"
    using read_octet_dec [OF assms(4), of "[]"] by simp
  ultimately show ?thesis
    using assms by (simp add: v4_from_str_def numeral_3_eq_3)
qed

lemma v4_text_roundtrip [simp]: "v4_from_str (v4_to_string a) = Some a"
proof -
  have o: "octet a i < 256" for i by (simp add: octet_def)
  show ?thesis unfolding v4_to_string_def v4_from_octets [OF o o o o] octets_value by simp
qed

text \<open>Text without white space at its ends is its own trimmed text.\<close>

lemma trim_id:
  assumes "s \<noteq> []" and "\<not> is_whitespace (hd s)" and "\<not> is_whitespace (last s)"
  shows "trim s = s"
proof -
  have "dropWhile is_whitespace r = r" if "r \<noteq> []" "\<not> is_whitespace (hd r)" for r
    using that by (cases r) auto
  then show ?thesis using assms by (simp add: trim_def hd_rev)
qed

lemma split_once_append: "c \<notin> set s \<Longrightarrow> split_once c (s @ c # t) = Some (s, t)"
proof -
  assume "c \<notin> set s"
  then have "\<And>d. d \<in> set s \<Longrightarrow> d \<noteq> c" by blast
  then have "takeWhile (\<lambda>d. d \<noteq> c) (s @ c # t) = s" "dropWhile (\<lambda>d. d \<noteq> c) (s @ c # t) = c # t"
    by (simp_all add: takeWhile_append2 dropWhile_append2)
  then show ?thesis by (simp add: split_once_def)
qed

lemma set_dec: "set (dec n) \<subseteq> {c. is_digit c}"
  using dec_roundtrip [of n] by (auto simp: list.pred_set)

lemma dec_ends: "\<not> is_whitespace (hd (dec n))" "\<not> is_whitespace (last (dec n))"
proof -
  have "\<not> is_whitespace c" if "c \<in> set (dec n)" for c
    using set_dec [of n] that by (auto simp: is_digit_def is_whitespace_def)
  then show "\<not> is_whitespace (hd (dec n))" "\<not> is_whitespace (last (dec n))"
    using dec_roundtrip [of n] by simp_all
qed

lemma ip_text_roundtrip:
  assumes "v6_text_ok show_v6 read_v6"
  shows "ip_from_str read_v6 (ip_to_string show_v6 a) = Some a"
  using assms by (cases a) (simp_all add: v6_text_ok_def ip_from_str_def)

end
