(* ===== verification/Network_Cidr.thy ===== *)
theory Network_Cidr
  imports Rust_Text "HOL-Library.Multiset" "HOL-Library.Sublist"
begin

text \<open>
  The CIDR blocks of \<open>src/network/defaults.rs\<close>, the binary prefix trie that counts which
  blocks overlap, and the choice of a default subnet. The trie refines a multiset of blocks:
  the locale \<open>overlap_index\<close> is that contract, and the choice of a subnet rests on it.
\<close>

unbundle bit_operations_syntax

section \<open>Blocks\<close>

datatype DefaultNetworkIpFamily = Default_Ipv4 | Default_Ipv6

primrec family_bits :: "DefaultNetworkIpFamily \<Rightarrow> u8" where
  "family_bits Default_Ipv4 = 32"
| "family_bits Default_Ipv6 = 128"

record CidrBlock =
  cb_family :: DefaultNetworkIpFamily
  cb_network :: u128
  cb_prefix :: u8

text \<open>Why a CIDR text is refused; the messages carry no state.\<close>

datatype CidrError = MissingDelimiter | PrefixNotANumber | BaseAddressInvalid | PrefixTooLong

definition normalize_network :: "u128 \<Rightarrow> u8 \<Rightarrow> u8 \<Rightarrow> u128" where
  "normalize_network v p bits =
     (if p = 0 then 0
      else let host_bits = saturating_sub bits p in v AND push_bit (unat host_bits) (NOT 0))"

definition CidrBlock_parse ::
  "(string \<Rightarrow> u128 option) \<Rightarrow> string \<Rightarrow> (CidrBlock, CidrError) result" where
  "CidrBlock_parse read_v6 raw = (case split_once (CHR ''/'') (trim raw) of
     None \<Rightarrow> Err MissingDelimiter
   | Some (base_text, prefix_text) \<Rightarrow>
     (case parse_u8 prefix_text of
        None \<Rightarrow> Err PrefixNotANumber
      | Some p \<Rightarrow>
        (case ip_from_str read_v6 base_text of
           None \<Rightarrow> Err BaseAddressInvalid
         | Some base \<Rightarrow>
           (let (family, raw_network) = (case base of
                  V4 a \<Rightarrow> (Default_Ipv4, ucast a) | V6 a \<Rightarrow> (Default_Ipv6, a)) in
            if family_bits family < p then Err PrefixTooLong
            else Ok \<lparr>cb_family = family,
                     cb_network = normalize_network raw_network p (family_bits family),
                     cb_prefix = p\<rparr>))))"

definition network_at_prefix :: "CidrBlock \<Rightarrow> u8 \<Rightarrow> u128" where
  "network_at_prefix b p = normalize_network (cb_network b) p (family_bits (cb_family b))"

definition overlaps :: "CidrBlock \<Rightarrow> CidrBlock \<Rightarrow> bool" where
  "overlaps b b' \<longleftrightarrow> cb_family b = cb_family b' \<and>
     (let p = min (cb_prefix b) (cb_prefix b') in network_at_prefix b p = network_at_prefix b' p)"

definition bit_at :: "CidrBlock \<Rightarrow> u8 \<Rightarrow> usize" where
  "bit_at b depth =
     (let shift = saturating_sub (saturating_sub (family_bits (cb_family b)) 1) depth
      in ucast (drop_bit (unat shift) (cb_network b) AND 1))"

section \<open>The trie\<close>

datatype CidrTrieNode = CidrTrieNode (exact_count: usize) (subtree_count: usize)
  (zero: "CidrTrieNode option") (one: "CidrTrieNode option")

definition CidrTrieNode_default :: CidrTrieNode where
  "CidrTrieNode_default = CidrTrieNode 0 0 None None"

primrec add_exact :: "CidrTrieNode \<Rightarrow> CidrTrieNode" where
  "add_exact (CidrTrieNode e s z u) = CidrTrieNode (saturating_add e 1) s z u"

primrec add_subtree :: "CidrTrieNode \<Rightarrow> CidrTrieNode" where
  "add_subtree (CidrTrieNode e s z u) = CidrTrieNode e (saturating_add s 1) z u"

definition child_slot :: "CidrTrieNode \<Rightarrow> usize \<Rightarrow> CidrTrieNode option" where
  "child_slot node b = (if b = 0 then zero node else one node)"

text \<open>Writing through the reference that \<open>child_slot_mut\<close> returns.\<close>

primrec child_slot_mut :: "CidrTrieNode \<Rightarrow> usize \<Rightarrow> CidrTrieNode option \<Rightarrow> CidrTrieNode" where
  "child_slot_mut (CidrTrieNode e s z u) b child =
     (if b = 0 then CidrTrieNode e s child u else CidrTrieNode e s z child)"

text \<open>
  The loop of \<open>insert\<close> from \<open>depth\<close> on, with the number of levels that are left. The cursor
  \<open>node\<close> of the source is the node that the recursion rebuilds.
\<close>

fun insert_path :: "CidrTrieNode \<Rightarrow> CidrBlock \<Rightarrow> u8 \<Rightarrow> nat \<Rightarrow> CidrTrieNode" where
  "insert_path node b depth 0 = add_exact node"
| "insert_path node b depth (Suc k) =
     (let child = (case child_slot node (bit_at b depth) of
          None \<Rightarrow> CidrTrieNode_default | Some child \<Rightarrow> child)
      in child_slot_mut node (bit_at b depth)
           (Some (insert_path (add_subtree child) b (depth + 1) k)))"

definition trie_insert :: "CidrTrieNode \<Rightarrow> CidrBlock \<Rightarrow> CidrTrieNode" where
  "trie_insert root b = insert_path (add_subtree root) b 0 (unat (cb_prefix b))"

fun overlap_path :: "CidrTrieNode \<Rightarrow> CidrBlock \<Rightarrow> u8 \<Rightarrow> nat \<Rightarrow> usize \<Rightarrow> usize" where
  "overlap_path node b depth 0 c =
     saturating_add c (saturating_sub (subtree_count node) (exact_count node))"
| "overlap_path node b depth (Suc k) c =
     (case child_slot node (bit_at b depth) of
        None \<Rightarrow> c
      | Some child \<Rightarrow> overlap_path child b (depth + 1) k (saturating_add c (exact_count child)))"

definition trie_overlap_count :: "CidrTrieNode \<Rightarrow> CidrBlock \<Rightarrow> usize" where
  "trie_overlap_count root b = overlap_path root b 0 (unat (cb_prefix b)) (exact_count root)"

function (sequential) remove_from_trie :: "CidrTrieNode \<Rightarrow> CidrBlock \<Rightarrow> u8 \<Rightarrow> bool \<times> CidrTrieNode"
  and remove_from_child ::
    "CidrTrieNode option \<Rightarrow> CidrBlock \<Rightarrow> u8 \<Rightarrow> bool \<times> CidrTrieNode option" where
  "remove_from_trie (CidrTrieNode e s z u) b depth =
     (if depth = cb_prefix b then
        (if e = 0 then (False, CidrTrieNode e s z u)
         else (True, CidrTrieNode (saturating_sub e 1) (saturating_sub s 1) z u))
      else if bit_at b depth = 0 then
        (let (removed, z') = remove_from_child z b (saturating_add depth 1)
         in (removed, CidrTrieNode e (if removed then saturating_sub s 1 else s) z' u))
      else
        (let (removed, u') = remove_from_child u b (saturating_add depth 1)
         in (removed, CidrTrieNode e (if removed then saturating_sub s 1 else s) z u')))"
| "remove_from_child None b depth = (False, None)"
| "remove_from_child (Some child) b depth =
     (let (removed, child') = remove_from_trie child b depth
      in (removed, if removed \<and> subtree_count child' = 0 then None else Some child'))"
  by pat_completeness auto

termination
  by (relation "measure (case_sum (\<lambda>(n, _, _). size n) (\<lambda>(c, _, _). size_option size c))") auto

section \<open>The index\<close>

record CidrOverlapIndex =
  ix_ipv4 :: CidrTrieNode
  ix_ipv6 :: CidrTrieNode

definition CidrOverlapIndex_new :: CidrOverlapIndex where
  "CidrOverlapIndex_new = \<lparr>ix_ipv4 = CidrTrieNode_default, ix_ipv6 = CidrTrieNode_default\<rparr>"

primrec index_trie :: "CidrOverlapIndex \<Rightarrow> DefaultNetworkIpFamily \<Rightarrow> CidrTrieNode" where
  "index_trie ix Default_Ipv4 = ix_ipv4 ix"
| "index_trie ix Default_Ipv6 = ix_ipv6 ix"

primrec index_trie_mut ::
  "CidrOverlapIndex \<Rightarrow> DefaultNetworkIpFamily \<Rightarrow> CidrTrieNode \<Rightarrow> CidrOverlapIndex" where
  "index_trie_mut ix Default_Ipv4 t = ix\<lparr>ix_ipv4 := t\<rparr>"
| "index_trie_mut ix Default_Ipv6 t = ix\<lparr>ix_ipv6 := t\<rparr>"

definition index_insert :: "CidrOverlapIndex \<Rightarrow> CidrBlock \<Rightarrow> CidrOverlapIndex" where
  "index_insert ix b =
     index_trie_mut ix (cb_family b) (trie_insert (index_trie ix (cb_family b)) b)"

definition index_remove :: "CidrOverlapIndex \<Rightarrow> CidrBlock \<Rightarrow> CidrOverlapIndex" where
  "index_remove ix b =
     index_trie_mut ix (cb_family b) (snd (remove_from_trie (index_trie ix (cb_family b)) b 0))"

definition index_overlap_count :: "CidrOverlapIndex \<Rightarrow> CidrBlock \<Rightarrow> usize" where
  "index_overlap_count ix b = trie_overlap_count (index_trie ix (cb_family b)) b"

definition insert_cidr :: "(string \<Rightarrow> u128 option) \<Rightarrow> CidrOverlapIndex \<Rightarrow> string
    \<Rightarrow> (CidrBlock, CidrError) result \<times> CidrOverlapIndex" where
  "insert_cidr read_v6 ix cidr = (case CidrBlock_parse read_v6 cidr of
     Inl e \<Rightarrow> (Err e, ix) | Inr b \<Rightarrow> (Ok b, index_insert ix b))"

definition overlaps_cidr :: "(string \<Rightarrow> u128 option) \<Rightarrow> CidrOverlapIndex \<Rightarrow> string \<Rightarrow> bool" where
  "overlaps_cidr read_v6 ix cidr = (case CidrBlock_parse read_v6 cidr of
     Inl e \<Rightarrow> False | Inr b \<Rightarrow> 0 < index_overlap_count ix b)"

section \<open>Default subnets\<close>

definition DEFAULT_NETWORK_SUBNET_PREFIX_V4 :: u8 where
  "DEFAULT_NETWORK_SUBNET_PREFIX_V4 = 20"

definition DEFAULT_NETWORK_SUBNET_CANDIDATES_V4 :: u32 where
  "DEFAULT_NETWORK_SUBNET_CANDIDATES_V4 = push_bit 12 1"

definition DEFAULT_NETWORK_SUBNET_PREFIX_V6 :: u8 where
  "DEFAULT_NETWORK_SUBNET_PREFIX_V6 = 64"

definition DEFAULT_NETWORK_SUBNET_CANDIDATES_V6 :: u32 where
  "DEFAULT_NETWORK_SUBNET_CANDIDATES_V6 = push_bit 16 1"

text \<open>\<open>blake3\<close> is the digest of the hashed bytes, and \<open>bytes\<close> the UTF-8 bytes of a string.\<close>

definition u32_from_le_bytes :: "u8 list \<Rightarrow> u32" where
  "u32_from_le_bytes bs = foldr (\<lambda>b acc. ucast b + 256 * acc) bs 0"

definition default_network_subnet_hash ::
  "(u8 list \<Rightarrow> u8 list) \<Rightarrow> (string \<Rightarrow> u8 list) \<Rightarrow> string \<Rightarrow> u32" where
  "default_network_subnet_hash blake3 bytes name = u32_from_le_bytes (take 4 (blake3 (bytes name)))"

primrec default_network_subnet_candidate_count :: "DefaultNetworkIpFamily \<Rightarrow> u32" where
  "default_network_subnet_candidate_count Default_Ipv4 = DEFAULT_NETWORK_SUBNET_CANDIDATES_V4"
| "default_network_subnet_candidate_count Default_Ipv6 = DEFAULT_NETWORK_SUBNET_CANDIDATES_V6"

definition default_network_subnet_candidate_v4 :: "u32 \<Rightarrow> u32 \<Rightarrow> string" where
  "default_network_subnet_candidate_v4 hash offset =
     (let seed = hash AND (DEFAULT_NETWORK_SUBNET_CANDIDATES_V4 - 1);
          bucket = (seed + offset) AND (DEFAULT_NETWORK_SUBNET_CANDIDATES_V4 - 1);
          second_octet = ucast (drop_bit 4 bucket) :: u8;
          third_octet = ucast (push_bit 4 (bucket AND 15)) :: u8
      in ''10.'' @ dec (unat second_octet) @ ''.'' @ dec (unat third_octet) @ ''.0/'' @
         dec (unat DEFAULT_NETWORK_SUBNET_PREFIX_V4))"

definition default_network_subnet_candidate_v6 :: "u32 \<Rightarrow> u32 \<Rightarrow> string" where
  "default_network_subnet_candidate_v6 hash offset =
     (let group = ucast (drop_bit 16 hash) :: 16 word;
          seed = ucast hash :: 16 word;
          bucket = seed + ucast offset
      in ''fd42:'' @ hex4 group @ '':'' @ hex4 bucket @ ''::/'' @
         dec (unat DEFAULT_NETWORK_SUBNET_PREFIX_V6))"

primrec default_network_subnet_candidate :: "DefaultNetworkIpFamily \<Rightarrow> u32 \<Rightarrow> u32 \<Rightarrow> string" where
  "default_network_subnet_candidate Default_Ipv4 hash offset =
     default_network_subnet_candidate_v4 hash offset"
| "default_network_subnet_candidate Default_Ipv6 hash offset =
     default_network_subnet_candidate_v6 hash offset"

text \<open>The loop over the offsets, with the number of candidates that are left.\<close>

fun first_candidate :: "(u32 \<Rightarrow> string) \<Rightarrow> (string \<Rightarrow> bool) \<Rightarrow> u32 \<Rightarrow> nat \<Rightarrow> string option" where
  "first_candidate candidate has_conflict offset 0 = None"
| "first_candidate candidate has_conflict offset (Suc k) =
     (if \<not> has_conflict (candidate offset) then Some (candidate offset)
      else first_candidate candidate has_conflict (offset + 1) k)"

definition default_network_subnet_with_conflict_check ::
  "(u8 list \<Rightarrow> u8 list) \<Rightarrow> (string \<Rightarrow> u8 list) \<Rightarrow> string \<Rightarrow> DefaultNetworkIpFamily
    \<Rightarrow> (string \<Rightarrow> bool) \<Rightarrow> string option" where
  "default_network_subnet_with_conflict_check blake3 bytes name family has_conflict =
     first_candidate
       (default_network_subnet_candidate family (default_network_subnet_hash blake3 bytes name))
       has_conflict 0 (unat (default_network_subnet_candidate_count family))"

definition default_network_subnet ::
  "(string \<Rightarrow> u128 option) \<Rightarrow> (u8 list \<Rightarrow> u8 list) \<Rightarrow> (string \<Rightarrow> u8 list) \<Rightarrow> string
    \<Rightarrow> string list \<Rightarrow> DefaultNetworkIpFamily \<Rightarrow> string option" where
  "default_network_subnet read_v6 blake3 bytes name existing_subnets family =
     (let used = fold (\<lambda>subnet ix. snd (insert_cidr read_v6 ix subnet)) existing_subnets
          CidrOverlapIndex_new
      in default_network_subnet_with_conflict_check blake3 bytes name family
           (overlaps_cidr read_v6 used))"

section \<open>Specification\<close>

text \<open>
  A block is the bit string of its prefix. A node represents the multiset of bit strings that
  end below it, and a trie keeps no empty child.
\<close>

definition path_from :: "CidrBlock \<Rightarrow> u8 \<Rightarrow> nat \<Rightarrow> bool list" where
  "path_from b depth k = map (\<lambda>i. bit_at b (depth + of_nat i) \<noteq> 0) [0..<k]"

definition block_path :: "CidrBlock \<Rightarrow> bool list" where
  "block_path b = path_from b 0 (unat (cb_prefix b))"

primrec paths :: "CidrTrieNode \<Rightarrow> bool list multiset"
  and slot_paths :: "CidrTrieNode option \<Rightarrow> bool list multiset" where
  "paths (CidrTrieNode e s z u) = replicate_mset (unat e) []
     + image_mset (Cons False) (slot_paths z) + image_mset (Cons True) (slot_paths u)"
| "slot_paths None = {#}"
| "slot_paths (Some n) = paths n"

primrec children_ok :: "CidrTrieNode \<Rightarrow> bool" and slot_ok :: "CidrTrieNode option \<Rightarrow> bool" where
  "children_ok (CidrTrieNode e s z u) \<longleftrightarrow> slot_ok z \<and> slot_ok u"
| "slot_ok None \<longleftrightarrow> True"
| "slot_ok (Some n) \<longleftrightarrow> children_ok n \<and> unat (subtree_count n) = size (paths n) \<and> paths n \<noteq> {#}"

definition trie_ok :: "CidrTrieNode \<Rightarrow> bool" where
  "trie_ok n \<longleftrightarrow> children_ok n \<and> unat (subtree_count n) = size (paths n)"

definition comparable :: "'a list \<Rightarrow> 'a list \<Rightarrow> bool" where
  "comparable p q \<longleftrightarrow> prefix p q \<or> prefix q p"

text \<open>The blocks that \<open>CidrBlock::parse\<close> builds: a prefix of the family and no host bits.\<close>

definition block_wf :: "CidrBlock \<Rightarrow> bool" where
  "block_wf b \<longleftrightarrow> cb_prefix b \<le> family_bits (cb_family b)
     \<and> (\<forall>i. bit (cb_network b) i \<longrightarrow>
          unat (family_bits (cb_family b)) - unat (cb_prefix b) \<le> i
          \<and> i < unat (family_bits (cb_family b)))"

definition index_represents :: "CidrOverlapIndex \<Rightarrow> CidrBlock multiset \<Rightarrow> bool" where
  "index_represents ix bs \<longleftrightarrow> (\<forall>b \<in># bs. block_wf b) \<and>
     (\<forall>f. trie_ok (index_trie ix f) \<and>
        paths (index_trie ix f) = image_mset block_path (filter_mset (\<lambda>b. cb_family b = f) bs))"

definition removes :: "bool list \<Rightarrow> bool list multiset \<Rightarrow> bool \<Rightarrow> bool list multiset \<Rightarrow> bool" where
  "removes p m removed m' \<longleftrightarrow> removed = (p \<in># m) \<and> m' = m - {#p#}"

text \<open>
  What CIDR notation means, as numbers and without the code's masks: the addresses of
  \<open>base/p\<close> are the aligned range of \<open>2 ^ (bits - p)\<close> numbers around \<open>base\<close>. The base is the
  address as it is written, with or without host bits.
\<close>

definition cidr_range :: "DefaultNetworkIpFamily \<Rightarrow> u8 \<Rightarrow> nat \<Rightarrow> nat set" where
  "cidr_range f p base =
     (let size = 2 ^ (unat (family_bits f) - unat p)
      in {base div size * size ..< base div size * size + size})"

definition text_addresses ::
  "(string \<Rightarrow> u128 option) \<Rightarrow> string \<Rightarrow> (DefaultNetworkIpFamily \<times> nat set) option" where
  "text_addresses read_v6 raw = (case split_once (CHR ''/'') (trim raw) of
     None \<Rightarrow> None
   | Some (base_text, prefix_text) \<Rightarrow>
     (case (parse_u8 prefix_text, ip_from_str read_v6 base_text) of
        (Some p, Some (V4 a)) \<Rightarrow>
          if unat p \<le> 32 then Some (Default_Ipv4, cidr_range Default_Ipv4 p (unat a)) else None
      | (Some p, Some (V6 a)) \<Rightarrow>
          if unat p \<le> 128 then Some (Default_Ipv6, cidr_range Default_Ipv6 p (unat a)) else None
      | _ \<Rightarrow> None))"

text \<open>The 4096 blocks \<open>10.x.y.0/20\<close>, by number.\<close>

definition default_block_v4 :: "nat \<Rightarrow> CidrBlock" where
  "default_block_v4 n =
     \<lparr>cb_family = Default_Ipv4, cb_network = of_nat (10 * 2 ^ 24 + n mod 4096 * 2 ^ 12), cb_prefix = 20\<rparr>"

text \<open>The blocks of the subnet texts that parse.\<close>

definition parsed_blocks :: "(string \<Rightarrow> u128 option) \<Rightarrow> string list \<Rightarrow> CidrBlock list" where
  "parsed_blocks read_v6 ss = concat (map (\<lambda>s. case CidrBlock_parse read_v6 s of
     Inl e \<Rightarrow> [] | Inr b \<Rightarrow> [b]) ss)"

section \<open>The trie as a multiset of paths\<close>

lemma path_from_Suc [simp]:
  "path_from b d (Suc k) = (bit_at b d \<noteq> 0) # path_from b (d + 1) k"
  by (simp add: path_from_def map_upt_Suc add.assoc del: upt_Suc)

lemma path_from_0 [simp]: "path_from b d 0 = []"
  by (simp add: path_from_def)

lemma length_path_from [simp]: "length (path_from b d k) = k"
  by (simp add: path_from_def)

lemma subtree_add_exact [simp]:
  "subtree_count (add_exact n) = subtree_count n"
  "subtree_count (child_slot_mut n x c) = subtree_count n"
  "paths (add_subtree n) = paths n" "children_ok (add_subtree n) = children_ok n"
  "children_ok (add_exact n) = children_ok n"
  by (cases n; simp)+

lemma unat_add_1: "unat x + 1 < 2 ^ 64 \<Longrightarrow> unat (saturating_add x 1) = unat x + 1" for x :: usize
  by (simp add: unat_saturating_add)

lemma exact_le_size: "unat (exact_count n) \<le> size (paths n)"
  by (cases n) simp

lemma paths_add_exact:
  assumes "size (paths n) + 1 < 2 ^ 64"
  shows "paths (add_exact n) = add_mset [] (paths n)"
proof (cases n)
  case (CidrTrieNode e s z u)
  then have "unat e + 1 < 2 ^ 64" using assms exact_le_size [of n] by simp
  then show ?thesis using CidrTrieNode by (simp add: unat_add_1)
qed

lemma child_paths_size:
  assumes "child_slot n x = Some c"
  shows "size (paths c) \<le> size (paths n)"
  using assms by (cases n) (auto simp: child_slot_def split: if_splits)

lemma slot_ok_child: "children_ok n \<Longrightarrow> slot_ok (child_slot n x)"
  by (cases n) (simp add: child_slot_def)

text \<open>Replacing the child of a node by one that represents one more path.\<close>

lemma paths_child_slot_mut:
  assumes "paths c = add_mset p (slot_paths (child_slot n x))"
  shows "paths (child_slot_mut n x (Some c)) = add_mset ((x \<noteq> 0) # p) (paths n)"
  using assms by (cases n) (simp add: child_slot_def)

lemma insert_path_paths:
  assumes "children_ok n" and "size (paths n) + 1 < 2 ^ 64"
  shows "children_ok (insert_path n b d k) \<and> paths (insert_path n b d k) = add_mset (path_from b d k) (paths n)
    \<and> subtree_count (insert_path n b d k) = subtree_count n"
  using assms
proof (induction n b d k rule: insert_path.induct)
  case (1 n b d)
  then show ?case by (simp add: paths_add_exact)
next
  case (2 n b d k)
  let ?x = "bit_at b d"
  define c where "c = (case child_slot n ?x of None \<Rightarrow> CidrTrieNode_default | Some c \<Rightarrow> c)"
  have c: "paths c = slot_paths (child_slot n ?x)" "children_ok c"
      "unat (subtree_count c) = size (paths c)" "size (paths c) \<le> size (paths n)"
    using slot_ok_child [OF 2(2), of ?x] child_paths_size [of n ?x]
    by (auto simp: c_def CidrTrieNode_default_def split: option.split)
  have sub: "unat (subtree_count (add_subtree c)) = size (paths c) + 1"
    using c(3,4) 2(3) by (cases c) (simp add: unat_add_1)
  let ?c' = "insert_path (add_subtree c) b (d + 1) k"
  have IH: "children_ok ?c'" "paths ?c' = add_mset (path_from b (d + 1) k) (paths c)"
      "subtree_count ?c' = subtree_count (add_subtree c)"
    using 2(1) [OF c_def] c 2(3) by simp_all
  have "children_ok (child_slot_mut n ?x (Some ?c'))"
    using IH sub 2(2) by (cases n) simp
  moreover have "paths (child_slot_mut n ?x (Some ?c')) = add_mset (path_from b d (Suc k)) (paths n)"
    using paths_child_slot_mut [of ?c' "path_from b (d + 1) k" n ?x] IH(2) c(1) by simp
  ultimately show ?case by (simp add: c_def Let_def)
qed

lemma trie_insert_paths:
  assumes "trie_ok n" and "size (paths n) + 1 < 2 ^ 64"
  shows "trie_ok (trie_insert n b) \<and> paths (trie_insert n b) = add_mset (block_path b) (paths n)"
proof -
  have "unat (subtree_count (add_subtree n)) = size (paths n) + 1"
    using assms by (cases n) (simp add: trie_ok_def unat_add_1)
  then show ?thesis
    using insert_path_paths [of "add_subtree n" b 0 "unat (cb_prefix b)"] assms
    by (simp add: trie_ok_def trie_insert_def block_path_def)
qed

lemma comparable_simps [simp]:
  "comparable [] q" "comparable p []"
  "comparable (x # p) (y # q) \<longleftrightarrow> x = y \<and> comparable p q"
  by (auto simp: comparable_def)

lemma filter_replicate_Nil [simp]:
  "filter_mset (comparable p) (replicate_mset k []) = replicate_mset k []"
  by (induction k) auto

lemma comparable_sym: "comparable p q \<longleftrightarrow> comparable q p"
  by (auto simp: comparable_def)

text \<open>The paths below a node that are comparable to a path into it.\<close>

lemma filter_image_Cons:
  "filter_mset (comparable (x # p)) (image_mset (Cons y) m) =
     (if x = y then image_mset (Cons y) (filter_mset (comparable p) m) else {#})"
  by (auto simp: filter_mset_image_mset)

lemma comparable_step:
  "filter_mset (comparable ((x \<noteq> 0) # p)) (paths n) =
     replicate_mset (unat (exact_count n)) []
     + image_mset (Cons (x \<noteq> 0)) (filter_mset (comparable p) (slot_paths (child_slot n x)))"
  for x :: usize
  by (cases n) (simp add: filter_image_Cons child_slot_def)

lemma overlap_path_count:
  assumes "children_ok n" and "unat (subtree_count n) = size (paths n)"
    and "unat c + size (filter_mset (comparable (path_from b d k)) (paths n))
      < 2 ^ 64 + unat (exact_count n)"
  shows "unat (overlap_path n b d k c) + unat (exact_count n) =
    unat c + size (filter_mset (comparable (path_from b d k)) (paths n))"
  using assms
proof (induction n b d k c rule: overlap_path.induct)
  case (1 n b d c)
  then show ?case
    using exact_le_size [of n] by (simp add: unat_saturating_add unat_saturating_sub)
next
  case (2 n b d k c)
  show ?case
  proof (cases "child_slot n (bit_at b d)")
    case None
    then show ?thesis by (simp add: comparable_step)
  next
    case (Some child)
    then have child: "children_ok child" "unat (subtree_count child) = size (paths child)"
      using slot_ok_child [OF 2(2), of "bit_at b d"] by simp_all
    let ?m = "filter_mset (comparable (path_from b (d + 1) k)) (paths child)"
    have bound: "unat c + size ?m < 2 ^ 64"
      using 2(4) Some by (simp add: comparable_step)
    have "unat (exact_count child) \<le> size ?m"
    proof (cases child)
      case (CidrTrieNode e s z u)
      then show ?thesis by simp
    qed
    then have "unat (saturating_add c (exact_count child)) = unat c + unat (exact_count child)"
      using bound by (simp add: unat_saturating_add)
    then show ?thesis
      using 2(1) [OF Some child] bound Some by (simp add: comparable_step)
  qed
qed

lemma trie_overlap_count_paths:
  assumes "trie_ok n"
  shows "unat (trie_overlap_count n b) = size (filter_mset (comparable (block_path b)) (paths n))"
proof -
  have "size (filter_mset (comparable (block_path b)) (paths n)) \<le> size (paths n)"
    by (simp add: size_filter_mset_lesseq)
  moreover have "unat (subtree_count n) < 2 ^ 64"
    using unsigned_less [of "subtree_count n"] by simp
  ultimately have "size (filter_mset (comparable (block_path b)) (paths n)) < 2 ^ 64"
    using assms unfolding trie_ok_def by linarith
  then show ?thesis
    using overlap_path_count [of n "exact_count n" b 0 "unat (cb_prefix b)"] assms
    by (simp add: trie_ok_def trie_overlap_count_def block_path_def)
qed

text \<open>
  Removing a path from a trie: the answer says whether it was there, and a child that becomes
  empty is pruned.
\<close>

lemma unat_sub_1: "x \<noteq> 0 \<Longrightarrow> unat (saturating_sub x 1) = unat x - 1" for x :: usize
  by (simp add: unat_saturating_sub)

lemma removes_iff:
  "removes p m removed m' \<longleftrightarrow> (if removed then m = add_mset p m' else m' = m \<and> p \<notin># m)"
  by (auto simp: removes_def diff_single_trivial)

lemma removes_child:
  "removes p (slot_paths z) removed (slot_paths z') \<Longrightarrow>
     removes (False # p) (paths (CidrTrieNode e s z u)) removed (paths (CidrTrieNode e s' z' u))"
  "removes p (slot_paths u) removed (slot_paths u') \<Longrightarrow>
     removes (True # p) (paths (CidrTrieNode e s z u)) removed (paths (CidrTrieNode e s' z u'))"
  by (auto simp: removes_iff split: if_splits)

lemma removes_exact:
  "e \<noteq> 0 \<Longrightarrow> removes [] (paths (CidrTrieNode e s z u)) True (paths (CidrTrieNode (saturating_sub e 1) s' z u))"
proof -
  assume "e \<noteq> 0"
  then obtain k where "unat e = Suc k"
    by (metis not0_implies_Suc unat_eq_zero)
  then show ?thesis by (simp add: removes_iff unat_saturating_sub)
qed

lemma removes_size: "removes p m removed m' \<Longrightarrow> size m = size m' + of_bool removed"
  by (auto simp: removes_iff split: if_splits)

lemma subtree_removed:
  assumes "removes p m removed m'" and "unat s = size m"
  shows "unat (if removed then saturating_sub s 1 else s) = size m'"
  using removes_size [OF assms(1)] assms(2) by (cases removed) (simp_all add: unat_saturating_sub)

lemma depth_step:
  fixes d p :: u8
  assumes "unat d \<le> unat p" and "d \<noteq> p"
  shows "unat (saturating_add d 1) = unat d + 1" "unat (d + 1) = unat d + 1"
    "saturating_add d 1 = d + 1"
proof -
  have "unat d + 1 \<le> unat p" "unat p < 256"
    using assms unsigned_less [of p] by (simp_all add: word_unat_eq_iff)
  then have "unat d + 1 < 256" by linarith
  then show "unat (saturating_add d 1) = unat d + 1" "unat (d + 1) = unat d + 1"
      "saturating_add d 1 = d + 1"
    by (simp_all add: unat_saturating_add saturating_add_def unat_word_ariths)
qed

lemma path_from_step:
  assumes "unat d \<le> unat (cb_prefix b)" and "d \<noteq> cb_prefix b"
  shows "path_from b d (unat (cb_prefix b) - unat d) =
    (bit_at b d \<noteq> 0) # path_from b (d + 1) (unat (cb_prefix b) - unat (d + 1))"
proof -
  have "unat d \<noteq> unat (cb_prefix b)" using assms(2) by (simp add: word_unat_eq_iff)
  then have "unat (cb_prefix b) - unat d = Suc (unat (cb_prefix b) - unat (d + 1))"
    using assms depth_step [OF assms] by linarith
  then show ?thesis by simp
qed

lemma remove_here:
  assumes "e \<noteq> 0" and "unat s = size (paths (CidrTrieNode e s z u))"
    and n': "n' = CidrTrieNode (saturating_sub e 1) (saturating_sub s 1) z u"
  shows "unat (subtree_count n') = size (paths n')"
    and "removes [] (paths (CidrTrieNode e s z u)) True (paths n')"
proof -
  show r: "removes [] (paths (CidrTrieNode e s z u)) True (paths n')"
    unfolding n' by (rule removes_exact [OF assms(1)])
  show "unat (subtree_count n') = size (paths n')"
    using subtree_removed [OF r assms(2)] by (simp add: n')
qed

lemma remove_below:
  assumes "slot_ok z" and "slot_ok u" and "slot_ok c'"
    and "unat s = size (paths (CidrTrieNode e s z u))"
    and "removes p (slot_paths (child_slot (CidrTrieNode e s z u) x)) removed (slot_paths c')"
    and n': "n' = child_slot_mut (CidrTrieNode e (if removed then saturating_sub s 1 else s) z u) x c'"
  shows "children_ok n' \<and> unat (subtree_count n') = size (paths n')
     \<and> removes ((x \<noteq> 0) # p) (paths (CidrTrieNode e s z u)) removed (paths n')"
proof -
  have r: "removes ((x \<noteq> 0) # p) (paths (CidrTrieNode e s z u)) removed (paths n')"
    using assms(5) by (cases "x = 0") (auto simp: n' child_slot_def intro: removes_child [simplified])
  show ?thesis
    using subtree_removed [OF r assms(4)] r assms(1-3) by (simp add: n')
qed

lemma remove_from_trie_paths:
  "children_ok n \<Longrightarrow> unat (subtree_count n) = size (paths n) \<Longrightarrow> unat d \<le> unat (cb_prefix b) \<Longrightarrow>
     remove_from_trie n b d = (removed, n') \<Longrightarrow>
     children_ok n' \<and> unat (subtree_count n') = size (paths n')
     \<and> removes (path_from b d (unat (cb_prefix b) - unat d)) (paths n) removed (paths n')"
  "slot_ok c \<Longrightarrow> unat d \<le> unat (cb_prefix b) \<Longrightarrow> remove_from_child c b d = (removed, c') \<Longrightarrow>
     slot_ok c'
     \<and> removes (path_from b d (unat (cb_prefix b) - unat d)) (slot_paths c) removed (slot_paths c')"
proof (induction n b d and c b d arbitrary: removed n' and removed c'
    rule: remove_from_trie_remove_from_child.induct)
  case (1 e s z u b d)
  show ?case
  proof (cases "d = cb_prefix b")
    case True
    then consider "e = 0" "\<not> removed" "n' = CidrTrieNode e s z u"
      | "e \<noteq> 0" "removed" "n' = CidrTrieNode (saturating_sub e 1) (saturating_sub s 1) z u"
      using 1(6) by (cases "e = 0") auto
    then show ?thesis
    proof cases
      case 1
      then show ?thesis using "1.prems" True by (auto simp: removes_iff)
    next
      case 2
      have "unat s = size (paths (CidrTrieNode e s z u))" using 1(4) by simp
      from remove_here [OF 2(1) this 2(3)] show ?thesis using 2 1(3) True by simp
    qed
  next
    case False
    let ?x = "bit_at b d" and ?n = "CidrTrieNode e s z u"
    note step = path_from_step [OF 1(5) False] depth_step [OF 1(5) False]
    have d: "unat (d + 1) \<le> unat (cb_prefix b)"
      using 1(5) False step(3)
      by (metis Suc_eq_plus1 le_neq_implies_less less_eq_Suc_le word_unat_eq_iff)
    obtain c' where c': "remove_from_child (child_slot ?n ?x) b (d + 1) = (removed, c')"
      and n': "n' = child_slot_mut (CidrTrieNode e (if removed then saturating_sub s 1 else s) z u) ?x c'"
      using 1(6) False step(4) by (auto simp: Let_def child_slot_def split: prod.splits if_splits)
    have "slot_ok c' \<and> removes (path_from b (d + 1) (unat (cb_prefix b) - unat (d + 1)))
        (slot_paths (child_slot ?n ?x)) removed (slot_paths c')"
      using 1(1,2) [OF False, unfolded step(4)] 1(3) d c' by (auto simp: child_slot_def split: if_splits)
    then show ?thesis
      using remove_below [OF _ _ _ _ _ n'] 1(3,4) unfolding step(1) by fastforce
  qed
next
  case (2 b d)
  then show ?case by (simp add: removes_def)
next
  case (3 child b d)
  obtain child' where child': "remove_from_trie child b d = (removed, child')"
    and c': "c' = (if removed \<and> subtree_count child' = 0 then None else Some child')"
    using 3(4) by (auto simp: Let_def split: prod.splits)
  have IH: "children_ok child' \<and> unat (subtree_count child') = size (paths child')
     \<and> removes (path_from b d (unat (cb_prefix b) - unat d)) (paths child) removed (paths child')"
    using 3(1) [OF _ _ 3(3) child'] 3(2) by simp
  have "subtree_count child' = 0 \<longleftrightarrow> paths child' = {#}"
    using IH by (metis size_eq_0_iff_empty unat_eq_zero)
  then show ?case
    using IH 3(2) by (auto simp: c' removes_iff split: if_splits)
qed

lemma trie_remove_paths:
  assumes "trie_ok n" and "remove_from_trie n b 0 = (removed, n')"
  shows "trie_ok n' \<and> removed = (block_path b \<in># paths n) \<and> paths n' = paths n - {#block_path b#}"
  using remove_from_trie_paths(1) [of n 0 b removed n'] assms
  by (simp add: trie_ok_def block_path_def removes_def)

section \<open>Blocks and their paths\<close>

lemma unat_family_bits: "unat (family_bits f) = (case f of Default_Ipv4 \<Rightarrow> 32 | Default_Ipv6 \<Rightarrow> 128)"
  by (cases f) simp_all

lemma bit_normalize:
  assumes "p \<noteq> 0"
  shows "bit (normalize_network v p bits) i \<longleftrightarrow> bit v i \<and> unat bits - unat p \<le> i \<and> i < 128"
  using assms by (auto simp: normalize_network_def bit_and_iff bit_push_bit_iff unat_saturating_sub
      bit_not_iff bit_mask_iff dest: bit_imp_le_length)

lemma bit_at_nz:
  assumes "unat d < unat (family_bits (cb_family b))"
  shows "bit_at b d \<noteq> 0 \<longleftrightarrow> bit (cb_network b) (unat (family_bits (cb_family b)) - 1 - unat d)"
proof -
  let ?s = "unat (family_bits (cb_family b)) - 1 - unat d"
  have "bit_at b d = ucast (drop_bit ?s (cb_network b) AND 1)"
    by (simp add: bit_at_def Let_def unat_saturating_sub)
  also have "drop_bit ?s (cb_network b) AND 1 = of_bool (bit (cb_network b) ?s)"
    by (simp add: and_one_eq mod_2_eq_odd bit_iff_odd_drop_bit)
  finally show ?thesis by simp
qed

lemma block_path_nth:
  assumes "block_wf b" and "i < unat (cb_prefix b)"
  shows "block_path b ! i \<longleftrightarrow> bit (cb_network b) (unat (family_bits (cb_family b)) - 1 - i)"
proof -
  have p: "unat (cb_prefix b) \<le> unat (family_bits (cb_family b))"
    using assms(1) by (simp add: block_wf_def word_le_nat_alt)
  have "unat (cb_prefix b) < 256" using unsigned_less [of "cb_prefix b"] by simp
  then have "unat (of_nat i :: u8) = i"
    using assms(2) by (simp add: unat_of_nat)
  then show ?thesis
    using assms(2) p bit_at_nz [of "of_nat i" b] by (simp add: block_path_def path_from_def)
qed

lemma length_block_path [simp]: "length (block_path b) = unat (cb_prefix b)"
  by (simp add: block_path_def)

lemma all_depths_iff:
  fixes n p :: nat
  assumes "p \<le> n"
  shows "(\<forall>i < p. P (n - 1 - i)) \<longleftrightarrow> (\<forall>j. n - p \<le> j \<and> j < n \<longrightarrow> P j)"
proof safe
  fix j assume all: "\<forall>i < p. P (n - 1 - i)" and "n - p \<le> j" "j < n"
  then have "n - 1 - j < p" "n - 1 - (n - 1 - j) = j" by linarith+
  then show "P j" using all by metis
next
  fix i assume all: "\<forall>j. n - p \<le> j \<and> j < n \<longrightarrow> P j" and "i < p"
  then have "n - p \<le> n - 1 - i \<and> n - 1 - i < n" using assms by linarith
  then show "P (n - 1 - i)" using all by blast
qed

text \<open>Two networks agree at a prefix exactly if the first bits of their paths agree.\<close>

lemma network_at_prefix_eq_iff:
  assumes "block_wf b" and "block_wf b'" and "cb_family b = cb_family b'"
    and "p \<le> cb_prefix b" and "p \<le> cb_prefix b'"
  shows "network_at_prefix b p = network_at_prefix b' p \<longleftrightarrow>
    take (unat p) (block_path b) = take (unat p) (block_path b')"
proof -
  let ?n = "unat (family_bits (cb_family b'))" and ?x = "cb_network b" and ?y = "cb_network b'"
  have p: "unat p \<le> unat (cb_prefix b)" "unat p \<le> unat (cb_prefix b')" "unat p \<le> ?n"
    using assms by (auto simp: word_le_nat_alt block_wf_def)
  have n: "?n \<le> 128" by (simp add: unat_family_bits split: DefaultNetworkIpFamily.split)
  have small: "\<not> bit ?x i" "\<not> bit ?y i" if "?n \<le> i" for i
    using assms(1-3) that by (auto simp: block_wf_def)
  have "take (unat p) (block_path b) = take (unat p) (block_path b') \<longleftrightarrow>
      (\<forall>i < unat p. bit ?x (?n - 1 - i) = bit ?y (?n - 1 - i))"
    using p assms by (auto simp: list_eq_iff_nth_eq block_path_nth)
  also have "\<dots> \<longleftrightarrow> (\<forall>j. ?n - unat p \<le> j \<and> j < ?n \<longrightarrow> bit ?x j = bit ?y j)"
    by (rule all_depths_iff [OF p(3)])
  also have "\<dots> \<longleftrightarrow> network_at_prefix b p = network_at_prefix b' p"
  proof (cases "p = 0")
    case True
    then show ?thesis by (auto simp: network_at_prefix_def normalize_network_def)
  next
    case False
    note bits = bit_normalize [OF False]
    show ?thesis
    proof
      assume same: "\<forall>j. ?n - unat p \<le> j \<and> j < ?n \<longrightarrow> bit ?x j = bit ?y j"
      have "(bit ?x j \<and> ?n - unat p \<le> j \<and> j < 128) = (bit ?y j \<and> ?n - unat p \<le> j \<and> j < 128)" for j
        using same small [of j] by (cases "j < ?n") auto
      then show "network_at_prefix b p = network_at_prefix b' p"
        unfolding network_at_prefix_def assms(3) by (intro bit_word_eqI) (simp only: bits)
    next
      assume "network_at_prefix b p = network_at_prefix b' p"
      then have "bit (network_at_prefix b p) j = bit (network_at_prefix b' p) j" for j by simp
      then have "(bit ?x j \<and> ?n - unat p \<le> j \<and> j < 128) = (bit ?y j \<and> ?n - unat p \<le> j \<and> j < 128)" for j
        unfolding network_at_prefix_def assms(3) bits .
      then show "\<forall>j. ?n - unat p \<le> j \<and> j < ?n \<longrightarrow> bit ?x j = bit ?y j"
        using n by (meson order_less_le_trans)
    qed
  qed
  finally show ?thesis by blast
qed

lemma comparable_iff_take:
  "comparable p q \<longleftrightarrow> take (min (length p) (length q)) p = take (min (length p) (length q)) q"
  unfolding comparable_def prefix_def min_def
  by (auto simp: append_eq_conv_conj) (metis append_take_drop_id nle_le take_all)+

lemma overlaps_iff_comparable:
  assumes "block_wf b" and "block_wf b'"
  shows "overlaps b b' \<longleftrightarrow> cb_family b = cb_family b' \<and> comparable (block_path b) (block_path b')"
proof -
  have "unat (min (cb_prefix b) (cb_prefix b')) = min (unat (cb_prefix b)) (unat (cb_prefix b'))"
    by (simp add: min_def word_le_nat_alt)
  then show ?thesis
    using network_at_prefix_eq_iff [OF assms, of "min (cb_prefix b) (cb_prefix b')"]
    by (auto simp: overlaps_def Let_def comparable_iff_take)
qed

lemma network_at_own_prefix:
  assumes "block_wf b"
  shows "network_at_prefix b (cb_prefix b) = cb_network b"
proof (cases "cb_prefix b = 0")
  case True
  then show ?thesis
    using assms by (auto simp: network_at_prefix_def normalize_network_def block_wf_def
        intro!: bit_word_eqI dest: leD)
next
  case False
  then show ?thesis
    using assms unfolding network_at_prefix_def
    by (auto simp: bit_normalize [OF False] block_wf_def intro!: bit_word_eqI dest: bit_imp_le_length)
qed

text \<open>A block is determined by its family and its path.\<close>

lemma block_path_inject:
  assumes "block_wf b" and "block_wf b'" and "cb_family b = cb_family b'"
    and "block_path b = block_path b'"
  shows "b = b'"
proof -
  have p: "cb_prefix b = cb_prefix b'"
    using assms(4) by (metis length_block_path word_unat_eq_iff)
  then have eq: "network_at_prefix b (cb_prefix b) = network_at_prefix b' (cb_prefix b)"
    using network_at_prefix_eq_iff [OF assms(1-3), of "cb_prefix b"] assms(4) by simp
  from eq have "cb_network b = cb_network b'"
    using network_at_own_prefix assms(1,2) p by metis
  then show ?thesis using p assms(3) by (cases b; cases b') simp
qed

section \<open>The index as a multiset of blocks\<close>

lemma index_trie_mut_simps [simp]:
  "index_trie (index_trie_mut ix f t) g = (if f = g then t else index_trie ix g)"
  by (cases f; cases g) simp_all

lemma trie_ok_default [simp]: "trie_ok CidrTrieNode_default" "paths CidrTrieNode_default = {#}"
  by (simp_all add: trie_ok_def CidrTrieNode_default_def)

locale overlap_index =
  fixes empty_index :: 'ix and insert_block :: "'ix \<Rightarrow> 'b \<Rightarrow> 'ix" and remove_block :: "'ix \<Rightarrow> 'b \<Rightarrow> 'ix"
    and overlap_count :: "'ix \<Rightarrow> 'b \<Rightarrow> usize" and represents :: "'ix \<Rightarrow> 'b multiset \<Rightarrow> bool"
    and wf_block :: "'b \<Rightarrow> bool" and overlap :: "'b \<Rightarrow> 'b \<Rightarrow> bool"
  assumes represents_empty: "represents empty_index {#}"
    and represents_insert: "represents ix bs \<Longrightarrow> wf_block b \<Longrightarrow> size bs + 1 < 2 ^ 64 \<Longrightarrow>
      represents (insert_block ix b) (add_mset b bs)"
    and represents_remove: "represents ix bs \<Longrightarrow> wf_block b \<Longrightarrow>
      represents (remove_block ix b) (bs - {#b#})"
    and count_overlaps: "represents ix bs \<Longrightarrow> wf_block b \<Longrightarrow>
      unat (overlap_count ix b) = size (filter_mset (\<lambda>c. overlap c b) bs)"
begin

lemma count_positive_iff:
  assumes "represents ix bs" and "wf_block b"
  shows "0 < overlap_count ix b \<longleftrightarrow> (\<exists>c \<in># bs. overlap c b)"
proof -
  have "0 < overlap_count ix b \<longleftrightarrow> 0 < unat (overlap_count ix b)"
    by (simp add: word_less_nat_alt)
  also have "\<dots> \<longleftrightarrow> (\<exists>c \<in># bs. overlap c b)"
    unfolding count_overlaps [OF assms]
    by (auto simp: nonempty_has_size [symmetric])
  finally show ?thesis .
qed

lemma represents_fold:
  assumes "represents ix bs" and "\<forall>b \<in> set xs. wf_block b" and "size bs + length xs < 2 ^ 64"
  shows "represents (fold (\<lambda>b ix. insert_block ix b) xs ix) (bs + mset xs)"
  using assms
proof (induction xs arbitrary: ix bs)
  case (Cons x xs)
  then show ?case
    using represents_insert [of ix bs x] Cons(1) [of "insert_block ix x" "add_mset x bs"] by simp
qed simp

lemma remove_insert:
  assumes "represents ix bs" and "wf_block b" and "size bs + 1 < 2 ^ 64"
  shows "represents (remove_block (insert_block ix b) b) bs"
  using represents_remove [OF represents_insert [OF assms] assms(2)] by simp

end

lemma index_represents_insert:
  assumes "index_represents ix bs" and "block_wf b" and "size bs + 1 < 2 ^ 64"
  shows "index_represents (index_insert ix b) (add_mset b bs)"
proof -
  let ?t = "index_trie ix (cb_family b)"
  have "size (paths ?t) \<le> size bs"
    using assms(1) by (simp add: index_represents_def size_filter_mset_lesseq)
  then have "size (paths ?t) + 1 < 2 ^ 64"
    using assms(3) by linarith
  then have "trie_ok (trie_insert ?t b) \<and> paths (trie_insert ?t b) = add_mset (block_path b) (paths ?t)"
    using assms(1,3) by (intro trie_insert_paths) (auto simp: index_represents_def)
  then show ?thesis
    using assms(1,2) by (auto simp: index_represents_def index_insert_def)
qed

lemma image_filter_remove:
  assumes "\<And>c. c \<in># bs \<Longrightarrow> f c = f b \<Longrightarrow> g c = g b \<Longrightarrow> c = b"
  shows "image_mset f (filter_mset (\<lambda>c. g c = g b) bs) - {#f b#} =
    image_mset f (filter_mset (\<lambda>c. g c = g b) (bs - {#b#}))"
proof (cases "b \<in># bs")
  case True
  then obtain ds where "bs = add_mset b ds" by (blast dest: multi_member_split)
  then show ?thesis by simp
next
  case False
  then have "f b \<notin># image_mset f (filter_mset (\<lambda>c. g c = g b) bs)"
    using assms by auto metis
  then show ?thesis using False by (simp add: diff_single_trivial)
qed

lemma index_represents_remove:
  assumes "index_represents ix bs" and "block_wf b"
  shows "index_represents (index_remove ix b) (bs - {#b#})"
proof -
  let ?t = "index_trie ix (cb_family b)"
  obtain removed t' where t': "remove_from_trie ?t b 0 = (removed, t')" by fastforce
  have "trie_ok t' \<and> paths t' = paths ?t - {#block_path b#}"
    using trie_remove_paths [OF _ t'] assms(1) by (simp add: index_represents_def)
  moreover have "image_mset block_path (filter_mset (\<lambda>c. cb_family c = cb_family b) bs) - {#block_path b#}
      = image_mset block_path (filter_mset (\<lambda>c. cb_family c = cb_family b) (bs - {#b#}))"
    using assms block_path_inject [OF _ assms(2)]
    by (intro image_filter_remove) (auto simp: index_represents_def)
  moreover have "filter_mset (\<lambda>c. cb_family c = f) (bs - {#b#}) = filter_mset (\<lambda>c. cb_family c = f) bs"
    if "f \<noteq> cb_family b" for f
    using that by (simp add: filter_diff_mset)
  ultimately show ?thesis
    using assms(1) by (auto simp: index_represents_def index_remove_def t' dest: in_diffD)
qed

lemma index_overlap_count_blocks:
  assumes "index_represents ix bs" and "block_wf b"
  shows "unat (index_overlap_count ix b) = size (filter_mset (\<lambda>c. overlaps c b) bs)"
proof -
  let ?f = "cb_family b"
  have "unat (index_overlap_count ix b) =
      size (filter_mset (comparable (block_path b)) (image_mset block_path (filter_mset (\<lambda>c. cb_family c = ?f) bs)))"
    using assms(1) trie_overlap_count_paths [of "index_trie ix ?f" b]
    by (simp add: index_represents_def index_overlap_count_def)
  also have "\<dots> = size (filter_mset (\<lambda>c. cb_family c = ?f \<and> comparable (block_path b) (block_path c)) bs)"
    by (simp add: filter_mset_image_mset filter_filter_mset conj_commute)
  also have "\<dots> = size (filter_mset (\<lambda>c. overlaps c b) bs)"
    using assms by (intro arg_cong [where f = size] filter_mset_cong)
      (auto simp: overlaps_iff_comparable comparable_sym index_represents_def)
  finally show ?thesis .
qed

interpretation index: overlap_index CidrOverlapIndex_new index_insert index_remove
  index_overlap_count index_represents block_wf overlaps
proof unfold_locales
  have "index_trie CidrOverlapIndex_new f = CidrTrieNode_default" for f
    by (cases f) (simp_all add: CidrOverlapIndex_new_def)
  then show "index_represents CidrOverlapIndex_new {#}"
    by (simp add: index_represents_def)
qed (fact index_represents_insert index_represents_remove index_overlap_count_blocks)+

section \<open>Parsed blocks\<close>

lemma normalize_wf:
  assumes "p \<le> family_bits f" and "\<And>i. bit v i \<Longrightarrow> i < unat (family_bits f)"
  shows "block_wf \<lparr>cb_family = f, cb_network = normalize_network v p (family_bits f), cb_prefix = p\<rparr>"
proof (cases "p = 0")
  case True
  then show ?thesis by (simp add: block_wf_def normalize_network_def)
next
  case False
  then show ?thesis using assms by (simp add: block_wf_def bit_normalize)
qed

lemma parse_block_wf:
  assumes "CidrBlock_parse read_v6 s = Ok b"
  shows "block_wf b"
proof -
  have v4: "bit (ucast a :: u128) i \<Longrightarrow> i < unat (family_bits Default_Ipv4)" for a :: u32 and i
    by (auto simp: bit_ucast_iff dest: bit_imp_le_length)
  have v6: "bit a i \<Longrightarrow> i < unat (family_bits Default_Ipv6)" for a :: u128 and i
    by (auto dest: bit_imp_le_length)
  show ?thesis
    using assms v4 v6
    by (auto simp: CidrBlock_parse_def not_less split: option.splits prod.splits IpAddr.splits if_splits
        simp del: family_bits.simps intro!: normalize_wf)
qed

text \<open>The network of a block is the first number of its range.\<close>

lemma unat_clear_low_bits: "unat (v AND push_bit h (NOT 0)) = unat v div 2 ^ h * 2 ^ h" for v :: "'w::len word"
proof -
  have "v AND push_bit h (NOT 0) = push_bit h (drop_bit h v)"
    by (rule bit_word_eqI) (auto simp: bit_simps)
  moreover have "unat v div 2 ^ h * 2 ^ h < 2 ^ LENGTH('w)"
    using unsigned_less [of v] by (rule order.strict_trans1 [OF div_times_less_eq_dividend])
  moreover have "unat (push_bit h (drop_bit h v)) = take_bit LENGTH('w) (push_bit h (drop_bit h (unat v)))"
    by (simp only: unsigned_push_bit_eq unsigned_drop_bit_eq take_bit_nat_eq_self [OF unsigned_less])
  ultimately show ?thesis
    by (simp add: push_bit_eq_mult drop_bit_eq_div take_bit_nat_eq_self)
qed

lemma unat_normalize_network:
  assumes "unat v < 2 ^ unat bits"
  shows "unat (normalize_network v p bits) =
    unat v div 2 ^ (unat bits - unat p) * 2 ^ (unat bits - unat p)"
proof (cases "p = 0")
  case False
  then show ?thesis
    unfolding normalize_network_def Let_def by (simp only: unat_clear_low_bits unat_saturating_sub if_False)
qed (use assms in \<open>simp add: normalize_network_def\<close>)

lemma unat_ucast_v4: "unat (ucast a :: u128) = unat a" "unat a < 2 ^ 32" for a :: u32
  by (simp_all add: unsigned_ucast_eq take_bit_nat_eq_self order.strict_trans2 [OF unsigned_less])

lemma parse_block_range:
  assumes "CidrBlock_parse read_v6 s = Ok b"
  obtains base where "text_addresses read_v6 s = Some (cb_family b, cidr_range (cb_family b) (cb_prefix b) base)"
    and "base < 2 ^ unat (family_bits (cb_family b))" and "unat (cb_prefix b) \<le> unat (family_bits (cb_family b))"
    and "unat (cb_network b) = base div 2 ^ (unat (family_bits (cb_family b)) - unat (cb_prefix b))
      * 2 ^ (unat (family_bits (cb_family b)) - unat (cb_prefix b))"
proof -
  obtain base_text prefix_text p ip where parts: "split_once (CHR ''/'') (trim s) = Some (base_text, prefix_text)"
      "parse_u8 prefix_text = Some p" "ip_from_str read_v6 base_text = Some ip"
    using assms by (auto simp: CidrBlock_parse_def split: option.splits)
  show thesis
  proof (cases ip)
    case (V4 a)
    have lt: "unat (ucast a :: u128) < 2 ^ unat (32 :: u8)"
      using unat_ucast_v4 [of a] by simp
    show thesis
      using assms parts V4 unat_normalize_network [OF lt] lt
      by (intro that [of "unat a"])
        (auto simp: CidrBlock_parse_def text_addresses_def word_less_nat_alt unat_ucast_v4 split: if_splits)
  next
    case (V6 a)
    have lt: "unat a < 2 ^ unat (128 :: u8)"
      using unsigned_less [of a] by simp
    show thesis
      using assms parts V6 unat_normalize_network [OF lt] lt
      by (intro that [of "unat a"])
        (auto simp: CidrBlock_parse_def text_addresses_def word_less_nat_alt split: if_splits)
  qed
qed

lemma in_aligned_range: "(a \<in> {x div n * n ..< x div n * n + n}) = (a div n = x div n)" if "0 < n" for a x n :: nat
proof
  assume "a \<in> {x div n * n ..< x div n * n + n}"
  then show "a div n = x div n"
    by (intro div_nat_eqI) (auto simp: algebra_simps)
next
  assume "a div n = x div n"
  then show "a \<in> {x div n * n ..< x div n * n + n}"
    using that div_mult_mod_eq [of a n] mod_less_divisor [OF that, of a] by auto
qed

lemma div_power_coarser:
  fixes x :: nat
  assumes "k \<le> h"
  shows "x div 2 ^ k div 2 ^ (h - k) = x div 2 ^ h"
  using assms by (simp add: div_mult2_eq [symmetric] power_add [symmetric])

lemma aligned_ranges_meet:
  fixes x y :: nat
  assumes "k \<le> h"
  shows "{x div 2 ^ h * 2 ^ h ..< x div 2 ^ h * 2 ^ h + 2 ^ h} \<inter> {y div 2 ^ k * 2 ^ k ..< y div 2 ^ k * 2 ^ k + 2 ^ k} \<noteq> {}
    \<longleftrightarrow> x div 2 ^ h = y div 2 ^ h"
proof -
  have "a div 2 ^ h = y div 2 ^ h" if "a div 2 ^ k = y div 2 ^ k" for a
    using that div_power_coarser [OF assms] by metis
  then have "(\<exists>a. a div 2 ^ h = x div 2 ^ h \<and> a div 2 ^ k = y div 2 ^ k) \<longleftrightarrow> x div 2 ^ h = y div 2 ^ h"
    by metis
  then show ?thesis
    unfolding ex_in_conv [symmetric] Int_iff by (simp only: in_aligned_range zero_less_power zero_less_numeral)
qed

lemma overlaps_sym: "overlaps b c = overlaps c b"
  by (auto simp: overlaps_def Let_def min.commute)

lemma overlaps_iff_ranges_meet:
  assumes "cb_family c = cb_family b" and "cb_prefix b \<le> cb_prefix c"
    and "unat (cb_prefix c) \<le> unat (family_bits (cb_family b))"
    and "unat (cb_network b) = x div 2 ^ (unat (family_bits (cb_family b)) - unat (cb_prefix b))
      * 2 ^ (unat (family_bits (cb_family b)) - unat (cb_prefix b))"
    and "unat (cb_network c) = y div 2 ^ (unat (family_bits (cb_family b)) - unat (cb_prefix c))
      * 2 ^ (unat (family_bits (cb_family b)) - unat (cb_prefix c))"
    and "x < 2 ^ unat (family_bits (cb_family b))" "y < 2 ^ unat (family_bits (cb_family b))"
  shows "overlaps b c \<longleftrightarrow> cidr_range (cb_family b) (cb_prefix b) x \<inter> cidr_range (cb_family b) (cb_prefix c) y \<noteq> {}"
proof -
  let ?n = "unat (family_bits (cb_family b))"
  let ?h = "?n - unat (cb_prefix b)" and ?k = "?n - unat (cb_prefix c)"
  have k: "?k \<le> ?h"
    using assms(2) by (simp add: word_le_nat_alt)
  have "unat (cb_network b) < 2 ^ ?n" "unat (cb_network c) < 2 ^ ?n"
    using assms(4-7) by (simp_all add: order.strict_trans1 [OF div_times_less_eq_dividend])
  then have "network_at_prefix b (cb_prefix b) = network_at_prefix c (cb_prefix b) \<longleftrightarrow>
      unat (cb_network b) div 2 ^ ?h = unat (cb_network c) div 2 ^ ?h"
    using assms(1) by (simp add: network_at_prefix_def word_unat_eq_iff unat_normalize_network)
  also have "\<dots> \<longleftrightarrow> x div 2 ^ ?h = y div 2 ^ ?h"
    using assms(4,5) div_power_coarser [OF k] by (metis bits_mod_div_trivial div_mult_self_is_m nonzero_mult_div_cancel_right power_not_zero zero_neq_numeral)
  finally show ?thesis
    using assms(1,2) aligned_ranges_meet [OF k]
    by (simp add: overlaps_def min_absorb1 cidr_range_def Let_def)
qed

section \<open>Candidates\<close>

lemma unat_default_block:
  "unat (cb_network (default_block_v4 n)) = 10 * 2 ^ 24 + n mod 4096 * 2 ^ 12"
proof -
  have "n mod 4096 < 4096" by simp
  then have "10 * 2 ^ 24 + n mod 4096 * 2 ^ 12 < (2 :: nat) ^ 32" by simp
  then have "10 * 2 ^ 24 + n mod 4096 * 2 ^ 12 < (2 :: nat) ^ 128" by simp
  then show ?thesis
    by (simp only: default_block_v4_def CidrBlock.select_convs unsigned_of_nat) (simp add: take_bit_nat_eq_self)
qed

lemma default_block_bits:
  assumes "bit (cb_network (default_block_v4 n)) i"
  shows "12 \<le> i \<and> i < 32"
proof -
  have n: "n mod 4096 < 4096" by simp
  let ?x = "10 * 2 ^ 24 + n mod 4096 * 2 ^ 12 :: nat"
  have "bit (unat (cb_network (default_block_v4 n))) i"
    using assms by (simp add: bit_unsigned_iff)
  then have bit: "bit ?x i" by (simp only: unat_default_block)
  have "?x = push_bit 12 (10 * 2 ^ 12 + n mod 4096)" by (simp add: push_bit_eq_mult)
  then have "12 \<le> i" using bit by (simp add: bit_push_bit_iff)
  moreover have "take_bit 32 ?x = ?x" using n by (simp add: take_bit_nat_eq_self_iff)
  then have "i < 32" using bit by (metis bit_take_bit_iff)
  ultimately show ?thesis by blast
qed

lemma default_block_wf: "block_wf (default_block_v4 n)"
proof -
  have "cb_family (default_block_v4 n) = Default_Ipv4" "cb_prefix (default_block_v4 n) = 20"
    by (simp_all add: default_block_v4_def)
  then show ?thesis
    using default_block_bits [of n] by (auto simp: block_wf_def word_le_nat_alt)
qed

lemma unat_and_mask: "unat (x AND (DEFAULT_NETWORK_SUBNET_CANDIDATES_V4 - 1)) = unat x mod 4096"
proof -
  have "DEFAULT_NETWORK_SUBNET_CANDIDATES_V4 - 1 = mask 12"
    by (simp add: DEFAULT_NETWORK_SUBNET_CANDIDATES_V4_def mask_eq_exp_minus_1)
  then show ?thesis
    by (simp add: take_bit_eq_mask [symmetric] take_bit_eq_mod unat_mod)
qed

lemma bucket_octets:
  fixes x :: u32
  assumes "unat x < 4096"
  shows "unat (ucast (drop_bit 4 x) :: u8) = unat x div 16"
    and "unat (ucast (push_bit 4 (x AND 15)) :: u8) = unat x mod 16 * 16"
proof -
  have "unat (drop_bit 4 x) = unat x div 16"
    by (simp add: drop_bit_eq_div unat_div)
  then show "unat (ucast (drop_bit 4 x) :: u8) = unat x div 16"
    using assms by (simp add: unsigned_ucast_eq take_bit_nat_eq_self)
  have "x AND mask 4 = x mod 16" by (simp only: take_bit_eq_mask [symmetric] take_bit_eq_mod) simp
  then have "x AND 15 = x mod 16" by (simp add: mask_eq_exp_minus_1)
  then have m: "unat (x AND 15) = unat x mod 16" by (simp add: unat_mod)
  moreover have "unat x mod 16 < 16" by simp
  ultimately have "unat (push_bit 4 (x AND 15)) = unat x mod 16 * 16"
    by (simp add: push_bit_eq_mult unat_word_ariths)
  then show "unat (ucast (push_bit 4 (x AND 15)) :: u8) = unat x mod 16 * 16"
    by (simp add: unsigned_ucast_eq take_bit_nat_eq_self)
qed

lemma candidate_v4_octets:
  "256 * (256 * (256 * 10 + n div 16) + n mod 16 * 16) + 0 = 10 * 2 ^ 24 + n * 2 ^ 12" for n :: nat
proof -
  have "16 * (n div 16) + n mod 16 = n" by (rule mult_div_mod_eq)
  then have "65536 * (n div 16) + 4096 * (n mod 16) = n * 4096" by linarith
  then show ?thesis by simp
qed

lemma candidate_v4_text:
  "default_network_subnet_candidate_v4 hash offset =
     (let n = (unat hash + unat offset) mod 4096
      in (dec 10 @ ''.'' @ dec (n div 16) @ ''.'' @ dec (n mod 16 * 16) @ ''.'' @ dec 0) @ CHR ''/'' # dec 20)"
proof -
  define n where "n = (unat hash + unat offset) mod 4096"
  define bucket where "bucket =
    (hash AND (DEFAULT_NETWORK_SUBNET_CANDIDATES_V4 - 1)) + offset AND (DEFAULT_NETWORK_SUBNET_CANDIDATES_V4 - 1)"
  have "unat bucket = (unat hash mod 4096 + unat offset) mod 2 ^ 32 mod 4096"
    by (simp only: bucket_def unat_and_mask unat_word_ariths) simp
  also have "\<dots> = (unat hash mod 4096 + unat offset) mod 4096"
    by (rule mod_mod_cancel) simp
  finally have b: "unat bucket = n" by (simp add: n_def mod_add_left_eq)
  then have "unat bucket < 4096" by (simp add: n_def)
  note octets = bucket_octets [OF this, unfolded b]
  have "dec 10 = ''10''" "dec 0 = ''0''"
    by (simp_all add: dec.simps digit_char_def) code_simp+
  then show ?thesis
    unfolding default_network_subnet_candidate_v4_def Let_def bucket_def [symmetric] octets
      n_def [symmetric] by (simp add: DEFAULT_NETWORK_SUBNET_PREFIX_V4_def)
qed

lemma candidate_v4_parse:
  "CidrBlock_parse read_v6 (default_network_subnet_candidate_v4 hash offset) =
     Ok (default_block_v4 (unat hash + unat offset))"
proof -
  define n where "n = (unat hash + unat offset) mod 4096"
  have n: "n < 4096" by (simp add: n_def)
  define base where "base = dec 10 @ ''.'' @ dec (n div 16) @ ''.'' @ dec (n mod 16 * 16) @ ''.'' @ dec 0"
  have cand: "default_network_subnet_candidate_v4 hash offset = base @ CHR ''/'' # dec 20"
    by (simp add: candidate_v4_text Let_def base_def n_def)
  have digits: "CHR ''/'' \<notin> set (dec k)" for k
    using set_dec [of k] by (auto simp: is_digit_def)
  have split: "split_once (CHR ''/'') (base @ CHR ''/'' # dec 20) = Some (base, dec 20)"
    by (rule split_once_append) (simp add: base_def digits)
  have "\<not> is_whitespace (hd (base @ CHR ''/'' # dec 20))"
    using dec_ends [of 10] dec_roundtrip [of 10] by (simp add: base_def)
  moreover have "\<not> is_whitespace (last (base @ CHR ''/'' # dec 20))"
    using dec_ends [of 20] dec_roundtrip [of 20] by simp
  ultimately have trim: "trim (base @ CHR ''/'' # dec 20) = base @ CHR ''/'' # dec 20"
    by (intro trim_id) simp_all
  have prefix: "parse_u8 (dec 20) = Some 20"
    using parse_u8_dec [of 20] by simp
  have "v4_from_str base = Some (of_nat (256 * (256 * (256 * 10 + n div 16) + n mod 16 * 16) + 0))"
    unfolding base_def using n by (intro v4_from_octets) auto
  then have ip: "ip_from_str read_v6 base = Some (V4 (of_nat (10 * 2 ^ 24 + n * 2 ^ 12)))"
    by (simp only: candidate_v4_octets ip_from_str_def option.case)
  have net: "ucast (of_nat (10 * 2 ^ 24 + n * 2 ^ 12) :: u32) = cb_network (default_block_v4 n)"
  proof -
    have "10 * 2 ^ 24 + n * 2 ^ 12 < (2 :: nat) ^ 32" using n by simp
    then have "unat (of_nat (10 * 2 ^ 24 + n * 2 ^ 12) :: u32) = 10 * 2 ^ 24 + n * 2 ^ 12"
      by (simp only: unsigned_of_nat) (simp add: take_bit_nat_eq_self)
    then show ?thesis
      unfolding word_unat_eq_iff unat_default_block unsigned_ucast_eq
      using n by (simp add: take_bit_nat_eq_self)
  qed
  have norm: "normalize_network (cb_network (default_block_v4 n)) 20 32 = cb_network (default_block_v4 n)"
    using network_at_own_prefix [OF default_block_wf [of n]] by (simp add: network_at_prefix_def default_block_v4_def)
  have "default_block_v4 (unat hash + unat offset) = default_block_v4 n"
    by (simp add: default_block_v4_def n_def)
  then show ?thesis
    unfolding CidrBlock_parse_def cand trim split using prefix ip norm net
    by (simp add: default_block_v4_def)
qed

lemma first_candidate_Some:
  assumes "first_candidate candidate has_conflict offset k = Some s"
  shows "\<exists>i < k. s = candidate (offset + of_nat i) \<and> \<not> has_conflict s"
  using assms
proof (induction k arbitrary: offset)
  case (Suc k)
  show ?case
  proof (cases "has_conflict (candidate offset)")
    case True
    then obtain i where "i < k" "s = candidate (offset + 1 + of_nat i)" "\<not> has_conflict s"
      using Suc by auto
    then show ?thesis by (auto intro!: exI [of _ "Suc i"] simp: add.assoc)
  next
    case False
    then show ?thesis using Suc(2) by (auto intro!: exI [of _ 0])
  qed
qed simp

lemma first_candidate_None:
  assumes "first_candidate candidate has_conflict offset k = None" and "i < k"
  shows "has_conflict (candidate (offset + of_nat i))"
  using assms
proof (induction k arbitrary: offset i)
  case (Suc k)
  then show ?case
    using Suc(1) [of "offset + 1" "i - 1"] by (cases i) (auto simp: add.assoc split: if_splits)
qed simp

lemma set_parsed_blocks: "b \<in> set (parsed_blocks read_v6 ss) \<longleftrightarrow> (\<exists>s \<in> set ss. CidrBlock_parse read_v6 s = Ok b)"
  by (force simp: parsed_blocks_def split: sum.splits)

lemma length_parsed_blocks: "length (parsed_blocks read_v6 ss) \<le> length ss"
  by (induction ss) (auto simp: parsed_blocks_def split: sum.splits)

lemma fold_insert_cidr:
  "fold (\<lambda>s ix. snd (insert_cidr read_v6 ix s)) ss ix =
     fold (\<lambda>b ix. index_insert ix b) (parsed_blocks read_v6 ss) ix"
  by (induction ss arbitrary: ix) (auto simp: parsed_blocks_def insert_cidr_def split: sum.splits)

lemma overlaps_cidr_iff:
  assumes "length ss < 2 ^ 64" and "CidrBlock_parse read_v6 s = Ok b"
  shows "overlaps_cidr read_v6 (fold (\<lambda>s ix. snd (insert_cidr read_v6 ix s)) ss CidrOverlapIndex_new) s
    \<longleftrightarrow> (\<exists>t \<in> set ss. \<exists>c. CidrBlock_parse read_v6 t = Ok c \<and> overlaps c b)"
proof -
  let ?bs = "parsed_blocks read_v6 ss"
  have "length ?bs < 2 ^ 64"
    using assms(1) length_parsed_blocks [of read_v6 ss] by linarith
  then have bound: "size ({#} :: CidrBlock multiset) + length ?bs < 2 ^ 64" by simp
  have wf: "\<forall>c \<in> set ?bs. block_wf c"
    using set_parsed_blocks parse_block_wf by blast
  have "index_represents (fold (\<lambda>b ix. index_insert ix b) ?bs CidrOverlapIndex_new) ({#} + mset ?bs)"
    by (rule index.represents_fold [OF index.represents_empty wf bound])
  from index.count_positive_iff [OF this parse_block_wf [OF assms(2)]]
  have "0 < index_overlap_count (fold (\<lambda>b ix. index_insert ix b) ?bs CidrOverlapIndex_new) b
      \<longleftrightarrow> (\<exists>c \<in> set ?bs. overlaps c b)" by simp
  then show ?thesis
    unfolding overlaps_cidr_def assms(2) fold_insert_cidr sum.case using set_parsed_blocks by metis
qed

lemma default_blocks_disjoint:
  assumes "m < 4096" and "n < 4096" and "block_wf c" and "20 \<le> cb_prefix c"
    and "overlaps c (default_block_v4 (h + m))" and "overlaps c (default_block_v4 (h + n))"
  shows "m = n"
proof -
  have "cb_network (default_block_v4 k) = network_at_prefix c 20"
    if "overlaps c (default_block_v4 k)" for k
  proof -
    have "min (cb_prefix c) (cb_prefix (default_block_v4 k)) = 20" "cb_prefix (default_block_v4 k) = 20"
      using assms(4) by (simp_all add: default_block_v4_def min_def)
    then show ?thesis
      using that network_at_own_prefix [OF default_block_wf [of k]] by (simp add: overlaps_def)
  qed
  then have "unat (cb_network (default_block_v4 (h + m))) = unat (cb_network (default_block_v4 (h + n)))"
    using assms(5,6) by simp
  then have "(h + m) mod 4096 = (h + n) mod 4096" by (simp only: unat_default_block) simp
  then show ?thesis using assms(1,2) by (metis mod_shift_inject)
qed

lemma default_subnet_v4_cases:
  assumes "length existing < 2 ^ 64"
  shows "case default_network_subnet read_v6 blake3 bytes name existing Default_Ipv4 of
      Some s \<Rightarrow> \<exists>n. CidrBlock_parse read_v6 s = Ok (default_block_v4 n)
        \<and> (\<forall>t \<in> set existing. \<forall>c. CidrBlock_parse read_v6 t = Ok c \<longrightarrow> \<not> overlaps c (default_block_v4 n))
    | None \<Rightarrow> \<forall>m < 4096. \<exists>t \<in> set existing. \<exists>c. CidrBlock_parse read_v6 t = Ok c
        \<and> overlaps c (default_block_v4 (unat (default_network_subnet_hash blake3 bytes name) + m))"
proof -
  let ?h = "default_network_subnet_hash blake3 bytes name"
  let ?used = "fold (\<lambda>s ix. snd (insert_cidr read_v6 ix s)) existing CidrOverlapIndex_new"
  let ?c = "default_network_subnet_candidate_v4 ?h"
  have call: "default_network_subnet read_v6 blake3 bytes name existing Default_Ipv4 =
      first_candidate ?c (overlaps_cidr read_v6 ?used) 0 4096"
  proof -
    have "default_network_subnet_candidate Default_Ipv4 h = default_network_subnet_candidate_v4 h" for h
      by (rule ext) simp
    then show ?thesis
      by (simp add: default_network_subnet_def default_network_subnet_with_conflict_check_def Let_def
          DEFAULT_NETWORK_SUBNET_CANDIDATES_V4_def)
  qed
  note free = overlaps_cidr_iff [OF assms candidate_v4_parse]
  show ?thesis
  proof (cases "first_candidate ?c (overlaps_cidr read_v6 ?used) 0 4096")
    case None
    have "\<exists>t \<in> set existing. \<exists>c. CidrBlock_parse read_v6 t = Ok c \<and> overlaps c (default_block_v4 (unat ?h + m))"
      if "m < 4096" for m
    proof -
      have "unat (of_nat m :: u32) = m" using that by (simp add: unat_of_nat)
      then show ?thesis using first_candidate_None [OF None that] free [of read_v6 ?h "of_nat m"] by simp
    qed
    then show ?thesis by (simp add: call None)
  next
    case (Some s)
    then obtain i where "s = ?c (of_nat i)" "\<not> overlaps_cidr read_v6 ?used s"
      by (auto dest: first_candidate_Some)
    then show ?thesis
      using free [of read_v6 ?h "of_nat i"] candidate_v4_parse [of read_v6 ?h "of_nat i"]
      by (simp add: call Some) blast
  qed
qed

text \<open>Fewer than 4096 subnets, none of them shorter than a candidate, leave a candidate free.\<close>

lemma few_subnets_leave_one:
  assumes "\<forall>m < 4096. \<exists>t \<in> set existing. \<exists>c. CidrBlock_parse read_v6 t = Ok c
      \<and> overlaps c (default_block_v4 (h + m))"
    and "\<forall>t \<in> set existing. \<forall>c. CidrBlock_parse read_v6 t = Ok c \<longrightarrow> 20 \<le> cb_prefix c"
  shows "4096 \<le> length existing"
proof -
  obtain f where f: "\<And>m. m < 4096 \<Longrightarrow> f m \<in> set existing \<and> (\<exists>c. CidrBlock_parse read_v6 (f m) = Ok c
      \<and> overlaps c (default_block_v4 (h + m)))"
    using assms(1) by metis
  have "inj_on f {..<4096}"
  proof
    fix m n assume mn: "m \<in> {..<4096}" "n \<in> {..<4096 :: nat}" "f m = f n"
    then obtain c where c: "CidrBlock_parse read_v6 (f m) = Ok c" "overlaps c (default_block_v4 (h + m))"
        "overlaps c (default_block_v4 (h + n))"
      using f [of m] f [of n] by auto
    then have "20 \<le> cb_prefix c" using assms(2) f mn(1) by blast
    then show "m = n"
      using default_blocks_disjoint [OF _ _ parse_block_wf [OF c(1)] _ c(2,3)] mn by simp
  qed
  then have "card {..<4096 :: nat} \<le> card (set existing)"
    using f by (intro card_inj_on_le) auto
  also have "\<dots> \<le> length existing" by (rule card_length)
  finally show ?thesis by simp
qed

section \<open>Properties\<close>

text \<open>
  C22. The pair of prefix tries refines a multiset of CIDR blocks: inserting and removing a
  block are adding and removing it from the multiset, and the overlap count is the number of
  blocks in the multiset that overlap the given one.
\<close>

theorem cidr_index_refines_multiset:
  assumes "index_represents ix bs" and "block_wf b" and "size bs + 1 < 2 ^ 64"
  shows "index_represents (index_insert ix b) (add_mset b bs)
    \<and> index_represents (index_remove ix b) (bs - {#b#})
    \<and> unat (index_overlap_count ix b) = size (filter_mset (\<lambda>c. overlaps c b) bs)
    \<and> index_represents CidrOverlapIndex_new {#}"
  using index.represents_insert [OF assms] index.represents_remove [OF assms(1,2)]
    index.count_overlaps [OF assms(1,2)] index.represents_empty by blast

theorem cidr_index_refines_multiset_witness:
  "unat (index_overlap_count (index_insert CidrOverlapIndex_new (default_block_v4 7)) (default_block_v4 7)) = 1
   \<and> index_represents (index_remove (index_insert CidrOverlapIndex_new (default_block_v4 7)) (default_block_v4 7)) {#}"
proof -
  let ?b = "default_block_v4 7"
  have one: "index_represents (index_insert CidrOverlapIndex_new ?b) {#?b#}"
    using index.represents_insert [OF index.represents_empty default_block_wf] by simp
  have "overlaps ?b ?b" by (simp add: overlaps_def)
  then show ?thesis
    using cidr_index_refines_multiset [OF one default_block_wf [of 7]] by simp
qed

text \<open>
  C23. A CIDR text that parses gives a well-formed block: its prefix fits the family, and its
  network is the first address of the range that the text denotes, the aligned range of
  \<open>2 ^ (bits - prefix)\<close> addresses around the written one. Two such blocks overlap exactly if the
  texts are of one family and the ranges they denote have an address in common.
\<close>

theorem parsed_blocks_overlap:
  assumes "CidrBlock_parse read_v6 s = Ok b" and "CidrBlock_parse read_v6 t = Ok c"
  shows "\<exists>A B. text_addresses read_v6 s = Some (cb_family b, A) \<and> text_addresses read_v6 t = Some (cb_family c, B)
    \<and> block_wf b \<and> unat (cb_network b) \<in> A \<and> (\<forall>a \<in> A. unat (cb_network b) \<le> a)
    \<and> (overlaps b c \<longleftrightarrow> cb_family b = cb_family c \<and> A \<inter> B \<noteq> {})"
proof -
  obtain x where x: "text_addresses read_v6 s = Some (cb_family b, cidr_range (cb_family b) (cb_prefix b) x)"
    "x < 2 ^ unat (family_bits (cb_family b))" "unat (cb_prefix b) \<le> unat (family_bits (cb_family b))"
    "unat (cb_network b) = x div 2 ^ (unat (family_bits (cb_family b)) - unat (cb_prefix b))
      * 2 ^ (unat (family_bits (cb_family b)) - unat (cb_prefix b))"
    using parse_block_range [OF assms(1)] .
  obtain y where y: "text_addresses read_v6 t = Some (cb_family c, cidr_range (cb_family c) (cb_prefix c) y)"
    "y < 2 ^ unat (family_bits (cb_family c))" "unat (cb_prefix c) \<le> unat (family_bits (cb_family c))"
    "unat (cb_network c) = y div 2 ^ (unat (family_bits (cb_family c)) - unat (cb_prefix c))
      * 2 ^ (unat (family_bits (cb_family c)) - unat (cb_prefix c))"
    using parse_block_range [OF assms(2)] .
  let ?A = "cidr_range (cb_family b) (cb_prefix b) x" and ?B = "cidr_range (cb_family c) (cb_prefix c) y"
  have "overlaps b c \<longleftrightarrow> cb_family b = cb_family c \<and> ?A \<inter> ?B \<noteq> {}"
  proof (cases "cb_family b = cb_family c")
    case True
    show ?thesis
    proof (cases "cb_prefix b \<le> cb_prefix c")
      case le: True
      show ?thesis
        using overlaps_iff_ranges_meet [of c b x y] True le x y by simp
    next
      case False
      then have "cb_prefix c \<le> cb_prefix b" by simp
      then show ?thesis
        using overlaps_iff_ranges_meet [of b c y x] overlaps_sym [of b c] True x y by (simp add: Int_commute)
    qed
  qed (simp add: overlaps_def)
  moreover have "unat (cb_network b) \<in> ?A" "\<forall>a \<in> ?A. unat (cb_network b) \<le> a"
    using x(4) by (simp_all add: cidr_range_def Let_def)
  ultimately show ?thesis
    using x(1) y(1) parse_block_wf [OF assms(1)] by blast
qed

theorem parsed_blocks_overlap_witness:
  "\<exists>A. text_addresses (\<lambda>_. None) (default_network_subnet_candidate_v4 3 0) = Some (Default_Ipv4, A)
     \<and> 10 * 2 ^ 24 + 3 * 2 ^ 12 \<in> A"
proof -
  note w = parsed_blocks_overlap [OF candidate_v4_parse [of "\<lambda>_. None" 3 0] candidate_v4_parse [of "\<lambda>_. None" 3 0]]
  then show ?thesis
    using unat_default_block [of 3] by (auto simp: default_block_v4_def)
qed

text \<open>
  C24. With fewer than 4096 existing subnets, none of them with a prefix shorter than 20, a
  default IPv4 subnet is always found: its text parses to one of the candidate blocks, and no
  existing subnet overlaps it.
\<close>

theorem default_subnet_found:
  assumes "length existing < 4096"
    and "\<forall>t \<in> set existing. \<forall>c. CidrBlock_parse read_v6 t = Ok c \<longrightarrow> 20 \<le> cb_prefix c"
  shows "\<exists>s n. default_network_subnet read_v6 blake3 bytes name existing Default_Ipv4 = Some s
    \<and> CidrBlock_parse read_v6 s = Ok (default_block_v4 n)
    \<and> (\<forall>t \<in> set existing. \<forall>c. CidrBlock_parse read_v6 t = Ok c \<longrightarrow> \<not> overlaps c (default_block_v4 n))"
proof -
  let ?r = "default_network_subnet read_v6 blake3 bytes name existing Default_Ipv4"
  have cases: "case ?r of
      Some s \<Rightarrow> \<exists>n. CidrBlock_parse read_v6 s = Ok (default_block_v4 n)
        \<and> (\<forall>t \<in> set existing. \<forall>c. CidrBlock_parse read_v6 t = Ok c \<longrightarrow> \<not> overlaps c (default_block_v4 n))
    | None \<Rightarrow> \<forall>m < 4096. \<exists>t \<in> set existing. \<exists>c. CidrBlock_parse read_v6 t = Ok c
        \<and> overlaps c (default_block_v4 (unat (default_network_subnet_hash blake3 bytes name) + m))"
    using assms(1) by (intro default_subnet_v4_cases) simp
  show ?thesis
  proof (cases ?r)
    case None
    then show ?thesis using cases few_subnets_leave_one [OF _ assms(2)] assms(1) by fastforce
  next
    case (Some s)
    then show ?thesis using cases by simp
  qed
qed

theorem default_subnet_found_witness:
  "\<exists>s n. default_network_subnet (\<lambda>_. None) (\<lambda>_. replicate 32 0) (\<lambda>_. []) ''overlay''
       [default_network_subnet_candidate_v4 0 0] Default_Ipv4 = Some s
     \<and> CidrBlock_parse (\<lambda>_. None) s = Ok (default_block_v4 n) \<and> \<not> overlaps (default_block_v4 0) (default_block_v4 n)"
proof -
  let ?e = "[default_network_subnet_candidate_v4 0 0]"
  have parse: "CidrBlock_parse (\<lambda>_. None) (default_network_subnet_candidate_v4 0 0) = Ok (default_block_v4 0)"
    using candidate_v4_parse [of "\<lambda>_. None" 0 0] by simp
  then have "\<forall>t \<in> set ?e. \<forall>c. CidrBlock_parse (\<lambda>_. None) t = Ok c \<longrightarrow> 20 \<le> cb_prefix c"
    by (auto simp: default_block_v4_def)
  from default_subnet_found [OF _ this, of "\<lambda>_. replicate 32 0" "\<lambda>_. []" "''overlay''"]
  show ?thesis using parse by auto
qed

end
