(* ===== verification/Overlay_Allocator.thy ===== *)
theory Overlay_Allocator
  imports Network_Cidr
begin

text \<open>
  The overlay addresses of \<open>src/network/allocator.rs\<close> and the service addresses of
  \<open>src/network/discovery.rs\<close>. A subnet's host offsets are split into three classes: resolvers
  take odd offsets, tasks the offsets \<open>2 mod 4\<close> and services the offsets \<open>0 mod 4\<close>. A task
  address is found by probing with a stride that is coprime to the number of slots. \<open>blake3\<close>
  and the text of IPv6 addresses are parameters; unchecked sums and products wrap.
\<close>

unbundle bit_operations_syntax

section \<open>Subnets\<close>

datatype OverlayIpFamily = Ipv4 | Ipv6

primrec address_bits :: "OverlayIpFamily \<Rightarrow> u8" where
  "address_bits Ipv4 = 32"
| "address_bits Ipv6 = 128"

record ParsedOverlaySubnet =
  ps_base_ip :: IpAddr
  ps_prefix :: u8
  ps_family :: OverlayIpFamily

record AttachmentAllocation =
  assigned_ip :: string
  mac_address :: string

text \<open>The fields of a network specification that the allocator reads.\<close>

record NetworkSpecValue =
  ns_id :: uuid
  subnet_cidr :: string

datatype OverlayError = Cidr CidrError | WholeIpv6Space | ZeroSizedAllocation | NoHostAddresses
  | SubnetTooSmall | NoTaskCapacity | NoFreeAddress | ProbeWindowExhausted
  | InvalidAllocatedAddress | NoResolverCapacity

definition parse_overlay_cidr ::
  "(string \<Rightarrow> u128 option) \<Rightarrow> string \<Rightarrow> (ParsedOverlaySubnet, OverlayError) result" where
  "parse_overlay_cidr read_v6 cidr = (case split_once (CHR ''/'') cidr of
     None \<Rightarrow> Err (Cidr MissingDelimiter)
   | Some (base_ip_text, prefix_text) \<Rightarrow>
     (case parse_u8 prefix_text of
        None \<Rightarrow> Err (Cidr PrefixNotANumber)
      | Some p \<Rightarrow>
        (case ip_from_str read_v6 base_ip_text of
           None \<Rightarrow> Err (Cidr BaseAddressInvalid)
         | Some base \<Rightarrow>
           (let family = (case base of V4 _ \<Rightarrow> Ipv4 | V6 _ \<Rightarrow> Ipv6) in
            if address_bits family < p then Err (Cidr PrefixTooLong)
            else Ok \<lparr>ps_base_ip = base, ps_prefix = p, ps_family = family\<rparr>))))"

record OverlayLayout =
  ol_family :: OverlayIpFamily
  ol_base :: u128
  node_slots :: u128
  task_slots :: u128

primrec ip_value :: "IpAddr \<Rightarrow> u128" where
  "ip_value (V4 a) = ucast a"
| "ip_value (V6 a) = a"

primrec family_ip :: "OverlayIpFamily \<Rightarrow> u128 \<Rightarrow> IpAddr" where
  "family_ip Ipv4 raw = V4 (ucast raw)"
| "family_ip Ipv6 raw = V6 raw"

definition overlay_layout ::
  "(string \<Rightarrow> u128 option) \<Rightarrow> NetworkSpecValue \<Rightarrow> (OverlayLayout, OverlayError) result" where
  "overlay_layout read_v6 network = (case parse_overlay_cidr read_v6 (subnet_cidr network) of
     Inl e \<Rightarrow> Err e
   | Inr subnet \<Rightarrow>
     (let base = ip_value (ps_base_ip subnet);
          host_bits = saturating_sub (address_bits (ps_family subnet)) (ps_prefix subnet)
      in if ps_family subnet = Ipv6 \<and> host_bits = 128 then Err WholeIpv6Space
         else let max_hosts = (if ps_family subnet = Ipv4 \<and> host_bits = 32 then 4294967295 + 1
                else push_bit (unat host_bits) 1) :: u128
         in if max_hosts = 0 then Err ZeroSizedAllocation
         else case checked_sub max_hosts 2 of
           None \<Rightarrow> Err NoHostAddresses
         | Some host_span \<Rightarrow>
             if host_span < 2 then Err SubnetTooSmall
             else Ok \<lparr>ol_family = ps_family subnet, ol_base = base,
                      node_slots = host_span div 2, task_slots = host_span div 4\<rparr>))"

definition address_at :: "OverlayLayout \<Rightarrow> u128 \<Rightarrow> IpAddr" where
  "address_at layout offset = family_ip (ol_family layout) (ol_base layout + offset)"

definition address_for_task_slot :: "OverlayLayout \<Rightarrow> u128 \<Rightarrow> IpAddr" where
  "address_for_task_slot layout slot = address_at layout (2 + saturating_mul slot 4)"

section \<open>Digests\<close>

text \<open>\<open>Uuid::as_bytes\<close> is big-endian; the digest words are read little-endian.\<close>

definition uuid_bytes :: "uuid \<Rightarrow> u8 list" where
  "uuid_bytes u = map (\<lambda>i. ucast (drop_bit (8 * (15 - i)) u)) [0..<16]"

definition u128_from_le_bytes :: "u8 list \<Rightarrow> u128" where
  "u128_from_le_bytes bs = foldr (\<lambda>b acc. ucast b + 256 * acc) bs 0"

section \<open>Task addresses\<close>

function gcd_u128 :: "u128 \<Rightarrow> u128 \<Rightarrow> u128" where
  "gcd_u128 left right = (if right \<noteq> 0 then gcd_u128 right (left mod right) else left)"
  by auto

termination
proof (relation "measure (\<lambda>(_, right). unat right)", simp)
  fix left right :: u128
  assume "right \<noteq> 0"
  then have "unat (left mod right) < unat right"
    by (simp add: unat_mod unat_gt_0)
  then show "((right, left mod right), left, right) \<in> measure (\<lambda>(_, right). unat right)" by simp
qed

declare gcd_u128.simps [simp del]

lemma gcd_u128_gcd: "unat (gcd_u128 left right) = gcd (unat left) (unat right)"
proof (induction left right rule: gcd_u128.induct)
  case (1 left right)
  show ?case
  proof (cases "right = 0")
    case True
    then show ?thesis by (simp add: gcd_u128.simps)
  next
    case False
    then have "unat (gcd_u128 left right) = gcd (unat right) (unat left mod unat right)"
      using 1 by (simp add: gcd_u128.simps [of left right] unat_mod)
    then show ?thesis by (metis gcd.commute gcd_red_nat)
  qed
qed

text \<open>
  The search for a stride. It ends because the candidates grow towards the number of slots and
  wrap to 1, which is coprime to everything.
\<close>

definition next_step :: "u128 \<Rightarrow> u128 \<Rightarrow> u128" where
  "next_step slots step =
     (let step' = (step + 1) mod slots in if step' = 0 then 1 else step')"

definition step_measure :: "u128 \<Rightarrow> u128 \<Rightarrow> nat" where
  "step_measure slots step =
     (if gcd_u128 step slots = 1 then 0
      else if slots = 0 then 2 ^ 128 - unat step
      else if step < slots then unat slots - unat step
      else 2 ^ 128 + 1)"

lemma gcd_u128_1 [simp]: "gcd_u128 1 slots = 1"
proof -
  have "unat (gcd_u128 1 slots) = 1" by (simp add: gcd_u128_gcd)
  then show ?thesis by (metis unat_1 word_unat_eq_iff)
qed

lemma unat_add_one: "x + 1 \<noteq> 0 \<Longrightarrow> unat (x + 1) = unat x + 1" for x :: "'w::len word"
  using unatSuc [of x] by (simp add: add.commute)

lemma less_add_one:
  fixes x y :: "'w::len word"
  assumes "x < y"
  shows "x + 1 \<noteq> 0"
proof
  assume "x + 1 = 0"
  then have "x = - 1" by (simp add: eq_neg_iff_add_eq_0)
  then show False using assms by (metis word_order.extremum_strict)
qed

lemma step_measure_decreases:
  assumes "gcd_u128 step slots \<noteq> 1"
  shows "step_measure slots (next_step slots step) < step_measure slots step"
proof (cases "next_step slots step = 1")
  case True
  have "unat step < 2 ^ 128" using unsigned_less [of step] by simp
  then have "0 < step_measure slots step"
    using assms by (auto simp: step_measure_def word_less_nat_alt)
  then show ?thesis using True by (simp add: step_measure_def)
next
  case False
  then have next_eq: "next_step slots step = (step + 1) mod slots" "(step + 1) mod slots \<noteq> 0"
    by (auto simp: next_step_def Let_def split: if_splits)
  show ?thesis
  proof (cases "slots = 0")
    case True
    then have "step + 1 \<noteq> 0" using next_eq by simp
    then have "unat (step + 1) = unat step + 1"
      by (rule unat_add_one)
    moreover have "unat step < 2 ^ 128" using unsigned_less [of step] by simp
    ultimately show ?thesis
      using assms True next_eq by (auto simp: step_measure_def)
  next
    case nz: False
    have lt: "(step + 1) mod slots < slots"
      using nz by (simp add: word_less_nat_alt unat_mod unat_gt_0)
    have slots: "unat slots < 2 ^ 128" using unsigned_less [of slots] by simp
    show ?thesis
    proof (cases "step < slots")
      case True
      then have "unat (step + 1) = unat step + 1"
        by (rule unat_add_one [OF less_add_one])
      moreover have "unat step + 1 < unat slots"
      proof (rule ccontr)
        assume "\<not> unat step + 1 < unat slots"
        then have "step + 1 = slots"
          using True \<open>unat (step + 1) = unat step + 1\<close>
          by (simp add: word_less_nat_alt word_unat_eq_iff)
        then show False using next_eq(2) by simp
      qed
      ultimately show ?thesis
        using assms True nz next_eq
        by (auto simp: step_measure_def word_less_nat_alt unat_mod)
    next
      case False
      then show ?thesis
        using assms nz next_eq lt slots by (auto simp: step_measure_def)
    qed
  qed
qed

function coprime_step :: "u128 \<Rightarrow> u128 \<Rightarrow> u128" where
  "coprime_step slots step =
     (if gcd_u128 step slots \<noteq> 1 then coprime_step slots (next_step slots step) else step)"
  by auto

termination
  by (relation "measure (\<lambda>(slots, step). step_measure slots step)") (auto dest: step_measure_decreases)

declare coprime_step.simps [simp del]

definition probe_step :: "u8 list \<Rightarrow> u128 \<Rightarrow> u128" where
  "probe_step digest slots =
     (if slots \<le> 1 then 1
      else let step = u128_from_le_bytes (take 16 (drop 16 digest)) mod slots;
               step = (if step = 0 then 1 else step)
           in coprime_step slots step)"

definition allocation_from_digest ::
  "(u128 \<Rightarrow> string) \<Rightarrow> IpAddr \<Rightarrow> u8 list \<Rightarrow> AttachmentAllocation" where
  "allocation_from_digest show_v6 assigned digest =
     (let mac_bytes = 2 # take 5 (drop 16 digest)
      in \<lparr>assigned_ip = ip_to_string show_v6 assigned,
          mac_address = join '':'' (map hex2 mac_bytes)\<rparr>)"

text \<open>The probe loop from \<open>probe\<close> on, with the number of probes that are left.\<close>

fun probe_loop :: "OverlayLayout \<Rightarrow> (IpAddr \<Rightarrow> bool) \<Rightarrow> u128 \<Rightarrow> u128 \<Rightarrow> u128 \<Rightarrow> nat \<Rightarrow> IpAddr option" where
  "probe_loop layout is_occupied start_slot step probe 0 = None"
| "probe_loop layout is_occupied start_slot step probe (Suc k) =
     (let slot = (start_slot + saturating_mul probe step) mod task_slots layout;
          assigned = address_for_task_slot layout slot
      in if \<not> is_occupied assigned then Some assigned
         else probe_loop layout is_occupied start_slot step (probe + 1) k)"

definition allocate_overlay_address_avoiding ::
  "(u128 \<Rightarrow> string) \<Rightarrow> (string \<Rightarrow> u128 option) \<Rightarrow> (u8 list \<Rightarrow> u8 list) \<Rightarrow> NetworkSpecValue \<Rightarrow> uuid
    \<Rightarrow> u128 \<Rightarrow> (IpAddr \<Rightarrow> bool) \<Rightarrow> (AttachmentAllocation, OverlayError) result" where
  "allocate_overlay_address_avoiding show_v6 read_v6 blake3 network task_id occupied_count is_occupied =
     (case overlay_layout read_v6 network of
        Inl e \<Rightarrow> Err e
      | Inr layout \<Rightarrow>
        (let digest = blake3 (uuid_bytes (ns_id network) @ uuid_bytes task_id);
             digest_value = u128_from_le_bytes (take 16 digest)
         in if task_slots layout = 0 then Err NoTaskCapacity
            else if task_slots layout \<le> occupied_count then Err NoFreeAddress
            else let start_slot = digest_value mod task_slots layout;
                     step = probe_step digest (task_slots layout);
                     probe_count = saturating_add occupied_count 1
                 in case probe_loop layout is_occupied start_slot step 0 (unat probe_count) of
                      Some assigned \<Rightarrow> Ok (allocation_from_digest show_v6 assigned digest)
                    | None \<Rightarrow> Err ProbeWindowExhausted))"

record OverlayAddressAllocator =
  oa_network :: NetworkSpecValue
  oa_occupied :: "IpAddr fset"

definition OverlayAddressAllocator_new :: "NetworkSpecValue \<Rightarrow> OverlayAddressAllocator" where
  "OverlayAddressAllocator_new network = \<lparr>oa_network = network, oa_occupied = {||}\<rparr>"

definition allocator_reserve :: "OverlayAddressAllocator \<Rightarrow> IpAddr \<Rightarrow> OverlayAddressAllocator" where
  "allocator_reserve al ip = al\<lparr>oa_occupied := finsert ip (oa_occupied al)\<rparr>"

definition allocator_allocate ::
  "(u128 \<Rightarrow> string) \<Rightarrow> (string \<Rightarrow> u128 option) \<Rightarrow> (u8 list \<Rightarrow> u8 list) \<Rightarrow> OverlayAddressAllocator \<Rightarrow> uuid
    \<Rightarrow> (AttachmentAllocation, OverlayError) result \<times> OverlayAddressAllocator" where
  "allocator_allocate show_v6 read_v6 blake3 al task_id =
     (case allocate_overlay_address_avoiding show_v6 read_v6 blake3 (oa_network al) task_id
             (of_nat (fcard (oa_occupied al))) (\<lambda>address. address |\<in>| oa_occupied al) of
        Inl e \<Rightarrow> (Err e, al)
      | Inr allocation \<Rightarrow>
        (case ip_from_str read_v6 (assigned_ip allocation) of
           None \<Rightarrow> (Err InvalidAllocatedAddress, al)
         | Some assigned \<Rightarrow> (Ok allocation, al\<lparr>oa_occupied := finsert assigned (oa_occupied al)\<rparr>)))"

definition allocate_overlay_address ::
  "(u128 \<Rightarrow> string) \<Rightarrow> (string \<Rightarrow> u128 option) \<Rightarrow> (u8 list \<Rightarrow> u8 list) \<Rightarrow> NetworkSpecValue \<Rightarrow> uuid
    \<Rightarrow> (AttachmentAllocation, OverlayError) result" where
  "allocate_overlay_address show_v6 read_v6 blake3 network task_id =
     fst (allocator_allocate show_v6 read_v6 blake3 (OverlayAddressAllocator_new network) task_id)"

section \<open>Resolver and service addresses\<close>

text \<open>The bytes of the label \<open>resolver\<close>.\<close>

definition resolver_label :: "u8 list" where
  "resolver_label = map of_char ''resolver''"

definition resolver_ip_address ::
  "(string \<Rightarrow> u128 option) \<Rightarrow> (u8 list \<Rightarrow> u8 list) \<Rightarrow> NetworkSpecValue \<Rightarrow> uuid
    \<Rightarrow> (IpAddr, OverlayError) result" where
  "resolver_ip_address read_v6 blake3 network node_id = (case overlay_layout read_v6 network of
     Inl e \<Rightarrow> Err e
   | Inr layout \<Rightarrow>
     (if node_slots layout = 0 then Err NoResolverCapacity
      else let digest = blake3 (uuid_bytes (ns_id network) @ uuid_bytes node_id @ resolver_label);
               slot = u128_from_le_bytes (take 16 digest) mod node_slots layout;
               offset = 1 + saturating_mul slot 2
           in Ok (address_at layout offset)))"

primrec same_family :: "OverlayIpFamily \<Rightarrow> IpAddr \<Rightarrow> bool" where
  "same_family family (V4 a) \<longleftrightarrow> family = Ipv4"
| "same_family family (V6 a) \<longleftrightarrow> family = Ipv6"

fun vip_loop :: "OverlayIpFamily \<Rightarrow> u128 \<Rightarrow> IpAddr fset \<Rightarrow> u128 \<Rightarrow> u128 \<Rightarrow> nat \<Rightarrow> IpAddr option" where
  "vip_loop family base backend_ips available slot 0 = None"
| "vip_loop family base backend_ips available slot (Suc k) =
     (let vip = family_ip family (saturating_add base slot)
      in if vip |\<notin>| backend_ips then Some vip
         else let slot' = (slot + 4) mod (available * 4)
              in vip_loop family base backend_ips available (if slot' < 8 then 8 else slot') k)"

text \<open>
  \<open>compute_service_vip\<close> once the registry has returned the specification of the network;
  \<open>backends\<close> are the backend addresses and \<open>name_bytes\<close> the bytes of the discovery name.
\<close>

definition compute_service_vip ::
  "(string \<Rightarrow> u128 option) \<Rightarrow> (u8 list \<Rightarrow> u8 list) \<Rightarrow> NetworkSpecValue \<Rightarrow> u8 list \<Rightarrow> IpAddr list
    \<Rightarrow> (IpAddr \<times> u8 list) option" where
  "compute_service_vip read_v6 blake3 spec name_bytes backends =
     (case parse_overlay_cidr read_v6 (subnet_cidr spec) of
        Inl e \<Rightarrow> None
      | Inr subnet \<Rightarrow>
        (let family = ps_family subnet;
             base_ip = ip_value (ps_base_ip subnet);
             host_bits = saturating_sub (address_bits family) (ps_prefix subnet)
         in if host_bits < 4 then None
            else let digest = blake3 (uuid_bytes (ns_id spec) @ name_bytes);
                     slot_seed = u128_from_le_bytes (take 16 digest)
            in if family = Ipv6 \<and> host_bits = 128 then None
            else let max_hosts = (if family = Ipv4 \<and> host_bits = 32 then 4294967295 + 1
                       else push_bit (unat host_bits) 1) :: u128;
                     available = saturating_sub max_hosts 16 div 4
            in if available = 0 then None
            else let backend_ips = fset_of_list (filter (same_family family) backends)
            in if fcard backend_ips \<noteq> length backends then None
            else let slot = slot_seed mod available * 4 + 8;
                     probe_budget = (if available \<le> 16 then unat available else 16)
            in map_option (\<lambda>vip. (vip, 2 # take 5 (drop 4 digest)))
                 (vip_loop family base_ip backend_ips available slot probe_budget)))"

primrec max_host_bits :: "OverlayIpFamily \<Rightarrow> nat" where
  "max_host_bits Ipv4 = 32"
| "max_host_bits Ipv6 = 127"

text \<open>The number of host bits a layout was derived from.\<close>

definition layout_bits :: "OverlayLayout \<Rightarrow> nat \<Rightarrow> bool" where
  "layout_bits l k \<longleftrightarrow> 2 \<le> k \<and> k \<le> max_host_bits (ol_family l)
     \<and> unat (node_slots l) = (2 ^ k - 2) div 2 \<and> unat (task_slots l) = (2 ^ k - 2) div 4"

text \<open>The probes visit distinct slots as long as the products do not overflow.\<close>

definition probe_slot :: "u128 \<Rightarrow> u128 \<Rightarrow> u128 \<Rightarrow> nat \<Rightarrow> u128" where
  "probe_slot slots start step i = (start + saturating_mul (of_nat i) step) mod slots"

definition vip_offset :: "u128 \<Rightarrow> nat \<Rightarrow> bool" where
  "vip_offset available o' \<longleftrightarrow> o' mod 4 = 0 \<and> 8 \<le> o' \<and> o' \<le> 4 * unat available + 4"

text \<open>A subnet whose base address has no host bits contains every offset below its size.\<close>

definition network_of :: "OverlayIpFamily \<Rightarrow> u8 \<Rightarrow> IpAddr \<Rightarrow> u128" where
  "network_of family p ip = normalize_network (ip_value ip) p (address_bits family)"

text \<open>A text of IPv6 addresses that keeps the law: a mark, then the bits.\<close>

definition demo_show_v6 :: "u128 \<Rightarrow> string" where
  "demo_show_v6 a = CHR ''x'' # map (\<lambda>i. if bit a i then CHR ''1'' else CHR ''0'') [0..<128]"

definition demo_read_v6 :: "string \<Rightarrow> u128 option" where
  "demo_read_v6 s = Some (horner_sum of_bool 2 (map (\<lambda>c. c = CHR ''1'') (tl s)))"

definition demo_network :: NetworkSpecValue where
  "demo_network = \<lparr>ns_id = 1, subnet_cidr = ''10.0.0.0/24''\<rparr>"

definition demo_digest :: "u8 list \<Rightarrow> u8 list" where
  "demo_digest bs = replicate 32 0"

text \<open>An IPv6 subnet \<open>/1\<close>, and a digest whose stride is two less than \<open>2 ^ 125\<close>.\<close>

definition wide_network :: NetworkSpecValue where
  "wide_network = \<lparr>ns_id = 1, subnet_cidr = ''x/1''\<rparr>"

definition wide_digest :: "u8 list \<Rightarrow> u8 list" where
  "wide_digest bs = [0, 0, 0, 0, 0, 0, 0, 0, 0, 0, 0, 0, 0, 0, 0, 0,
     254, 255, 255, 255, 255, 255, 255, 255, 255, 255, 255, 255, 255, 255, 255, 31]"

definition wide_layout :: OverlayLayout where
  "wide_layout = \<lparr>ol_family = Ipv6, ol_base = 0, node_slots = 2 ^ 126 - 1, task_slots = 2 ^ 125 - 1\<rparr>"

definition demo_layout :: OverlayLayout where
  "demo_layout = \<lparr>ol_family = Ipv4, ol_base = 167772160, node_slots = 127, task_slots = 63\<rparr>"

section \<open>Layouts\<close>

lemma host_bits_value:
  assumes "p \<le> address_bits f"
  shows "unat (saturating_sub (address_bits f) p) = unat (address_bits f) - unat p"
  by (simp add: unat_saturating_sub)

lemma unat_pow2: "k < 128 \<Longrightarrow> unat (push_bit k 1 :: u128) = 2 ^ k"
proof -
  assume k: "k < 128"
  then show ?thesis
    by (simp only: unsigned_push_bit_eq unsigned_1) (simp add: take_bit_nat_eq_self push_bit_eq_mult)
qed

lemma max_hosts_value:
  fixes h :: u8
  assumes "k \<le> max_host_bits f" and "unat h = k"
  shows "unat (if f = Ipv4 \<and> h = 32 then 4294967295 + 1 else push_bit (unat h) 1 :: u128) = 2 ^ k"
proof (cases "f = Ipv4 \<and> h = 32")
  case True
  then show ?thesis using assms by simp
next
  case False
  have "k < 128" using assms(1) by (cases f) auto
  then show ?thesis using False assms(2) by (simp only: if_False unat_pow2)
qed

lemma overlay_layout_bits:
  assumes "overlay_layout read_v6 network = Ok l"
    and "parse_overlay_cidr read_v6 (subnet_cidr network) = Ok subnet"
  shows "layout_bits l (unat (address_bits (ps_family subnet)) - unat (ps_prefix subnet))
    \<and> ol_family l = ps_family subnet \<and> ol_base l = ip_value (ps_base_ip subnet)"
proof -
  let ?f = "ps_family subnet" and ?h = "saturating_sub (address_bits (ps_family subnet)) (ps_prefix subnet)"
  let ?k = "unat (address_bits ?f) - unat (ps_prefix subnet)"
  let ?m = "if ?f = Ipv4 \<and> ?h = 32 then 4294967295 + 1 else push_bit (unat ?h) 1 :: u128"
  have h: "unat ?h = ?k" by (simp add: unat_saturating_sub)
  from assms obtain span where ok: "\<not> (?f = Ipv6 \<and> ?h = 128)" "checked_sub ?m 2 = Some span"
      "\<not> span < 2"
    and l: "l = \<lparr>ol_family = ?f, ol_base = ip_value (ps_base_ip subnet),
        node_slots = span div 2, task_slots = span div 4\<rparr>"
    by (auto simp: overlay_layout_def Let_def split: if_splits option.splits)
  have k: "?k \<le> max_host_bits ?f"
  proof (cases ?f)
    case Ipv6
    then have "?k \<noteq> 128" using ok(1) h by (auto simp: word_unat_eq_iff)
    then show ?thesis using Ipv6 by simp
  qed simp
  have "unat ?m = 2 ^ ?k" by (rule max_hosts_value [OF k h])
  then have span: "2 \<le> (2 :: nat) ^ ?k" "unat span = 2 ^ ?k - 2"
    using ok(2) unfolding checked_sub_Some_iff by simp_all
  have "2 \<le> unat span" using ok(3) by (simp add: word_less_nat_alt)
  then have "2 \<le> ?k"
    using span by (cases ?k; cases "?k - 1") auto
  then show ?thesis
    using k span by (simp add: l layout_bits_def unat_div)
qed

text \<open>Offsets inside the host range give distinct addresses.\<close>

lemma max_host_bits_le: "k \<le> max_host_bits f \<Longrightarrow> (2 :: nat) ^ k \<le> 2 ^ max_host_bits f"
  by (simp add: power_increasing)

lemma unat_ucast_u32: "unat (ucast x :: u32) = unat x mod 2 ^ 32" for x :: u128
  by (simp add: unsigned_ucast_eq take_bit_eq_mod)

lemma address_at_inject:
  assumes "layout_bits l k" and "unat x < 2 ^ k" and "unat y < 2 ^ k"
    and "address_at l x = address_at l y"
  shows "x = y"
proof (cases "ol_family l")
  case Ipv4
  then have "(2 :: nat) ^ k \<le> 2 ^ 32"
    using assms(1) max_host_bits_le [of k Ipv4] by (simp add: layout_bits_def)
  then have lt: "unat x < 2 ^ 32" "unat y < 2 ^ 32" using assms(2,3) by linarith+
  have "(ucast (ol_base l + x) :: u32) = ucast (ol_base l + y)"
    using assms(4) Ipv4 by (simp add: address_at_def)
  then have "unat (ol_base l + x) mod 2 ^ 32 = unat (ol_base l + y) mod 2 ^ 32"
    by (metis unat_ucast_u32)
  then have "(unat (ol_base l) + unat x) mod 2 ^ 32 = (unat (ol_base l) + unat y) mod 2 ^ 32"
    by (simp add: unat_word_ariths mod_mod_cancel)
  then have "unat x = unat y" using lt by (rule mod_shift_inject)
  then show ?thesis by (simp add: word_unat_eq_iff)
next
  case Ipv6
  then show ?thesis using assms(4) by (simp add: address_at_def)
qed

lemma task_offset:
  assumes "layout_bits l k" and "slot < task_slots l"
  shows "unat (2 + saturating_mul slot 4) = 2 + 4 * unat slot" "2 + 4 * unat slot < 2 ^ k - 1"
proof -
  have "unat slot < (2 ^ k - 2) div 4"
    using assms by (simp add: layout_bits_def word_less_nat_alt)
  then have "4 * unat slot + 4 \<le> 2 ^ k - 2" by linarith
  then show lt: "2 + 4 * unat slot < 2 ^ k - 1" by linarith
  have "k \<le> 127" using assms(1) by (cases "ol_family l") (auto simp: layout_bits_def)
  then have "(2 :: nat) ^ k \<le> 2 ^ 127" by (rule power_increasing) simp
  then have "2 + 4 * unat slot < 2 ^ 127" using lt by linarith
  then show "unat (2 + saturating_mul slot 4) = 2 + 4 * unat slot"
    by (simp add: unat_word_ariths unat_saturating_mul)
qed

lemma task_address_inject:
  assumes "layout_bits l k" and "s < task_slots l" and "t < task_slots l"
    and "address_for_task_slot l s = address_for_task_slot l t"
  shows "s = t"
proof -
  note s = task_offset [OF assms(1,2)] and t = task_offset [OF assms(1,3)]
  have "2 + saturating_mul s 4 = 2 + saturating_mul t 4"
    using assms(4) s t unfolding address_for_task_slot_def
    by (intro address_at_inject [OF assms(1)]) auto
  then have "2 + 4 * unat s = 2 + 4 * unat t" using s(1) t(1) by simp
  then show ?thesis by (simp add: word_unat_eq_iff)
qed

section \<open>The stride\<close>

lemma coprime_step_coprime: "coprime (unat (coprime_step slots step)) (unat slots)"
proof (induction slots step rule: coprime_step.induct)
  case (1 slots step)
  show ?case
  proof (cases "gcd_u128 step slots = 1")
    case True
    then have "gcd (unat step) (unat slots) = 1" by (metis gcd_u128_gcd unat_1)
    then show ?thesis
      using True by (simp add: coprime_step.simps [of slots step] coprime_iff_gcd_eq_1)
  next
    case False
    then show ?thesis using 1 by (simp add: coprime_step.simps [of slots step])
  qed
qed

lemma probe_step_coprime:
  assumes "slots \<noteq> 0"
  shows "coprime (unat (probe_step digest slots)) (unat slots)"
  by (simp add: probe_step_def Let_def coprime_step_coprime)

text \<open>The stride stays below the number of slots.\<close>

lemma next_step_less: "1 < slots \<Longrightarrow> next_step slots step < slots"
  by (auto simp: next_step_def Let_def word_less_nat_alt unat_mod)

lemma coprime_step_less:
  "1 < slots \<Longrightarrow> step < slots \<Longrightarrow> coprime_step slots step < slots"
  by (induction slots step rule: coprime_step.induct) (subst coprime_step.simps, simp add: next_step_less)

lemma probe_step_less:
  assumes "1 < slots"
  shows "probe_step digest slots < slots"
proof -
  have "x mod slots < slots" for x
    using assms by (simp add: word_less_nat_alt unat_mod)
  then show ?thesis
    using assms by (simp add: probe_step_def Let_def coprime_step_less leD)
qed

section \<open>Probing\<close>

lemma probe_loop_eq:
  "probe_loop l is_occupied start step (of_nat i) k =
     (case find (\<lambda>j. \<not> is_occupied (address_for_task_slot l (probe_slot (task_slots l) start step j))) [i..<i + k] of
        None \<Rightarrow> None | Some j \<Rightarrow> Some (address_for_task_slot l (probe_slot (task_slots l) start step j)))"
proof (induction k arbitrary: i)
  case (Suc k)
  have "[i..<i + Suc k] = i # [Suc i..<Suc i + k]" by (simp add: upt_conv_Cons)
  then show ?case
    using Suc [of "Suc i"] by (simp add: Let_def probe_slot_def add.commute)
qed simp

lemma probe_slot_value:
  assumes "unat start < n" and "i * unat step + n \<le> 2 ^ 128" and "unat slots = n"
    and "i < 2 ^ 128"
  shows "unat (probe_slot slots start step i) = (unat start + i * unat step) mod n"
proof -
  have i: "unat (of_nat i :: u128) = i" using assms(4) by (simp add: unat_of_nat)
  have "i * unat step < 2 ^ 128" "unat start + i * unat step < 2 ^ 128" using assms(1,2) by linarith+
  then have "unat (start + saturating_mul (of_nat i) step) = unat start + i * unat step"
    using i by (simp add: unat_word_ariths unat_saturating_mul)
  then show ?thesis using assms(3) by (simp add: probe_slot_def unat_mod)
qed

text \<open>From the probe whose product exceeds the word on, every probe is the same.\<close>

lemma probe_slot_saturated:
  assumes "2 ^ 128 \<le> n * unat step" and "n \<le> i" and "i < 2 ^ 128"
  shows "probe_slot slots start step i = probe_slot slots start step n"
proof -
  have "saturating_mul (of_nat j) step = - 1" if "n \<le> j" "j < 2 ^ 128" for j
  proof -
    have "unat (of_nat j :: u128) = j" using that(2) by (simp add: unat_of_nat)
    moreover have "n * unat step \<le> j * unat step" using that(1) by (rule mult_le_mono1)
    then have "\<not> j * unat step < 2 ^ 128" using assms(1) by linarith
    ultimately show ?thesis by (simp add: saturating_mul_def)
  qed
  then show ?thesis using assms(2,3) by (simp add: probe_slot_def)
qed

lemma coprime_walk_inject:
  fixes s n start i j :: nat
  assumes "coprime s n" and "(start + i * s) mod n = (start + j * s) mod n" and "i < n" and "j < n"
  shows "i = j"
proof -
  have le: "a = b" if "b \<le> a" "a < n" "(start + a * s) mod n = (start + b * s) mod n" for a b
  proof -
    have "start + b * s \<le> start + a * s" using that(1) by simp
    then have "n dvd (start + a * s) - (start + b * s)" using that(3) by (simp add: mod_eq_dvd_iff_nat)
    then have "n dvd (a - b) * s" by (simp add: diff_mult_distrib)
    then have "n dvd a - b"
      using assms(1) by (simp add: coprime_dvd_mult_left_iff coprime_commute)
    then show ?thesis using that by (auto dest!: dvd_imp_le)
  qed
  show ?thesis using le [of j i] le [of i j] assms by (cases "j \<le> i") auto
qed

lemma probing_finds_free:
  assumes l: "layout_bits l k" and start: "start < task_slots l" and "coprime (unat step) (unat (task_slots l))"
    and n: "c < unat (task_slots l)" and over: "c * unat step + unat (task_slots l) \<le> 2 ^ 128"
    and occ: "finite occupied" "card occupied \<le> c"
  shows "\<exists>slot < task_slots l. probe_loop l (\<lambda>a. a \<in> occupied) start step 0 (Suc c) =
    Some (address_for_task_slot l slot) \<and> address_for_task_slot l slot \<notin> occupied"
proof -
  let ?slot = "probe_slot (task_slots l) start step" and ?n = "unat (task_slots l)"
  let ?addr = "\<lambda>i. address_for_task_slot l (?slot i)"
  have slot: "unat (?slot i) = (unat start + i * unat step) mod ?n" if "i \<le> c" for i
  proof (rule probe_slot_value)
    have "i * unat step \<le> c * unat step" using that by simp
    then show "i * unat step + ?n \<le> 2 ^ 128" using over by linarith
    have "?n < 2 ^ 128" using unsigned_less [of "task_slots l"] by simp
    then show "i < 2 ^ 128" using that n by linarith
  qed (use start in \<open>simp_all add: word_less_nat_alt\<close>)
  have less: "?slot i < task_slots l" for i
    using n by (simp add: probe_slot_def word_less_nat_alt unat_mod)
  have "inj_on ?addr {..c}"
  proof
    fix i j assume ij: "i \<in> {..c}" "j \<in> {..c}" "?addr i = ?addr j"
    then have "?slot i = ?slot j" using task_address_inject [OF l less less] by blast
    then have "(unat start + i * unat step) mod ?n = (unat start + j * unat step) mod ?n"
      using slot ij by (metis atMost_iff)
    moreover have "i < ?n" "j < ?n" using n ij by auto
    ultimately show "i = j" by (rule coprime_walk_inject [OF assms(3)])
  qed
  then have card: "card (?addr ` {..c}) = Suc c" by (simp add: card_image)
  have "\<exists>i \<le> c. ?addr i \<notin> occupied"
  proof (rule ccontr)
    assume "\<not> (\<exists>i \<le> c. ?addr i \<notin> occupied)"
    then have "?addr ` {..c} \<subseteq> occupied" by blast
    then show False using card_mono [OF occ(1), of "?addr ` {..c}"] card occ(2) by linarith
  qed
  then obtain j where "j < Suc c" "?addr j \<notin> occupied" by (auto simp: less_Suc_eq_le)
  then have "find (\<lambda>j. ?addr j \<notin> occupied) [0..<0 + Suc c] \<noteq> None"
    unfolding find_None_iff by (metis add_0 atLeastLessThan_iff set_upt zero_le)
  then obtain i where i: "find (\<lambda>j. ?addr j \<notin> occupied) [0..<0 + Suc c] = Some i" by blast
  then have "?addr i \<notin> occupied" by (metis (mono_tags, lifting) find_Some_iff)
  then show ?thesis
    using probe_loop_eq [of l "\<lambda>a. a \<in> occupied" start step 0 "Suc c"] less [of i] i by auto
qed

section \<open>Allocation\<close>

lemma overlay_layout_parses:
  "overlay_layout read_v6 network = Ok l \<Longrightarrow> \<exists>subnet. parse_overlay_cidr read_v6 (subnet_cidr network) = Ok subnet"
  by (cases "parse_overlay_cidr read_v6 (subnet_cidr network)") (simp_all add: overlay_layout_def)

lemma allocate_avoiding_finds:
  assumes layout: "overlay_layout read_v6 network = Ok l"
    and "occupied_count < task_slots l"
    and "unat occupied_count * unat (task_slots l) + unat (task_slots l) \<le> 2 ^ 128"
    and "finite occupied" and "card occupied \<le> unat occupied_count"
  shows "\<exists>slot < task_slots l. address_for_task_slot l slot \<notin> occupied
    \<and> allocate_overlay_address_avoiding show_v6 read_v6 blake3 network task_id occupied_count (\<lambda>a. a \<in> occupied)
      = Ok (allocation_from_digest show_v6 (address_for_task_slot l slot)
          (blake3 (uuid_bytes (ns_id network) @ uuid_bytes task_id)))"
proof -
  let ?d = "blake3 (uuid_bytes (ns_id network) @ uuid_bytes task_id)"
  let ?start = "u128_from_le_bytes (take 16 ?d) mod task_slots l" and ?step = "probe_step ?d (task_slots l)"
  obtain k where k: "layout_bits l k"
    using overlay_layout_parses [OF layout] overlay_layout_bits [OF layout] by blast
  have nz: "task_slots l \<noteq> 0" using assms(2) by auto
  have start: "?start < task_slots l" using nz by (simp add: word_less_nat_alt unat_mod unat_gt_0)
  have "unat ?step \<le> unat (task_slots l)"
    using probe_step_less [of "task_slots l" ?d] nz
    by (cases "1 < task_slots l") (auto simp: word_less_nat_alt probe_step_def word_le_nat_alt Suc_le_eq unat_gt_0)
  then have "unat occupied_count * unat ?step \<le> unat occupied_count * unat (task_slots l)"
    by (rule mult_left_mono) simp
  then have over: "unat occupied_count * unat ?step + unat (task_slots l) \<le> 2 ^ 128"
    using assms(3) by linarith
  have less: "unat occupied_count < unat (task_slots l)" using assms(2) by (simp add: word_less_nat_alt)
  have "unat (task_slots l) < 2 ^ 128" using unsigned_less [of "task_slots l"] by simp
  then have "unat occupied_count + 1 \<le> 2 ^ 128 - 1" using less by linarith
  then have "unat (saturating_add occupied_count 1) = Suc (unat occupied_count)"
    by (simp add: unat_saturating_add)
  moreover from probing_finds_free [OF k start probe_step_coprime [OF nz] less over assms(4,5)]
  obtain slot where "slot < task_slots l" "address_for_task_slot l slot \<notin> occupied"
    "probe_loop l (\<lambda>a. a \<in> occupied) ?start ?step 0 (Suc (unat occupied_count)) = Some (address_for_task_slot l slot)"
    by blast
  ultimately show ?thesis
    using layout nz assms(2)
    by (intro exI [of _ slot]) (simp add: allocate_overlay_address_avoiding_def Let_def leD)
qed

lemma probe_loop_slot:
  assumes "probe_loop l is_occupied start step i k = Some a" and "task_slots l \<noteq> 0"
  shows "\<exists>slot < task_slots l. a = address_for_task_slot l slot \<and> \<not> is_occupied a"
  using assms
proof (induction l is_occupied start step i k rule: probe_loop.induct)
  case (2 l is_occupied start step i k)
  let ?slot = "(start + saturating_mul i step) mod task_slots l"
  have "?slot < task_slots l"
    using 2(3) by (simp add: word_less_nat_alt unat_mod unat_gt_0)
  then show ?case using 2 by (auto simp: Let_def split: if_splits)
qed simp

lemma allocate_avoiding_slot:
  assumes "allocate_overlay_address_avoiding show_v6 read_v6 blake3 network task_id c is_occupied = Ok alloc"
  obtains l slot where "overlay_layout read_v6 network = Ok l" and "slot < task_slots l"
    and "assigned_ip alloc = ip_to_string show_v6 (address_for_task_slot l slot)"
    and "\<not> is_occupied (address_for_task_slot l slot)"
proof -
  obtain l where l: "overlay_layout read_v6 network = Ok l"
    using assms by (cases "overlay_layout read_v6 network") (auto simp: allocate_overlay_address_avoiding_def)
  let ?d = "blake3 (uuid_bytes (ns_id network) @ uuid_bytes task_id)"
  have nz: "task_slots l \<noteq> 0"
    using assms l by (auto simp: allocate_overlay_address_avoiding_def Let_def)
  obtain a where a: "probe_loop l is_occupied (u128_from_le_bytes (take 16 ?d) mod task_slots l)
      (probe_step ?d (task_slots l)) 0 (unat (saturating_add c 1)) = Some a"
    and alloc: "alloc = allocation_from_digest show_v6 a ?d"
    using assms l nz
    by (auto simp: allocate_overlay_address_avoiding_def Let_def split: if_splits option.splits)
  from probe_loop_slot [OF a nz] alloc show ?thesis
    by (auto intro: that [OF l] simp: allocation_from_digest_def Let_def)
qed

text \<open>The occupied addresses of an allocator, as the allocation sees them.\<close>

lemma allocator_allocate_finds:
  assumes v6: "v6_text_ok show_v6 read_v6"
    and layout: "overlay_layout read_v6 (oa_network al) = Ok l"
    and "fcard (oa_occupied al) < unat (task_slots l)"
    and "(fcard (oa_occupied al) + 1) * unat (task_slots l) \<le> 2 ^ 128"
  shows "\<exists>slot < task_slots l. \<exists>alloc. address_for_task_slot l slot |\<notin>| oa_occupied al
    \<and> allocator_allocate show_v6 read_v6 blake3 al task_id =
        (Ok alloc, al\<lparr>oa_occupied := finsert (address_for_task_slot l slot) (oa_occupied al)\<rparr>)
    \<and> assigned_ip alloc = ip_to_string show_v6 (address_for_task_slot l slot)"
proof -
  let ?c = "of_nat (fcard (oa_occupied al)) :: u128" and ?n = "unat (task_slots l)"
  have "fcard (oa_occupied al) + 1 \<le> (fcard (oa_occupied al) + 1) * ?n"
    using assms(3) by simp
  then have "fcard (oa_occupied al) < 2 ^ 128" using assms(4) by linarith
  then have c: "unat ?c = fcard (oa_occupied al)" by (simp add: unat_of_nat)
  have less: "?c < task_slots l" using assms(3) c by (simp add: word_less_nat_alt)
  have bound: "unat ?c * ?n + ?n \<le> 2 ^ 128" using assms(4) unfolding c by simp
  have occ: "finite (fset (oa_occupied al))" "card (fset (oa_occupied al)) \<le> unat ?c"
    using c by (simp_all add: fcard.rep_eq)
  obtain slot where slot: "slot < task_slots l" "address_for_task_slot l slot |\<notin>| oa_occupied al"
    and alloc: "allocate_overlay_address_avoiding show_v6 read_v6 blake3 (oa_network al) task_id ?c
      (\<lambda>a. a |\<in>| oa_occupied al) = Ok (allocation_from_digest show_v6 (address_for_task_slot l slot)
          (blake3 (uuid_bytes (ns_id (oa_network al)) @ uuid_bytes task_id)))"
    using allocate_avoiding_finds [OF layout less bound occ, of show_v6 blake3 task_id] by blast
  then show ?thesis
    using ip_text_roundtrip [OF v6, of "address_for_task_slot l slot"]
    by (intro exI [of _ slot]) (simp add: allocator_allocate_def allocation_from_digest_def Let_def)
qed

section \<open>Address classes\<close>

lemma resolver_offset:
  assumes "layout_bits l k" and "slot < node_slots l"
  shows "unat (1 + saturating_mul slot 2) = 1 + 2 * unat slot" "1 + 2 * unat slot < 2 ^ k - 1"
proof -
  have "unat slot < (2 ^ k - 2) div 2"
    using assms by (simp add: layout_bits_def word_less_nat_alt)
  then have "2 * unat slot + 2 \<le> 2 ^ k - 2" by linarith
  then show lt: "1 + 2 * unat slot < 2 ^ k - 1" by linarith
  have "k \<le> 127" using assms(1) by (cases "ol_family l") (auto simp: layout_bits_def)
  then have "(2 :: nat) ^ k \<le> 2 ^ 127" by (rule power_increasing) simp
  then have "1 + 2 * unat slot < 2 ^ 127" using lt by linarith
  then show "unat (1 + saturating_mul slot 2) = 1 + 2 * unat slot"
    by (simp add: unat_word_ariths unat_saturating_mul)
qed

lemma resolver_slot:
  assumes "resolver_ip_address read_v6 blake3 network node_id = Ok r"
    and "overlay_layout read_v6 network = Ok l"
  obtains slot where "slot < node_slots l" and "r = address_at l (1 + saturating_mul slot 2)"
proof (rule that)
  let ?s = "u128_from_le_bytes (take 16 (blake3 (uuid_bytes (ns_id network) @ uuid_bytes node_id @ resolver_label)))"
  have "node_slots l \<noteq> 0" "r = address_at l (1 + saturating_mul (?s mod node_slots l) 2)"
    using assms by (auto simp: resolver_ip_address_def Let_def split: if_splits)
  then show "?s mod node_slots l < node_slots l" "r = address_at l (1 + saturating_mul (?s mod node_slots l) 2)"
    by (simp_all add: word_less_nat_alt unat_mod unat_gt_0)
qed

lemma vip_offset_next:
  assumes "vip_offset available (unat slot)" and "4 * unat available + 16 \<le> 2 ^ 128" and "available \<noteq> 0"
  shows "vip_offset available (unat (let slot' = (slot + 4) mod (available * 4) in if slot' < 8 then 8 else slot'))"
proof -
  let ?s = "(slot + 4) mod (available * 4)"
  have pos: "0 < unat available" using assms(3) by (simp add: unat_gt_0)
  have "unat (slot + 4) = unat slot + 4" "unat (available * 4) = unat available * 4"
    using assms(1,2) by (simp_all add: vip_offset_def unat_word_ariths)
  then have s: "unat ?s = (unat slot + 4) mod (unat available * 4)" by (simp add: unat_mod)
  also have "\<dots> < unat available * 4" using pos by simp
  finally have lt: "unat ?s < unat available * 4" .
  have "unat ?s mod 4 = (unat slot + 4) mod 4"
    unfolding s by (rule mod_mod_cancel) simp
  then have "unat ?s mod 4 = 0" using assms(1) by (simp add: vip_offset_def)
  then show ?thesis
    using lt pos by (auto simp: vip_offset_def Let_def word_less_nat_alt)
qed

lemma vip_loop_offset:
  assumes "vip_loop family base backends available slot k = Some v"
    and "vip_offset available (unat slot)" and "4 * unat available + 16 \<le> 2 ^ 128" and "available \<noteq> 0"
  shows "\<exists>slot'. vip_offset available (unat slot') \<and> v = family_ip family (saturating_add base slot') \<and> v |\<notin>| backends"
  using assms
proof (induction family base backends available slot k rule: vip_loop.induct)
  case (2 family base backends available slot k)
  show ?case
  proof (cases "family_ip family (saturating_add base slot) |\<notin>| backends")
    case True
    then show ?thesis using 2 by (auto simp: Let_def)
  next
    case False
    then show ?thesis
      using 2 vip_offset_next [OF 2(3-5)] by (simp add: Let_def)
  qed
qed simp

lemma vip_start_offset:
  assumes "available \<noteq> 0" and "4 * unat available + 16 \<le> 2 ^ 128"
  shows "vip_offset available (unat (seed mod available * 4 + 8))"
proof -
  have "unat (seed mod available) < unat available"
    using assms(1) by (simp add: unat_mod unat_gt_0)
  then have le: "4 * unat (seed mod available) + 4 \<le> 4 * unat available" by linarith
  then have "unat (seed mod available * 4 + 8) = 4 * unat (seed mod available) + 8"
    using assms(2) by (simp add: unat_word_ariths)
  then show ?thesis using le by (simp add: vip_offset_def)
qed

lemma unat_numeral_16: "unat (16 :: u128) = 16" "unat (4 :: u128) = 4"
  by simp_all

lemma quarter_bound: "x = (p - 16) div 4 \<Longrightarrow> 16 \<le> p \<Longrightarrow> 4 * x + 16 \<le> p" for x p :: nat
  by linarith

lemma service_vip_offset:
  assumes vip: "compute_service_vip read_v6 blake3 spec name_bytes backends = Some (v, mac)"
    and parse: "parse_overlay_cidr read_v6 (subnet_cidr spec) = Ok subnet"
    and k: "k = unat (address_bits (ps_family subnet)) - unat (ps_prefix subnet)"
  shows "\<exists>x. unat x mod 4 = 0 \<and> 8 \<le> unat x \<and> unat x < 2 ^ k - 1
    \<and> v = family_ip (ps_family subnet) (saturating_add (ip_value (ps_base_ip subnet)) x)"
proof -
  let ?f = "ps_family subnet" and ?h = "saturating_sub (address_bits (ps_family subnet)) (ps_prefix subnet)"
  let ?m = "if ?f = Ipv4 \<and> ?h = 32 then 4294967295 + 1 else push_bit (unat ?h) 1 :: u128"
  let ?a = "saturating_sub ?m 16 div 4"
  have h: "unat ?h = k" by (simp add: unat_saturating_sub k)
  obtain seed backend_ips budget where "\<not> (?f = Ipv6 \<and> ?h = 128)" "?a \<noteq> 0" "\<not> ?h < 4"
    and loop: "vip_loop ?f (ip_value (ps_base_ip subnet)) backend_ips ?a (seed mod ?a * 4 + 8) budget = Some v"
    using vip parse by (auto simp: compute_service_vip_def Let_def split: if_splits)
  then have "4 \<le> k" "k \<le> max_host_bits ?f"
    using h by (cases ?f; auto simp: word_less_nat_alt word_unat_eq_iff k)+
  have m: "unat ?m = 2 ^ k" by (rule max_hosts_value [OF \<open>k \<le> max_host_bits ?f\<close> h])
  have "16 \<le> (2 :: nat) ^ k"
    using power_increasing [OF \<open>4 \<le> k\<close>, of "2 :: nat"] by simp
  moreover have "unat ?a = (2 ^ k - 16) div 4"
    unfolding unat_div unat_saturating_sub [of ?m 16] m unat_numeral_16 ..
  ultimately have a: "4 * unat ?a + 16 \<le> 2 ^ k" by (rule quarter_bound [rotated])
  have "k \<le> 127" using \<open>k \<le> max_host_bits ?f\<close> by (cases ?f) auto
  then have "(2 :: nat) ^ k \<le> 2 ^ 127" by (rule power_increasing) simp
  then have bound: "4 * unat ?a + 16 \<le> 2 ^ 128" using a le_trans by fastforce
  from vip_loop_offset [OF loop vip_start_offset [OF \<open>?a \<noteq> 0\<close> bound] bound \<open>?a \<noteq> 0\<close>]
  obtain x where "vip_offset ?a (unat x)" "v = family_ip ?f (saturating_add (ip_value (ps_base_ip subnet)) x)"
    by blast
  then show ?thesis using a by (intro exI [of _ x]) (auto simp: vip_offset_def)
qed

lemma saturating_add_no_overflow: "unat a + unat b < 2 ^ 128 \<Longrightarrow> saturating_add a b = a + b" for a b :: u128
  by (simp add: saturating_add_def)

lemma odd_mod_4: "(1 + 2 * n) mod 4 \<noteq> 0" "(1 + 2 * n) mod 4 \<noteq> 2" for n :: nat
  by presburger+

section \<open>The example network\<close>

lemma demo_v6_text: "v6_text_ok demo_show_v6 demo_read_v6"
proof -
  have "horner_sum of_bool 2 (map (bit a) [0..<128]) = a" for a :: u128
    using horner_sum_bit_eq_take_bit [of a 128] by (simp add: take_bit_word_eq_self)
  moreover have "v4_from_str (CHR ''x'' # s) = None" for s
    by (simp add: v4_from_str_def read_octet_def is_digit_def)
  ultimately show ?thesis
    by (simp add: v6_text_ok_def demo_show_v6_def demo_read_v6_def comp_def)
qed

lemma demo_parse:
  "parse_overlay_cidr read_v6 ''10.0.0.0/24'' = Ok \<lparr>ps_base_ip = V4 167772160, ps_prefix = 24, ps_family = Ipv4\<rparr>"
  by (simp add: parse_overlay_cidr_def split_once_def parse_u8_def is_digit_def dec_value_def char_digit_def
      ip_from_str_def v4_from_str_def read_octet_def numeral_3_eq_3 Let_def)

lemma demo_overlay_layout: "overlay_layout read_v6 demo_network = Ok demo_layout"
  by (simp add: overlay_layout_def demo_network_def demo_parse Let_def saturating_sub_def checked_sub_def
      demo_layout_def)

lemma wide_overlay_layout: "overlay_layout demo_read_v6 wide_network = Ok wide_layout"
proof -
  have "parse_overlay_cidr demo_read_v6 ''x/1'' = Ok \<lparr>ps_base_ip = V6 0, ps_prefix = 1, ps_family = Ipv6\<rparr>"
    by (simp add: parse_overlay_cidr_def split_once_def parse_u8_def is_digit_def dec_value_def char_digit_def
        ip_from_str_def v4_from_str_def read_octet_def demo_read_v6_def Let_def)
  then show ?thesis
    by (simp add: overlay_layout_def wide_network_def Let_def saturating_sub_def checked_sub_def wide_layout_def)
qed

lemma wide_probe_step: "probe_step (wide_digest bs) (task_slots wide_layout) = 2 ^ 125 - 2"
proof -
  have "u128_from_le_bytes (take 16 (drop 16 (wide_digest bs))) = 2 ^ 125 - 2"
    by (simp add: wide_digest_def u128_from_le_bytes_def)
  moreover have "\<not> (2 ^ 125 - 1 :: u128) \<le> 1"
    by (simp add: word_le_nat_alt)
  moreover have "gcd_u128 (2 ^ 125 - 2) (2 ^ 125 - 1) = 1"
    by (simp add: gcd_u128.simps)
  ultimately show ?thesis
    by (simp add: probe_step_def wide_layout_def Let_def coprime_step.simps)
qed

lemma normalize_eq_iff_div:
  assumes "p \<noteq> 0" and "k = unat bits - unat p"
  shows "normalize_network v p bits = normalize_network w p bits \<longleftrightarrow> unat v div 2 ^ k = unat w div 2 ^ k"
proof -
  have "normalize_network v p bits = normalize_network w p bits \<longleftrightarrow>
      (\<forall>i. bit v i \<and> k \<le> i \<longleftrightarrow> bit w i \<and> k \<le> i)"
  proof
    assume "normalize_network v p bits = normalize_network w p bits"
    then have "bit (normalize_network v p bits) i = bit (normalize_network w p bits) i" for i by simp
    then have eq: "(bit v i \<and> k \<le> i \<and> i < 128) = (bit w i \<and> k \<le> i \<and> i < 128)" for i
      unfolding bit_normalize [OF assms(1)] assms(2) .
    have "i < 128" if "bit v i \<or> bit w i" for i
      using that bit_imp_le_length [of v i] bit_imp_le_length [of w i] by auto
    then show "\<forall>i. bit v i \<and> k \<le> i \<longleftrightarrow> bit w i \<and> k \<le> i" using eq by metis
  next
    assume eq: "\<forall>i. bit v i \<and> k \<le> i \<longleftrightarrow> bit w i \<and> k \<le> i"
    show "normalize_network v p bits = normalize_network w p bits"
      by (rule bit_word_eqI) (use eq assms(2) in \<open>simp only: bit_normalize [OF assms(1)], metis\<close>)
  qed
  also have "\<dots> \<longleftrightarrow> (\<forall>i. bit v (k + i) = bit w (k + i))"
    by (metis le_add1 le_Suc_ex)
  also have "\<dots> \<longleftrightarrow> drop_bit k (unat v) = drop_bit k (unat w)"
    by (simp add: bit_eq_iff bit_drop_bit_eq bit_unsigned_iff)
  finally show ?thesis by (simp add: drop_bit_eq_div)
qed

lemma ip_value_family_ip:
  "ip_value (family_ip Ipv4 raw) = ucast (ucast raw :: u32)" "ip_value (family_ip Ipv6 raw) = raw"
  by simp_all

lemma address_at_in_subnet:
  assumes "layout_bits l k" and "k = unat (address_bits (ol_family l)) - unat p"
    and "2 ^ k dvd unat (ol_base l)" and "unat x < 2 ^ k"
    and "ol_family l = Ipv4 \<Longrightarrow> unat (ol_base l) < 2 ^ 32"
  shows "network_of (ol_family l) p (address_at l x) = normalize_network (ol_base l) p (address_bits (ol_family l))"
proof (cases "p = 0")
  case True
  then show ?thesis by (simp add: network_of_def normalize_network_def)
next
  case False
  obtain q where q: "unat (ol_base l) = 2 ^ k * q" using assms(3) by (auto elim: dvdE)
  have div: "(2 ^ k * q + unat x) div 2 ^ k = q" using assms(4) by simp
  have sum_less: "2 ^ k * q + unat x < 2 ^ n" if "2 ^ k * q < (2 :: nat) ^ n" "k \<le> n" for n
  proof -
    have n: "(2 :: nat) ^ n = 2 ^ k * 2 ^ (n - k)" using that(2) by (simp flip: power_add)
    then have "q < 2 ^ (n - k)" using that(1) by simp
    then have "2 ^ k * q + 2 ^ k \<le> 2 ^ k * 2 ^ (n - k)"
      by (metis Suc_leI mult_Suc_right mult_le_mono2 add.commute)
    then show ?thesis using assms(4) n by linarith
  qed
  have "unat (ol_base l) < 2 ^ 128" using unsigned_less [of "ol_base l"] by simp
  then have "2 ^ k * q < (2 :: nat) ^ 128" by (simp only: q)
  then have "2 ^ k * q + unat x < 2 ^ 128"
    using assms(1) by (intro sum_less) (cases "ol_family l"; simp add: layout_bits_def)+
  then have raw: "unat (ol_base l + x) = 2 ^ k * q + unat x"
    by (simp add: unat_word_ariths q)
  have "unat (ip_value (address_at l x)) = 2 ^ k * q + unat x"
  proof (cases "ol_family l")
    case Ipv4
    then have "2 ^ k * q + unat x < 2 ^ 32"
      using assms(1,5) q by (intro sum_less) (simp_all add: layout_bits_def)
    moreover have "unat (ucast y :: u128) = unat y" for y :: u32
    proof -
      have "unat y < 2 ^ 32" using unsigned_less [of y] by simp
      then have "unat y < 2 ^ 128" by simp
      then show ?thesis by (simp add: unsigned_ucast_eq take_bit_nat_eq_self)
    qed
    ultimately show ?thesis
      using raw Ipv4 by (simp add: address_at_def unat_ucast_u32)
  next
    case Ipv6
    then show ?thesis using raw by (simp add: address_at_def)
  qed
  then show ?thesis
    unfolding network_of_def normalize_eq_iff_div [OF False assms(2)] using div q by simp
qed

text \<open>The base of an IPv4 layout is a 32-bit value.\<close>

lemma ipv4_base_less:
  assumes "parse_overlay_cidr read_v6 cidr = Ok subnet" and "ps_family subnet = Ipv4"
  shows "unat (ip_value (ps_base_ip subnet)) < 2 ^ 32"
proof -
  obtain a where "ps_base_ip subnet = V4 a"
    using assms by (auto simp: parse_overlay_cidr_def Let_def split: option.splits if_splits IpAddr.splits)
  moreover have "unat (ucast a :: u128) \<le> unat a" "unat a < 2 ^ 32"
    using unsigned_less [of a] by (simp_all add: unsigned_ucast_eq take_bit_nat_less_eq_self)
  ultimately show ?thesis by (simp del: power_numeral)
qed

lemma next_step_iterate:
  assumes "step < slots"
  shows "\<exists>n \<le> unat slots. coprime_step slots step = (next_step slots ^^ n) step
    \<and> gcd_u128 (coprime_step slots step) slots = 1"
proof -
  have "\<exists>n \<le> step_measure slots step. coprime_step slots step = (next_step slots ^^ n) step
      \<and> gcd_u128 (coprime_step slots step) slots = 1"
  proof (induction slots step rule: coprime_step.induct)
    case (1 slots step)
    show ?case
    proof (cases "gcd_u128 step slots = 1")
      case True
      then show ?thesis by (intro exI [of _ 0]) (simp add: coprime_step.simps [of slots step])
    next
      case False
      then obtain n where "n \<le> step_measure slots (next_step slots step)"
        "coprime_step slots (next_step slots step) = (next_step slots ^^ n) (next_step slots step)"
        "gcd_u128 (coprime_step slots (next_step slots step)) slots = 1"
        using 1 by blast
      then show ?thesis
        using False step_measure_decreases [OF False]
        by (intro exI [of _ "Suc n"])
           (simp add: coprime_step.simps [of slots step] funpow_Suc_right del: funpow.simps)
    qed
  qed
  moreover have "step_measure slots step \<le> unat slots"
    using assms by (auto simp: step_measure_def)
  ultimately show ?thesis by (meson order_trans)
qed

section \<open>Properties\<close>

text \<open>
  C25. As long as fewer addresses are occupied than the subnet has task slots, and the number of
  probes times the number of slots fits in 128 bits, the allocator hands out an address of a task
  slot that was free, returns its text, and marks it occupied. The second condition holds in every
  subnet with at most \<open>2 ^ 64\<close> task slots.
\<close>

theorem allocator_assigns_free_address:
  assumes "v6_text_ok show_v6 read_v6" and "overlay_layout read_v6 (oa_network al) = Ok l"
    and "fcard (oa_occupied al) < unat (task_slots l)"
    and "(fcard (oa_occupied al) + 1) * unat (task_slots l) \<le> 2 ^ 128"
  shows "\<exists>slot alloc a. slot < task_slots l \<and> a = address_for_task_slot l slot
    \<and> a |\<notin>| oa_occupied al \<and> ip_from_str read_v6 (assigned_ip alloc) = Some a
    \<and> allocator_allocate show_v6 read_v6 blake3 al task_id =
        (Ok alloc, al\<lparr>oa_occupied := finsert a (oa_occupied al)\<rparr>)"
  using allocator_allocate_finds [OF assms, of blake3 task_id] ip_text_roundtrip [OF assms(1)]
  by metis

theorem allocator_assigns_free_address_witness:
  "\<exists>a alloc. ip_from_str demo_read_v6 (assigned_ip alloc) = Some a \<and> a \<noteq> V4 167772162
     \<and> fst (allocator_allocate demo_show_v6 demo_read_v6 demo_digest
         (allocator_reserve (OverlayAddressAllocator_new demo_network) (V4 167772162)) 5) = Ok alloc"
proof -
  let ?al = "allocator_reserve (OverlayAddressAllocator_new demo_network) (V4 167772162)"
  have al: "oa_network ?al = demo_network" "oa_occupied ?al = {|V4 167772162|}"
    by (simp_all add: allocator_reserve_def OverlayAddressAllocator_new_def)
  show ?thesis
    using allocator_assigns_free_address [OF demo_v6_text, of ?al demo_layout demo_digest 5] al
      demo_overlay_layout [of demo_read_v6]
    by (auto simp: demo_layout_def fcard.rep_eq)
qed

text \<open>
  C26. As long as the number of probes times the number of task slots fits in 128 bits, as it does
  in every subnet with at most \<open>2 ^ 64\<close> task slots, and the set of occupied addresses has fewer
  than \<open>2 ^ 64\<close> elements, as a \<open>usize\<close> length says: the allocator refuses exactly if the subnet
  has no layout, it has no task slot, or at least as many addresses are occupied as it has task
  slots. Its state is then unchanged. In particular the probe window is not exhausted and the
  allocated text parses.
\<close>

theorem allocator_refusals:
  assumes "v6_text_ok show_v6 read_v6" and "fcard (oa_occupied al) < 2 ^ 64"
    and "\<forall>l. overlay_layout read_v6 (oa_network al) = Ok l \<longrightarrow> fcard (oa_occupied al) < unat (task_slots l) \<longrightarrow>
      (fcard (oa_occupied al) + 1) * unat (task_slots l) \<le> 2 ^ 128"
  shows "(fst (allocator_allocate show_v6 read_v6 blake3 al task_id) = Err e \<longleftrightarrow>
    (case overlay_layout read_v6 (oa_network al) of
       Inl e' \<Rightarrow> e = e'
     | Inr l \<Rightarrow> (task_slots l = 0 \<and> e = NoTaskCapacity) \<or>
         (task_slots l \<noteq> 0 \<and> unat (task_slots l) \<le> fcard (oa_occupied al) \<and> e = NoFreeAddress)))
    \<and> (fst (allocator_allocate show_v6 read_v6 blake3 al task_id) = Err e \<longrightarrow>
       snd (allocator_allocate show_v6 read_v6 blake3 al task_id) = al)"
proof (rule conjI; (rule impI)?)
  let ?r = "allocator_allocate show_v6 read_v6 blake3 al task_id"
  show "snd ?r = al" if "fst ?r = Err e"
    using that by (auto simp: allocator_allocate_def split: sum.splits option.splits)
  show "fst ?r = Err e \<longleftrightarrow> (case overlay_layout read_v6 (oa_network al) of
       Inl e' \<Rightarrow> e = e'
     | Inr l \<Rightarrow> (task_slots l = 0 \<and> e = NoTaskCapacity) \<or>
         (task_slots l \<noteq> 0 \<and> unat (task_slots l) \<le> fcard (oa_occupied al) \<and> e = NoFreeAddress))"
  proof (cases "overlay_layout read_v6 (oa_network al)")
    case (Inl e')
    then show ?thesis
      by (auto simp: allocator_allocate_def allocate_overlay_address_avoiding_def)
  next
    case (Inr l)
    have "fcard (oa_occupied al) < 2 ^ 128" using assms(2) by simp
    then have c: "unat (of_nat (fcard (oa_occupied al)) :: u128) = fcard (oa_occupied al)"
      by (simp add: unat_of_nat)
    show ?thesis
    proof (cases "fcard (oa_occupied al) < unat (task_slots l)")
      case True
      then have "task_slots l \<noteq> 0" by auto
      then show ?thesis
        using allocator_allocate_finds [OF assms(1) Inr True, of blake3 task_id] assms(3) Inr True
        by auto
    next
      case False
      then show ?thesis
        using Inr c by (auto simp: allocator_allocate_def allocate_overlay_address_avoiding_def Let_def
            word_le_nat_alt)
    qed
  qed
qed

theorem allocator_refusals_witness:
  "snd (allocator_allocate demo_show_v6 demo_read_v6 demo_digest
       (OverlayAddressAllocator_new \<lparr>ns_id = 1, subnet_cidr = ''10.0.0.0''\<rparr>) 5) =
     OverlayAddressAllocator_new \<lparr>ns_id = 1, subnet_cidr = ''10.0.0.0''\<rparr>"
proof -
  let ?al = "OverlayAddressAllocator_new \<lparr>ns_id = 1, subnet_cidr = ''10.0.0.0''\<rparr>"
  have "overlay_layout demo_read_v6 (oa_network ?al) = Err (Cidr MissingDelimiter)"
    by (simp add: OverlayAddressAllocator_new_def overlay_layout_def parse_overlay_cidr_def split_once_def)
  then show ?thesis
    using allocator_refusals [OF demo_v6_text, of ?al demo_digest 5 "Cidr MissingDelimiter"]
    by (simp add: OverlayAddressAllocator_new_def fcard.rep_eq)
qed

text \<open>
  C27. Beyond that bound the probe window can be exhausted while almost every slot is free. When
  \<open>n\<close> times the stride exceeds 128 bits, the saturating product is the same from probe \<open>n\<close> on, so
  only \<open>n + 1\<close> slots are ever probed, and there are at most \<open>n + 1\<close> occupied addresses with which
  the allocation fails. Arithmetic is that of a build without overflow checks; with them the
  sum of start slot and saturated product panics instead, unless the start slot is 0.
\<close>

theorem saturated_probes_fail:
  assumes layout: "overlay_layout read_v6 network = Ok l" and free: "n + 1 < unat (task_slots l)"
    and wide: "2 ^ 128 \<le> n * unat (probe_step (blake3 (uuid_bytes (ns_id network) @ uuid_bytes task_id)) (task_slots l))"
  shows "\<exists>occupied. fcard occupied \<le> n + 1 \<and>
    allocator_allocate show_v6 read_v6 blake3 \<lparr>oa_network = network, oa_occupied = occupied\<rparr> task_id =
      (Err ProbeWindowExhausted, \<lparr>oa_network = network, oa_occupied = occupied\<rparr>)"
proof -
  let ?digest = "blake3 (uuid_bytes (ns_id network) @ uuid_bytes task_id)"
  let ?start = "u128_from_le_bytes (take 16 ?digest) mod task_slots l"
  let ?probe = "\<lambda>j. address_for_task_slot l (probe_slot (task_slots l) ?start (probe_step ?digest (task_slots l)) j)"
  define occupied where "occupied = fset_of_list (map ?probe [0..<n + 1])"
  have first: "?probe j |\<in>| occupied" if "j \<le> n" for j
  proof -
    have "?probe j \<in> ?probe ` {0..<n + 1}" using that by (intro imageI) simp
    then show ?thesis by (simp only: occupied_def fset_of_list_elem set_map set_upt)
  qed
  have card: "fcard occupied \<le> n + 1"
    unfolding occupied_def fcard.rep_eq fset_of_list.rep_eq using card_length [of "map ?probe [0..<n + 1]"] by simp
  have word: "unat w < 2 ^ 128" for w :: u128
    by (rule order.strict_trans2 [OF unsigned_less]) simp
  have lt: "n + 1 < 2 ^ 128"
    using order.strict_trans [OF free word] .
  have probed: "?probe j |\<in>| occupied" if "j < 2 ^ 128" for j
  proof (cases "j \<le> n")
    case True
    then show ?thesis by (rule first)
  next
    case False
    then have "?probe j = ?probe n"
      using probe_slot_saturated [OF wide _ that] by simp
    then show ?thesis using first [of n] by simp
  qed
  have "fcard occupied < 2 ^ 128" using card lt by linarith
  then have c: "unat (of_nat (fcard occupied) :: u128) = fcard occupied"
    by (simp add: unat_of_nat)
  have "probe_loop l (\<lambda>a. a |\<in>| occupied) ?start (probe_step ?digest (task_slots l)) 0 k = None" if "k < 2 ^ 128" for k
    using probe_loop_eq [of l _ ?start _ 0 k] probed that by (auto simp: find_None_iff split: option.split)
  moreover have "\<not> task_slots l \<le> of_nat (fcard occupied)" "task_slots l \<noteq> 0"
    using c card free by (auto simp: word_le_nat_alt)
  ultimately have "allocator_allocate show_v6 read_v6 blake3 \<lparr>oa_network = network, oa_occupied = occupied\<rparr> task_id =
      (Err ProbeWindowExhausted, \<lparr>oa_network = network, oa_occupied = occupied\<rparr>)"
    using layout word [of "saturating_add (of_nat (fcard occupied)) 1"]
    by (simp add: allocator_allocate_def allocate_overlay_address_avoiding_def Let_def)
  then show ?thesis using card by blast
qed

theorem saturated_probes_fail_witness:
  "\<exists>occupied. fcard occupied \<le> 10 \<and> unat (task_slots wide_layout) = 2 ^ 125 - 1 \<and>
     fst (allocator_allocate demo_show_v6 demo_read_v6 wide_digest
       \<lparr>oa_network = wide_network, oa_occupied = occupied\<rparr> 5) = Err ProbeWindowExhausted"
proof -
  have slots: "unat (task_slots wide_layout) = 2 ^ 125 - 1"
    by (simp add: wide_layout_def)
  have "unat (probe_step (wide_digest (uuid_bytes (ns_id wide_network) @ uuid_bytes 5)) (task_slots wide_layout)) = 2 ^ 125 - 2"
    by (simp add: wide_probe_step)
  with saturated_probes_fail [OF wide_overlay_layout, of 9 wide_digest 5 demo_show_v6] slots
  show ?thesis by (auto simp: wide_digest_def)
qed

text \<open>
  C28. The search for a probe stride ends after at most as many increments as there are slots,
  and the stride it returns is coprime to the number of slots and below it, so that a walk of
  that many probes visits every slot.
\<close>

theorem probe_stride_terminates:
  assumes "1 < slots" and "step < slots"
  shows "\<exists>n \<le> unat slots. coprime_step slots step = (next_step slots ^^ n) step
    \<and> coprime_step slots step < slots
    \<and> (\<lambda>i. (unat start + i * unat (coprime_step slots step)) mod unat slots) ` {..<unat slots} = {..<unat slots}"
proof -
  let ?s = "unat (coprime_step slots step)" and ?n = "unat slots"
  let ?f = "\<lambda>i. (unat start + i * ?s) mod ?n"
  have "inj_on ?f {..<?n}"
    by (rule inj_onI) (auto dest: coprime_walk_inject [OF coprime_step_coprime])
  moreover have "?f ` {..<?n} \<subseteq> {..<?n}"
    using assms(1) by (auto simp: word_less_nat_alt)
  ultimately have "?f ` {..<?n} = {..<?n}"
    by (intro card_subset_eq) (simp_all add: card_image)
  then show ?thesis
    using next_step_iterate [OF assms(2)] coprime_step_less [OF assms] by blast
qed

theorem probe_stride_terminates_witness:
  "\<exists>n \<le> 62. coprime_step 62 4 = (next_step 62 ^^ n) 4 \<and> coprime_step 62 4 < 62"
  using probe_stride_terminates [of 62 4 0] by auto

text \<open>
  C29. The three address classes of a network never meet: as long as the subnet does not run
  over the end of the address space, a task address, a resolver address and a service address
  of one network are pairwise distinct.
\<close>

theorem address_classes_disjoint:
  assumes "v6_text_ok show_v6 read_v6"
    and parse: "parse_overlay_cidr read_v6 (subnet_cidr network) = Ok subnet"
    and space: "unat (ip_value (ps_base_ip subnet))
      + 2 ^ (unat (address_bits (ps_family subnet)) - unat (ps_prefix subnet)) \<le> 2 ^ 128"
    and task: "allocate_overlay_address_avoiding show_v6 read_v6 blake3 network task_id c is_occupied = Ok alloc"
    and t: "ip_from_str read_v6 (assigned_ip alloc) = Some t"
    and resolver: "resolver_ip_address read_v6 blake3 network node_id = Ok r"
    and vip: "compute_service_vip read_v6 blake3 network name_bytes backends = Some (v, mac)"
  shows "t \<noteq> r \<and> t \<noteq> v \<and> r \<noteq> v"
proof -
  let ?k = "unat (address_bits (ps_family subnet)) - unat (ps_prefix subnet)"
  obtain l slot where l: "overlay_layout read_v6 network = Ok l" and slot: "slot < task_slots l"
    and "assigned_ip alloc = ip_to_string show_v6 (address_for_task_slot l slot)"
    using task by (rule allocate_avoiding_slot)
  then have t_addr: "t = address_at l (2 + saturating_mul slot 4)"
    using t ip_text_roundtrip [OF assms(1)] by (simp add: address_for_task_slot_def)
  note layout = overlay_layout_bits [OF l parse]
  then have bits: "layout_bits l ?k" by blast
  obtain rslot where r: "rslot < node_slots l" "r = address_at l (1 + saturating_mul rslot 2)"
    using resolver l by (rule resolver_slot)
  obtain x where x: "unat x mod 4 = 0" "unat x < 2 ^ ?k - 1"
    and v: "v = family_ip (ps_family subnet) (saturating_add (ip_value (ps_base_ip subnet)) x)"
    using service_vip_offset [OF vip parse refl] by (elim exE conjE)
  have "saturating_add (ip_value (ps_base_ip subnet)) x = ip_value (ps_base_ip subnet) + x"
    using space x(2) by (intro saturating_add_no_overflow) linarith
  then have v_addr: "v = address_at l x"
    using v layout by (simp add: address_at_def)
  note to = task_offset [OF bits slot] and ro = resolver_offset [OF bits r(1)]
  have distinct: "address_at l y \<noteq> address_at l z"
    if "unat y mod 4 \<noteq> unat z mod 4" "unat y < 2 ^ ?k - 1" "unat z < 2 ^ ?k - 1" for y z
  proof -
    have "unat y < 2 ^ ?k" "unat z < 2 ^ ?k" using that(2,3) by linarith+
    then show ?thesis using address_at_inject [OF bits] that(1) by blast
  qed
  have task_mod: "unat (2 + saturating_mul slot 4) mod 4 = 2" unfolding to(1) by presburger
  have r_mod: "unat (1 + saturating_mul rslot 2) mod 4 \<noteq> 2" "unat (1 + saturating_mul rslot 2) mod 4 \<noteq> 0"
    unfolding ro(1) using odd_mod_4 by blast+
  have lt: "unat (2 + saturating_mul slot 4) < 2 ^ ?k - 1" "unat (1 + saturating_mul rslot 2) < 2 ^ ?k - 1"
    using to ro by simp_all
  show ?thesis
    unfolding t_addr r(2) v_addr using task_mod r_mod x lt by (intro conjI distinct) simp_all
qed

lemma demo_addresses:
  "allocate_overlay_address_avoiding demo_show_v6 demo_read_v6 demo_digest demo_network 5 0 (\<lambda>_. False) =
     Ok (allocation_from_digest demo_show_v6 (V4 167772162) (replicate 32 0))"
  "resolver_ip_address demo_read_v6 demo_digest demo_network 7 = Ok (V4 167772161)"
  "compute_service_vip demo_read_v6 demo_digest demo_network [1] [] = Some (V4 167772168, [2, 0, 0, 0, 0, 0])"
proof -
  have zero: "u128_from_le_bytes (take 16 (demo_digest bs)) = 0"
    "u128_from_le_bytes (take 16 (drop 16 (demo_digest bs))) = 0" for bs
    by (simp_all add: demo_digest_def u128_from_le_bytes_def numeral_eq_Suc)
  have "coprime_step 63 1 = 1" by (simp add: coprime_step.simps)
  then have step: "probe_step (demo_digest bs) 63 = 1" for bs
    by (simp add: probe_step_def zero)
  show "allocate_overlay_address_avoiding demo_show_v6 demo_read_v6 demo_digest demo_network 5 0 (\<lambda>_. False) =
     Ok (allocation_from_digest demo_show_v6 (V4 167772162) (replicate 32 0))"
    by (simp add: allocate_overlay_address_avoiding_def demo_overlay_layout demo_layout_def zero step Let_def
        saturating_add_def saturating_mul_def address_for_task_slot_def address_at_def)
       (simp add: demo_digest_def)
  show "resolver_ip_address demo_read_v6 demo_digest demo_network 7 = Ok (V4 167772161)"
    by (simp add: resolver_ip_address_def demo_overlay_layout demo_layout_def zero Let_def
        saturating_mul_def address_at_def)
  show "compute_service_vip demo_read_v6 demo_digest demo_network [1] [] = Some (V4 167772168, [2, 0, 0, 0, 0, 0])"
    by (simp add: compute_service_vip_def demo_network_def demo_parse Let_def zero saturating_sub_def
        fcard.rep_eq) (simp add: demo_digest_def numeral_eq_Suc,
       simp add: saturating_add_def)
qed

theorem address_classes_disjoint_witness:
  "V4 167772162 \<noteq> V4 167772161 \<and> V4 167772162 \<noteq> V4 167772168 \<and> V4 167772161 \<noteq> V4 167772168"
proof (rule address_classes_disjoint [OF demo_v6_text _ _ demo_addresses(1) _ demo_addresses(2,3)])
  show "parse_overlay_cidr demo_read_v6 (subnet_cidr demo_network) =
      Ok \<lparr>ps_base_ip = V4 167772160, ps_prefix = 24, ps_family = Ipv4\<rparr>"
    by (simp add: demo_network_def demo_parse)
  show "ip_from_str demo_read_v6 (assigned_ip (allocation_from_digest demo_show_v6 (V4 167772162) (replicate 32 0)))
      = Some (V4 167772162)"
    by (simp add: allocation_from_digest_def Let_def ip_from_str_def del: ip_to_string.simps(2))
qed simp

text \<open>
  C30. If the base address of a subnet has no host bits, every task address and every resolver
  address the code derives lies in the subnet.
\<close>

theorem addresses_in_subnet:
  assumes "v6_text_ok show_v6 read_v6"
    and parse: "parse_overlay_cidr read_v6 (subnet_cidr network) = Ok subnet"
    and aligned: "2 ^ (unat (address_bits (ps_family subnet)) - unat (ps_prefix subnet))
      dvd unat (ip_value (ps_base_ip subnet))"
    and task: "allocate_overlay_address_avoiding show_v6 read_v6 blake3 network task_id c is_occupied = Ok alloc"
    and t: "ip_from_str read_v6 (assigned_ip alloc) = Some t"
    and resolver: "resolver_ip_address read_v6 blake3 network node_id = Ok r"
  shows "network_of (ps_family subnet) (ps_prefix subnet) t =
      network_of (ps_family subnet) (ps_prefix subnet) (ps_base_ip subnet)
    \<and> network_of (ps_family subnet) (ps_prefix subnet) r =
      network_of (ps_family subnet) (ps_prefix subnet) (ps_base_ip subnet)"
proof -
  let ?k = "unat (address_bits (ps_family subnet)) - unat (ps_prefix subnet)"
  obtain l slot where l: "overlay_layout read_v6 network = Ok l" and slot: "slot < task_slots l"
    and "assigned_ip alloc = ip_to_string show_v6 (address_for_task_slot l slot)"
    using task by (rule allocate_avoiding_slot)
  then have t_addr: "t = address_at l (2 + saturating_mul slot 4)"
    using t ip_text_roundtrip [OF assms(1)] by (simp add: address_for_task_slot_def)
  have layout: "layout_bits l ?k" "ol_family l = ps_family subnet" "ol_base l = ip_value (ps_base_ip subnet)"
    using overlay_layout_bits [OF l parse] by blast+
  obtain rslot where r: "rslot < node_slots l" "r = address_at l (1 + saturating_mul rslot 2)"
    using resolver l by (rule resolver_slot)
  have "unat (2 + saturating_mul slot 4) < 2 ^ ?k" "unat (1 + saturating_mul rslot 2) < 2 ^ ?k"
    using task_offset [OF layout(1) slot] resolver_offset [OF layout(1) r(1)] by linarith+
  then show ?thesis
    using address_at_in_subnet [OF layout(1)] layout(2,3) aligned ipv4_base_less [OF parse]
    unfolding t_addr r(2) by (simp add: network_of_def)
qed

theorem addresses_in_subnet_witness:
  "network_of Ipv4 24 (V4 167772162) = network_of Ipv4 24 (V4 167772160)
   \<and> network_of Ipv4 24 (V4 167772161) = network_of Ipv4 24 (V4 167772160)"
proof -
  let ?subnet = "\<lparr>ps_base_ip = V4 167772160, ps_prefix = 24, ps_family = Ipv4\<rparr>"
  have "parse_overlay_cidr demo_read_v6 (subnet_cidr demo_network) = Ok ?subnet"
    by (simp add: demo_network_def demo_parse)
  moreover have "ip_from_str demo_read_v6 (assigned_ip (allocation_from_digest demo_show_v6 (V4 167772162) (replicate 32 0)))
      = Some (V4 167772162)"
    by (simp add: allocation_from_digest_def Let_def ip_from_str_def del: ip_to_string.simps(2))
  ultimately show ?thesis
    using addresses_in_subnet [OF demo_v6_text _ _ demo_addresses(1) _ demo_addresses(2), of ?subnet]
    by simp
qed

text \<open>
  The base address is not normalized: with a base that has host bits, the first task slot
  of \<open>10.0.0.255/24\<close> is \<open>10.0.1.1\<close>, outside the subnet.
\<close>

theorem unaligned_base_leaves_subnet:
  "\<exists>l. overlay_layout read_v6 \<lparr>ns_id = 1, subnet_cidr = ''10.0.0.255/24''\<rparr> = Ok l
     \<and> address_for_task_slot l 0 = V4 167772417
     \<and> network_of Ipv4 24 (V4 167772417) \<noteq> network_of Ipv4 24 (V4 167772415)"
proof -
  have "parse_overlay_cidr read_v6 ''10.0.0.255/24'' =
      Ok \<lparr>ps_base_ip = V4 167772415, ps_prefix = 24, ps_family = Ipv4\<rparr>"
    by (simp add: parse_overlay_cidr_def split_once_def parse_u8_def is_digit_def dec_value_def char_digit_def
        ip_from_str_def v4_from_str_def read_octet_def numeral_3_eq_3 Let_def)
  then have "overlay_layout read_v6 \<lparr>ns_id = 1, subnet_cidr = ''10.0.0.255/24''\<rparr> =
      Ok \<lparr>ol_family = Ipv4, ol_base = 167772415, node_slots = 127, task_slots = 63\<rparr>"
    by (simp add: overlay_layout_def Let_def saturating_sub_def checked_sub_def)
  then show ?thesis
    by (simp add: address_for_task_slot_def address_at_def saturating_mul_def network_of_def
        normalize_eq_iff_div [OF _ refl])
qed

end
