(* ===== verification/Health.thy ===== *)
theory Health
  imports Prelude "HOL-Library.AList" "HOL-Library.Product_Lexorder"
begin

text \<open>
  The SWIM failure detector of \<open>crates/mantissa-health/src/lib.rs\<close>. The monitor is a record,
  the hash map of peers an association list with distinct keys, and every method a function
  from the monitor to its result and the monitor after it. Instants and durations are numbers of
  nanoseconds; the clock reading of a method is its argument. Methods run one at a time: what
  concurrent calls could do between an access to the atomic incarnation and the locked peer map
  is not modelled.
\<close>

section \<open>State\<close>

datatype Status = Unknown | Alive | Suspect | Down | Degraded

datatype SwimEvent = AliveEvent uuid u64 | SuspectEvent uuid u64 | DownEvent uuid u64

datatype Action = Gossip SwimEvent | InvalidatePeer uuid

type_synonym instant = nat
type_synonym duration = nat

record PeerState =
  pst_incarnation :: u64
  pst_status :: Status
  first_failed_at :: "instant option"
  suspect_deadline :: "instant option"

definition PeerState_default :: PeerState where
  "PeerState_default = \<lparr>pst_incarnation = 0, pst_status = Unknown, first_failed_at = None,
     suspect_deadline = None\<rparr>"

record HealthMonitor =
  hm_local_id :: uuid
  hm_peers :: "(uuid \<times> PeerState) list"
  probe_cursor :: usize
  local_incarnation :: u64

primrec swim_status_rank :: "Status \<Rightarrow> u8" where
  "swim_status_rank Unknown = 0"
| "swim_status_rank Alive = 1"
| "swim_status_rank Degraded = 1"
| "swim_status_rank Suspect = 2"
| "swim_status_rank Down = 3"

text \<open>\<open>millis\<close> is the system time since the epoch, unless the clock is set before it.\<close>

definition HealthMonitor_new :: "uuid \<Rightarrow> nat option \<Rightarrow> HealthMonitor" where
  "HealthMonitor_new peer millis =
     \<lparr>hm_local_id = peer, hm_peers = [], probe_cursor = ucast peer,
      local_incarnation = max (case millis of Some ms \<Rightarrow> of_nat ms | None \<Rightarrow> 1) 1\<rparr>"

text \<open>The map entry of a peer, created with the default on first use, and the write to it.\<close>

definition peer_entry :: "HealthMonitor \<Rightarrow> uuid \<Rightarrow> PeerState" where
  "peer_entry m peer = (case map_of (hm_peers m) peer of Some s \<Rightarrow> s | None \<Rightarrow> PeerState_default)"

definition set_peer :: "HealthMonitor \<Rightarrow> uuid \<Rightarrow> PeerState \<Rightarrow> HealthMonitor" where
  "set_peer m peer s = m\<lparr>hm_peers := AList.update peer s (hm_peers m)\<rparr>"

section \<open>Operations\<close>

text \<open>\<open>fetch_add\<close> wraps, while the returned number saturates.\<close>

definition advance_local_incarnation :: "HealthMonitor \<Rightarrow> u64 \<times> HealthMonitor" where
  "advance_local_incarnation m =
     (let next = saturating_add (local_incarnation m) 1;
          m = m\<lparr>local_incarnation := local_incarnation m + 1\<rparr>;
          state = peer_entry m (hm_local_id m)
      in (next, set_peer m (hm_local_id m) (state\<lparr>pst_incarnation := max (pst_incarnation state) next\<rparr>)))"

definition next_probe_index :: "HealthMonitor \<Rightarrow> usize \<Rightarrow> usize option \<times> HealthMonitor" where
  "next_probe_index m candidates_len =
     (if candidates_len = 0 then (None, m)
      else (Some (probe_cursor m mod candidates_len),
            m\<lparr>probe_cursor := (probe_cursor m + 1) mod candidates_len\<rparr>))"

definition record_join :: "HealthMonitor \<Rightarrow> uuid \<Rightarrow> u64 \<Rightarrow> HealthMonitor" where
  "record_join m peer incarnation =
     (let known_incarnation =
            (if peer = hm_local_id m then max (local_incarnation m) incarnation else incarnation);
          m = (if peer = hm_local_id m then m\<lparr>local_incarnation := known_incarnation\<rparr> else m);
          state = peer_entry m peer
      in set_peer m peer (state\<lparr>pst_incarnation := max (pst_incarnation state) known_incarnation,
           pst_status := Alive, first_failed_at := None, suspect_deadline := None\<rparr>))"

definition record_success :: "HealthMonitor \<Rightarrow> uuid \<Rightarrow> bool \<Rightarrow> SwimEvent option \<times> HealthMonitor" where
  "record_success m peer emit_gossip =
     (let state = peer_entry m peer;
          previous = pst_status state;
          incarnation = (if pst_incarnation state = 0
            then (if peer = hm_local_id m then local_incarnation m else 1)
            else pst_incarnation state);
          incarnation = (if peer = hm_local_id m then max incarnation (local_incarnation m)
            else incarnation)
      in (if emit_gossip \<and> previous \<noteq> Alive then Some (AliveEvent peer incarnation) else None,
          set_peer m peer (state\<lparr>pst_incarnation := incarnation, pst_status := Alive,
            first_failed_at := None, suspect_deadline := None\<rparr>)))"

definition record_observation :: "HealthMonitor \<Rightarrow> uuid \<Rightarrow> SwimEvent option \<times> HealthMonitor" where
  "record_observation m peer = record_success m peer False"

definition record_probe_success :: "HealthMonitor \<Rightarrow> uuid \<Rightarrow> SwimEvent option \<times> HealthMonitor" where
  "record_probe_success m peer_id = record_success m peer_id True"

definition apply_remote_update ::
  "HealthMonitor \<Rightarrow> instant \<Rightarrow> uuid \<Rightarrow> u64 \<Rightarrow> Status \<Rightarrow> duration option \<Rightarrow> bool \<times> HealthMonitor" where
  "apply_remote_update m now peer incarnation status down_after =
     (let state = peer_entry m peer;
          should_apply = (if incarnation > pst_incarnation state then True
            else swim_status_rank status > swim_status_rank (pst_status state))
      in if incarnation < pst_incarnation state then (False, set_peer m peer state)
         else if \<not> should_apply then (False, set_peer m peer state)
         else (True, set_peer m peer \<lparr>pst_incarnation = incarnation, pst_status = status,
           first_failed_at = None,
           suspect_deadline =
             (if status = Suspect then map_option (\<lambda>delay. now + delay) down_after else None)\<rparr>))"

definition refute_self_suspicion :: "HealthMonitor \<Rightarrow> u64 \<Rightarrow> u64 option \<times> HealthMonitor" where
  "refute_self_suspicion m observed_incarnation =
     (if observed_incarnation < local_incarnation m then (None, m)
      else let next = saturating_add observed_incarnation 1;
               m = m\<lparr>local_incarnation := next\<rparr>
           in (Some next, record_join m (hm_local_id m) next))"

definition handle_alive_event :: "HealthMonitor \<Rightarrow> instant \<Rightarrow> uuid \<Rightarrow> u64 \<Rightarrow> Action list \<times> HealthMonitor" where
  "handle_alive_event m now peer incarnation =
     (if peer = hm_local_id m
      then let m = (if incarnation > local_incarnation m
                 then m\<lparr>local_incarnation := incarnation\<rparr> else m)
           in ([], record_join m peer (local_incarnation m))
      else ([], snd (apply_remote_update m now peer incarnation Alive None)))"

definition refutation :: "HealthMonitor \<Rightarrow> u64 \<Rightarrow> Action list \<times> HealthMonitor" where
  "refutation m incarnation = (case refute_self_suspicion m incarnation of
     (None, m') \<Rightarrow> ([], m')
   | (Some next, m') \<Rightarrow> ([Gossip (AliveEvent (hm_local_id m) next)], m'))"

definition handle_suspect_event ::
  "HealthMonitor \<Rightarrow> instant \<Rightarrow> uuid \<Rightarrow> u64 \<Rightarrow> duration \<Rightarrow> Action list \<times> HealthMonitor" where
  "handle_suspect_event m now peer incarnation down_after =
     (if peer = hm_local_id m then refutation m incarnation
      else ([], snd (apply_remote_update m now peer incarnation Suspect (Some down_after))))"

definition handle_down_event :: "HealthMonitor \<Rightarrow> instant \<Rightarrow> uuid \<Rightarrow> u64 \<Rightarrow> Action list \<times> HealthMonitor" where
  "handle_down_event m now peer incarnation =
     (if peer = hm_local_id m then refutation m incarnation
      else (case apply_remote_update m now peer incarnation Down None of
              (True, m') \<Rightarrow> ([InvalidatePeer peer], m')
            | (False, m') \<Rightarrow> ([], m')))"

text \<open>\<open>duration_since\<close> is zero for an earlier instant, as subtraction on numbers is.\<close>

definition record_probe_failure ::
  "HealthMonitor \<Rightarrow> instant \<Rightarrow> uuid \<Rightarrow> duration \<Rightarrow> duration \<Rightarrow> Action list \<times> HealthMonitor" where
  "record_probe_failure m now peer_id suspect_after down_after =
     (let entry = peer_entry m peer_id;
          state = entry\<lparr>pst_incarnation :=
            (if pst_incarnation entry = 0 then 1 else pst_incarnation entry)\<rparr>
      in if pst_status state = Down then ([], set_peer m peer_id state)
         else case first_failed_at state of
           None \<Rightarrow> ([], set_peer m peer_id (state\<lparr>first_failed_at := Some now\<rparr>))
         | Some failed_at \<Rightarrow>
           (if now - failed_at < suspect_after then ([], set_peer m peer_id state)
            else if pst_status state \<noteq> Suspect then
              ([Gossip (SuspectEvent peer_id (pst_incarnation state))],
               set_peer m peer_id (state\<lparr>pst_status := Suspect,
                 suspect_deadline := Some (now + down_after)\<rparr>))
            else if is_some_and (suspect_deadline state) (\<lambda>deadline. deadline \<le> now) then
              ([InvalidatePeer peer_id, Gossip (DownEvent peer_id (pst_incarnation state))],
               set_peer m peer_id (state\<lparr>pst_status := Down, first_failed_at := None,
                 suspect_deadline := None\<rparr>))
            else ([], set_peer m peer_id state)))"

definition suspicion_expired :: "instant \<Rightarrow> PeerState \<Rightarrow> bool" where
  "suspicion_expired now state \<longleftrightarrow> pst_status state = Suspect
     \<and> is_some_and (suspect_deadline state) (\<lambda>deadline. deadline \<le> now)"

definition expire_state :: "PeerState \<Rightarrow> PeerState" where
  "expire_state state = state\<lparr>pst_status := Down, first_failed_at := None, suspect_deadline := None,
     pst_incarnation := max (pst_incarnation state) 1\<rparr>"

definition expire_suspicions :: "HealthMonitor \<Rightarrow> instant \<Rightarrow> Action list \<times> HealthMonitor" where
  "expire_suspicions m now =
     (let to_down = map (\<lambda>(peer, state). (peer, pst_incarnation (expire_state state)))
            (filter (\<lambda>(peer, state). suspicion_expired now state) (hm_peers m));
          peers = map (\<lambda>(peer, state). (peer, if suspicion_expired now state then expire_state state else state))
            (hm_peers m)
      in (concat (map (\<lambda>(peer, incarnation). [InvalidatePeer peer, Gossip (DownEvent peer incarnation)]) to_down),
          m\<lparr>hm_peers := peers\<rparr>))"

definition remove_peer :: "HealthMonitor \<Rightarrow> uuid \<Rightarrow> HealthMonitor" where
  "remove_peer m peer = m\<lparr>hm_peers := AList.delete peer (hm_peers m)\<rparr>"

definition peer_status :: "HealthMonitor \<Rightarrow> uuid \<Rightarrow> Status" where
  "peer_status m peer = (case map_of (hm_peers m) peer of Some s \<Rightarrow> pst_status s | None \<Rightarrow> Unknown)"

definition health_snapshot :: "HealthMonitor \<Rightarrow> (uuid \<times> Status) list" where
  "health_snapshot m = map (\<lambda>(peer, state). (peer, pst_status state)) (hm_peers m)"

section \<open>Specification\<close>

text \<open>
  A peer is suspect exactly while it has a deadline, a peer that is down has no failure timer,
  and no operation produces the status \<open>Degraded\<close>.
\<close>

definition peer_ok :: "PeerState \<Rightarrow> bool" where
  "peer_ok s \<longleftrightarrow> (pst_status s = Suspect \<longleftrightarrow> suspect_deadline s \<noteq> None)
     \<and> pst_status s \<noteq> Degraded \<and> (pst_status s = Down \<longrightarrow> first_failed_at s = None)"

definition monitor_ok :: "HealthMonitor \<Rightarrow> bool" where
  "monitor_ok m \<longleftrightarrow> distinct (map fst (hm_peers m)) \<and> (\<forall>(peer, s) \<in> set (hm_peers m). peer_ok s)"

text \<open>The calls a node makes, in any order and at any time.\<close>

inductive health_step :: "HealthMonitor \<Rightarrow> HealthMonitor \<Rightarrow> bool" where
  join: "health_step m (record_join m peer incarnation)"
| observation: "health_step m (snd (record_observation m peer))"
| alive: "health_step m (snd (handle_alive_event m now peer incarnation))"
| suspect: "health_step m (snd (handle_suspect_event m now peer incarnation down_after))"
| down: "health_step m (snd (handle_down_event m now peer incarnation))"
| probe_success: "health_step m (snd (record_probe_success m peer))"
| probe_failure: "health_step m (snd (record_probe_failure m now peer suspect_after down_after))"
| expire: "health_step m (snd (expire_suspicions m now))"
| remove: "health_step m (remove_peer m peer)"
| advance: "health_step m (snd (advance_local_incarnation m))"
| probe_index: "health_step m (snd (next_probe_index m candidates_len))"

text \<open>What a peer's rumours are compared by: the incarnation, then the rank of the status.\<close>

definition peer_rank :: "HealthMonitor \<Rightarrow> uuid \<Rightarrow> u64 \<times> u8" where
  "peer_rank m peer = (pst_incarnation (peer_entry m peer), swim_status_rank (pst_status (peer_entry m peer)))"

primrec event_id :: "SwimEvent \<Rightarrow> uuid" where
  "event_id (AliveEvent peer i) = peer"
| "event_id (SuspectEvent peer i) = peer"
| "event_id (DownEvent peer i) = peer"

primrec event_rank :: "SwimEvent \<Rightarrow> u64 \<times> u8" where
  "event_rank (AliveEvent peer i) = (i, 1)"
| "event_rank (SuspectEvent peer i) = (i, 2)"
| "event_rank (DownEvent peer i) = (i, 3)"

text \<open>The handler of a received rumour, with the receiver's clock and suspicion time.\<close>

definition handle_event :: "duration \<Rightarrow> HealthMonitor \<Rightarrow> instant \<times> SwimEvent \<Rightarrow> HealthMonitor" where
  "handle_event down_after m rumour = (case rumour of
     (now, AliveEvent peer i) \<Rightarrow> snd (handle_alive_event m now peer i)
   | (now, SuspectEvent peer i) \<Rightarrow> snd (handle_suspect_event m now peer i down_after)
   | (now, DownEvent peer i) \<Rightarrow> snd (handle_down_event m now peer i))"

text \<open>A number of successive calls of \<open>next_probe_index\<close> with the same number of candidates.\<close>

primrec probe_indices :: "HealthMonitor \<Rightarrow> usize \<Rightarrow> nat \<Rightarrow> usize option list" where
  "probe_indices m n 0 = []"
| "probe_indices m n (Suc k) = (let (i, m') = next_probe_index m n in i # probe_indices m' n k)"

section \<open>The peer map\<close>

lemma peer_entry_set_peer [simp]:
  "peer_entry (set_peer m p s) q = (if p = q then s else peer_entry m q)"
  by (simp add: peer_entry_def set_peer_def update_conv')

lemma set_peer_fields [simp]:
  "hm_local_id (set_peer m p s) = hm_local_id m"
  "local_incarnation (set_peer m p s) = local_incarnation m"
  "probe_cursor (set_peer m p s) = probe_cursor m"
  by (simp_all add: set_peer_def)

lemma peer_entry_other_fields [simp]:
  "peer_entry (m\<lparr>local_incarnation := i\<rparr>) p = peer_entry m p"
  "peer_entry (m\<lparr>probe_cursor := c\<rparr>) p = peer_entry m p"
  by (simp_all add: peer_entry_def)

lemma peer_status_entry: "peer_status m p = pst_status (peer_entry m p)"
  by (simp add: peer_status_def peer_entry_def PeerState_default_def split: option.split)

section \<open>Well-formedness\<close>

lemma peer_ok_default [simp]: "peer_ok PeerState_default"
  by (simp add: peer_ok_def PeerState_default_def)

lemma monitor_ok_iff:
  "monitor_ok m \<longleftrightarrow> distinct (map fst (hm_peers m)) \<and> (\<forall>p s. map_of (hm_peers m) p = Some s \<longrightarrow> peer_ok s)"
  by (auto simp: monitor_ok_def dest: map_of_SomeD)

lemma peer_entry_ok [intro]: "monitor_ok m \<Longrightarrow> peer_ok (peer_entry m p)"
  by (auto simp: monitor_ok_iff peer_entry_def split: option.split)

lemma set_peer_ok [intro]: "monitor_ok m \<Longrightarrow> peer_ok s \<Longrightarrow> monitor_ok (set_peer m p s)"
  by (auto simp: monitor_ok_iff set_peer_def distinct_update update_conv')

lemma monitor_ok_fields [simp]:
  "monitor_ok (m\<lparr>local_incarnation := i\<rparr>) = monitor_ok m"
  "monitor_ok (m\<lparr>probe_cursor := c\<rparr>) = monitor_ok m"
  by (simp_all add: monitor_ok_def)

lemma monitor_ok_join: "monitor_ok m \<Longrightarrow> monitor_ok (record_join m p i)"
  by (auto simp: record_join_def Let_def peer_ok_def)

lemma monitor_ok_success: "monitor_ok m \<Longrightarrow> monitor_ok (snd (record_success m p emit))"
  by (auto simp: record_success_def Let_def peer_ok_def)

lemma monitor_ok_remote:
  assumes "monitor_ok m" and "status \<noteq> Degraded" and "status \<noteq> Suspect \<or> down_after \<noteq> None"
  shows "monitor_ok (snd (apply_remote_update m now p i status down_after))"
  using assms by (auto simp: apply_remote_update_def Let_def peer_ok_def)

lemma monitor_ok_refutation: "monitor_ok m \<Longrightarrow> monitor_ok (snd (refutation m i))"
  by (simp add: refutation_def refute_self_suspicion_def Let_def monitor_ok_join)

lemma monitor_ok_failure:
  assumes "monitor_ok m"
  shows "monitor_ok (snd (record_probe_failure m now p suspect_after down_after))"
  using assms peer_entry_ok [OF assms, of p]
  by (auto simp: record_probe_failure_def Let_def peer_ok_def split: option.split)

lemma map_of_map_values: "map_of (map (\<lambda>(k, v). (k, f v)) xs) k = map_option f (map_of xs k)"
  by (induction xs) auto

lemma peer_ok_expire: "peer_ok (expire_state s)"
  by (simp add: peer_ok_def expire_state_def)

lemma expired_peers:
  "hm_peers (snd (expire_suspicions m now)) =
     map (\<lambda>(p, s). (p, if suspicion_expired now s then expire_state s else s)) (hm_peers m)"
  by (simp add: expire_suspicions_def Let_def)

lemma monitor_ok_expire: "monitor_ok m \<Longrightarrow> monitor_ok (snd (expire_suspicions m now))"
  unfolding monitor_ok_iff expired_peers map_of_map_values
  by (auto simp: peer_ok_expire comp_def case_prod_beta')

lemma monitor_ok_step: "health_step m m' \<Longrightarrow> monitor_ok m \<Longrightarrow> monitor_ok m'"
proof (induction rule: health_step.induct)
  case (down m now p i)
  then show ?case
    using monitor_ok_remote [of m Down None now p i]
    by (auto simp: handle_down_event_def monitor_ok_refutation split: prod.split bool.split)
next
  case (remove m p)
  then show ?case
    by (auto simp: monitor_ok_iff remove_peer_def distinct_delete delete_conv')
next
  case (advance m)
  then show ?case
    using peer_entry_ok [OF advance, of "hm_local_id m"]
    by (auto simp: advance_local_incarnation_def Let_def peer_ok_def)
qed (auto simp: monitor_ok_join record_observation_def record_probe_success_def monitor_ok_success
    handle_alive_event_def handle_suspect_event_def monitor_ok_remote monitor_ok_refutation
    monitor_ok_failure monitor_ok_expire next_probe_index_def Let_def)

lemma expire_actions:
  assumes "(p, s) \<in> set (hm_peers m)" and "suspicion_expired now s"
  shows "InvalidatePeer p \<in> set (fst (expire_suspicions m now))
    \<and> Gossip (DownEvent p (max (pst_incarnation s) 1)) \<in> set (fst (expire_suspicions m now))"
  using assms by (force simp: expire_suspicions_def Let_def expire_state_def)

lemma max_one: "i \<noteq> 0 \<Longrightarrow> max i 1 = i" for i :: u64
proof -
  assume "i \<noteq> 0"
  then have "1 \<le> i" by (simp add: word_le_nat_alt unat_gt_0 Suc_le_eq)
  then show ?thesis by (rule max.absorb1)
qed

section \<open>Rumours\<close>

lemma pair_max: "max (a, b) (c, d) = (if a < c \<or> a = c \<and> b < d then (c, d) else (a, b))"
  for a c :: "'a::linorder" and b d :: "'b::linorder"
  by (auto simp: max_def)

lemma remote_update_rank:
  "peer_rank (snd (apply_remote_update m now p i status down_after)) q =
     (if p = q then max (peer_rank m p) (i, swim_status_rank status) else peer_rank m q)"
  by (auto simp: apply_remote_update_def Let_def peer_rank_def pair_max)

lemma handle_remote:
  assumes "p \<noteq> hm_local_id m"
  shows "snd (handle_alive_event m now p i) = snd (apply_remote_update m now p i Alive None)"
    and "snd (handle_suspect_event m now p i d) = snd (apply_remote_update m now p i Suspect (Some d))"
    and "snd (handle_down_event m now p i) = snd (apply_remote_update m now p i Down None)"
  using assms by (simp_all add: handle_alive_event_def handle_suspect_event_def handle_down_event_def
      split: prod.split bool.split)

lemma remote_update_local_id [simp]:
  "hm_local_id (snd (apply_remote_update m now p i status down_after)) = hm_local_id m"
  by (simp add: apply_remote_update_def Let_def)

lemma handle_event_remote:
  assumes "event_id e \<noteq> hm_local_id m"
  shows "peer_rank (handle_event down_after m (now, e)) q =
      (if event_id e = q then max (peer_rank m q) (event_rank e) else peer_rank m q)"
    and "hm_local_id (handle_event down_after m (now, e)) = hm_local_id m"
  using assms by (cases e; simp add: handle_event_def handle_remote remote_update_rank)+

lemma Max_insert_max: "finite S \<Longrightarrow> Max (insert (max a b) S) = Max (insert a (insert b S))"
  for a b :: "'a::linorder"
  by (cases "S = {}") (simp_all add: max.assoc)

text \<open>After any number of rumours, a peer's rank is the largest of the ranks seen.\<close>

lemma rumours_max:
  assumes "\<forall>(now, e) \<in> set rs. event_id e \<noteq> hm_local_id m"
  shows "peer_rank (fold (\<lambda>r m. handle_event down_after m r) rs m) q =
    Max (insert (peer_rank m q) (event_rank ` {e \<in> snd ` set rs. event_id e = q}))"
  using assms
proof (induction rs arbitrary: m)
  case (Cons r rs)
  obtain now e where r: "r = (now, e)" by fastforce
  let ?m = "handle_event down_after m r"
  have local: "hm_local_id ?m = hm_local_id m" and rank: "peer_rank ?m q =
      (if event_id e = q then max (peer_rank m q) (event_rank e) else peer_rank m q)"
    using handle_event_remote Cons(2) r by auto
  let ?S = "event_rank ` {e \<in> snd ` set rs. event_id e = q}"
  have fin: "finite ?S" by simp
  have "event_rank ` {e \<in> snd ` set (r # rs). event_id e = q} = (if event_id e = q then insert (event_rank e) ?S else ?S)"
    by (auto simp: r)
  moreover have "Max (insert (max a b) ?S) = Max (insert a (insert b ?S))" for a b
    by (rule Max_insert_max [OF fin])
  moreover have "peer_rank (fold (\<lambda>r m. handle_event down_after m r) rs ?m) q = Max (insert (peer_rank ?m q) ?S)"
    using Cons local by auto
  ultimately show ?case using rank by simp
qed (simp add: Max_insert)

text \<open>Among the statuses that occur, the rank determines the status.\<close>

lemma rank_inject:
  assumes "swim_status_rank s = swim_status_rank t" and "s \<noteq> Degraded" and "t \<noteq> Degraded"
  shows "s = t"
  using assms by (cases s; cases t) simp_all

lemma monitor_ok_rumours:
  "monitor_ok m \<Longrightarrow> monitor_ok (fold (\<lambda>r m. handle_event down_after m r) rs m)"
proof (induction rs arbitrary: m)
  case (Cons r rs)
  have "health_step m (handle_event down_after m r)"
    by (auto simp: handle_event_def split: prod.split SwimEvent.split intro: health_step.intros)
  then show ?case using Cons monitor_ok_step by simp
qed simp

section \<open>Properties\<close>

text \<open>
  C31. Every sequence of calls keeps the monitor well-formed: one entry per peer, a suspicion
  deadline exactly for suspect peers, no failure timer on a peer that is down, and no degraded
  peer.
\<close>

theorem health_calls_keep_monitor:
  assumes "health_step\<^sup>*\<^sup>* (HealthMonitor_new p millis) m"
  shows "monitor_ok m"
  using assms
proof (induction rule: rtranclp_induct)
  case base
  show ?case by (simp add: monitor_ok_def HealthMonitor_new_def)
qed (rule monitor_ok_step)

theorem health_calls_keep_monitor_witness:
  "monitor_ok (snd (record_probe_failure (record_join (HealthMonitor_new 1 (Some 5)) 2 3) 10 2 0 4))"
proof (rule health_calls_keep_monitor)
  show "health_step\<^sup>*\<^sup>* (HealthMonitor_new 1 (Some 5))
      (snd (record_probe_failure (record_join (HealthMonitor_new 1 (Some 5)) 2 3) 10 2 0 4))"
    by (meson health_step.join health_step.probe_failure rtranclp.rtrancl_into_rtrancl rtranclp.rtrancl_refl)
qed

text \<open>
  C32. The order of rumours does not matter: two monitors that agree on a remote peer and then
  receive the same rumours about remote peers, in whatever order, at whatever times and however
  often repeated, agree on the incarnation and the status of that peer.
\<close>

theorem rumours_converge:
  assumes "monitor_ok m" and "monitor_ok n" and "peer_rank m q = peer_rank n q"
    and "snd ` set rs = snd ` set ss"
    and "\<forall>e \<in> snd ` set rs. event_id e \<noteq> hm_local_id m \<and> event_id e \<noteq> hm_local_id n"
  shows "let m' = fold (\<lambda>r m. handle_event down_after m r) rs m;
             n' = fold (\<lambda>r m. handle_event down_after' m r) ss n
    in pst_incarnation (peer_entry m' q) = pst_incarnation (peer_entry n' q)
       \<and> peer_status m' q = peer_status n' q"
proof -
  let ?m = "fold (\<lambda>r m. handle_event down_after m r) rs m"
  let ?n = "fold (\<lambda>r m. handle_event down_after' m r) ss n"
  have m: "\<forall>(now, e) \<in> set rs. event_id e \<noteq> hm_local_id m" using assms(5) by force
  have "\<forall>e \<in> snd ` set ss. event_id e \<noteq> hm_local_id n" using assms(4,5) by auto
  then have n: "\<forall>(now, e) \<in> set ss. event_id e \<noteq> hm_local_id n" by force
  have "peer_rank ?m q = peer_rank ?n q"
    unfolding rumours_max [OF m] rumours_max [OF n] assms(3,4) ..
  moreover have "pst_status (peer_entry ?m q) \<noteq> Degraded" "pst_status (peer_entry ?n q) \<noteq> Degraded"
    using peer_entry_ok [OF monitor_ok_rumours [OF assms(1)]] peer_entry_ok [OF monitor_ok_rumours [OF assms(2)]]
    unfolding peer_ok_def by blast+
  ultimately show ?thesis
    using rank_inject by (simp add: Let_def peer_rank_def peer_status_entry)
qed

theorem rumours_converge_witness:
  "let m' = fold (\<lambda>r m. handle_event 9 m r) [(1, SuspectEvent 3 5), (2, AliveEvent 3 6)] (HealthMonitor_new 1 None);
       n' = fold (\<lambda>r m. handle_event 4 m r) [(7, AliveEvent 3 6), (8, SuspectEvent 3 5), (9, AliveEvent 3 6)] (HealthMonitor_new 2 None)
   in peer_status m' 3 = peer_status n' 3"
  using rumours_converge [of "HealthMonitor_new 1 None" "HealthMonitor_new 2 None" 3
      "[(1, SuspectEvent 3 5), (2, AliveEvent 3 6)]"
      "[(7, AliveEvent 3 6), (8, SuspectEvent 3 5), (9, AliveEvent 3 6)]" 9 4]
  by (simp add: monitor_ok_def HealthMonitor_new_def peer_rank_def peer_entry_def insert_commute Let_def)

text \<open>
  C33. Suspicion can be refuted: when a node hears a suspect or down rumour about itself that is
  not older than its own incarnation and does not carry the largest incarnation \<open>u64::MAX\<close>, it
  answers with an alive rumour of a larger incarnation, and a peer that held that suspicion marks
  the node alive on hearing the answer.
\<close>

theorem refutation_reaches_accuser:
  assumes "local_incarnation m \<le> i" and "i \<noteq> - 1"
    and "hm_local_id n \<noteq> hm_local_id m" and "pst_incarnation (peer_entry n (hm_local_id m)) \<le> i"
  shows "\<exists>next. i < next
    \<and> fst (handle_suspect_event m now (hm_local_id m) i down_after) = [Gossip (AliveEvent (hm_local_id m) next)]
    \<and> fst (handle_down_event m now (hm_local_id m) i) = [Gossip (AliveEvent (hm_local_id m) next)]
    \<and> local_incarnation (snd (handle_suspect_event m now (hm_local_id m) i down_after)) = next
    \<and> peer_status (snd (handle_alive_event n later (hm_local_id m) next)) (hm_local_id m) = Alive"
proof (intro exI conjI)
  let ?next = "saturating_add i 1"
  show "i < ?next" using assms(2) by (rule saturating_add_1_less)
  then have newer: "pst_incarnation (peer_entry n (hm_local_id m)) < ?next" using assms(4) by order
  show "fst (handle_suspect_event m now (hm_local_id m) i down_after) = [Gossip (AliveEvent (hm_local_id m) ?next)]"
    "fst (handle_down_event m now (hm_local_id m) i) = [Gossip (AliveEvent (hm_local_id m) ?next)]"
    "local_incarnation (snd (handle_suspect_event m now (hm_local_id m) i down_after)) = ?next"
    using assms(1) by (simp_all add: handle_suspect_event_def handle_down_event_def refutation_def
        refute_self_suspicion_def Let_def leD record_join_def)
  show "peer_status (snd (handle_alive_event n later (hm_local_id m) ?next)) (hm_local_id m) = Alive"
    using newer assms(3)
    by (simp add: handle_remote peer_status_entry apply_remote_update_def Let_def order_less_not_sym)
qed

theorem refutation_reaches_accuser_witness:
  "\<exists>next. 7 < next \<and>
     peer_status (snd (handle_alive_event
       (snd (handle_suspect_event (HealthMonitor_new 2 None) 0 1 7 5)) 3 1 next)) 1 = Alive"
proof -
  let ?m = "HealthMonitor_new 1 (Some 4)" and ?n = "snd (handle_suspect_event (HealthMonitor_new 2 None) 0 1 7 5)"
  have "hm_local_id ?n = 2" "pst_incarnation (peer_entry ?n 1) = 7"
    by (simp_all add: handle_remote HealthMonitor_new_def apply_remote_update_def Let_def)
      (simp_all add: peer_entry_def PeerState_default_def)
  moreover have "local_incarnation ?m \<le> 7" "hm_local_id ?m = 1"
    by (simp_all add: HealthMonitor_new_def)
  ultimately show ?thesis
    using refutation_reaches_accuser [of ?m 7 ?n 0 5 3] by auto
qed

text \<open>
  C34. A peer that never answers is declared down: a first failed probe starts the timer, a
  failed probe at least \<open>suspect_after\<close> later makes the peer suspect, and from
  \<open>down_after\<close> after that both the next failed probe and the expiry of suspicions declare it
  down and tell the others.
\<close>

theorem unreachable_peer_goes_down:
  assumes "pst_status (peer_entry m p) \<noteq> Down" and "pst_status (peer_entry m p) \<noteq> Suspect"
    and "first_failed_at (peer_entry m p) = None"
    and "t\<^sub>0 + suspect_after \<le> t\<^sub>1" and "t\<^sub>1 + down_after \<le> t\<^sub>2"
  shows "let m\<^sub>1 = snd (record_probe_failure m t\<^sub>0 p suspect_after down_after);
             m\<^sub>2 = snd (record_probe_failure m\<^sub>1 t\<^sub>1 p suspect_after down_after);
             (actions, m\<^sub>3) = record_probe_failure m\<^sub>2 t\<^sub>2 p suspect_after down_after;
             (actions', m\<^sub>4) = expire_suspicions m\<^sub>2 t\<^sub>2
    in peer_status m\<^sub>1 p = peer_status m p \<and> peer_status m\<^sub>2 p = Suspect
       \<and> peer_status m\<^sub>3 p = Down \<and> peer_status m\<^sub>4 p = Down
       \<and> (\<exists>i. 0 < i \<and> actions = [InvalidatePeer p, Gossip (DownEvent p i)]
            \<and> InvalidatePeer p \<in> set actions' \<and> Gossip (DownEvent p i) \<in> set actions')"
proof -
  let ?i = "if pst_incarnation (peer_entry m p) = 0 then 1 else pst_incarnation (peer_entry m p)"
  let ?s1 = "\<lparr>pst_incarnation = ?i, pst_status = pst_status (peer_entry m p),
    first_failed_at = Some t\<^sub>0, suspect_deadline = suspect_deadline (peer_entry m p)\<rparr>"
  let ?s2 = "\<lparr>pst_incarnation = ?i, pst_status = Suspect, first_failed_at = Some t\<^sub>0,
    suspect_deadline = Some (t\<^sub>1 + down_after)\<rparr>"
  have i: "?i \<noteq> 0" by simp
  define m1 where "m1 = snd (record_probe_failure m t\<^sub>0 p suspect_after down_after)"
  define m2 where "m2 = snd (record_probe_failure m1 t\<^sub>1 p suspect_after down_after)"
  have m1: "peer_entry m1 p = ?s1"
    using assms(1,3) by (cases "peer_entry m p") (simp add: m1_def record_probe_failure_def Let_def)
  have m2: "m2 = set_peer m1 p ?s2"
    using assms(1,2,4) by (simp add: m2_def record_probe_failure_def Let_def m1)
  have lookup: "map_of (hm_peers m2) p = Some ?s2"
    by (simp add: m2 set_peer_def update_conv')
  have expired: "suspicion_expired t\<^sub>2 ?s2" using assms(5) by (simp add: suspicion_expired_def)
  have "(p, ?s2) \<in> set (hm_peers m2)" using lookup by (rule map_of_SomeD)
  from expire_actions [OF this expired]
  have acts: "InvalidatePeer p \<in> set (fst (expire_suspicions m2 t\<^sub>2))"
      "Gossip (DownEvent p ?i) \<in> set (fst (expire_suspicions m2 t\<^sub>2))"
    by (simp_all add: max_one)
  have "peer_status (snd (expire_suspicions m2 t\<^sub>2)) p = Down"
    by (simp add: peer_status_def expired_peers map_of_map_values lookup expired)
       (simp add: expire_state_def)
  moreover have "record_probe_failure m2 t\<^sub>2 p suspect_after down_after =
      ([InvalidatePeer p, Gossip (DownEvent p ?i)],
       set_peer m2 p \<lparr>pst_incarnation = ?i, pst_status = Down, first_failed_at = None, suspect_deadline = None\<rparr>)"
    using assms(4,5) by (simp add: record_probe_failure_def Let_def m2)
  ultimately show ?thesis
    using acts i m1 m2
    by (simp add: Let_def m1_def [symmetric] m2_def [symmetric] peer_status_entry case_prod_beta' word_gt_0)
qed

theorem unreachable_peer_goes_down_witness:
  "let m\<^sub>1 = snd (record_probe_failure (record_join (HealthMonitor_new 1 None) 2 3) 100 2 10 30);
       m\<^sub>2 = snd (record_probe_failure m\<^sub>1 110 2 10 30)
   in peer_status m\<^sub>2 2 = Suspect \<and> peer_status (snd (record_probe_failure m\<^sub>2 140 2 10 30)) 2 = Down"
proof -
  let ?m = "record_join (HealthMonitor_new 1 None) 2 3"
  have "pst_status (peer_entry ?m 2) = Alive" "first_failed_at (peer_entry ?m 2) = None"
    by (simp_all add: record_join_def Let_def HealthMonitor_new_def)
  then show ?thesis
    using unreachable_peer_goes_down [of ?m 2 100 10 110 30 140] by (simp add: Let_def case_prod_beta')
qed

lemma cursor_step:
  assumes "n \<noteq> 0" and "c \<noteq> - 1"
  shows "unat ((c + 1) mod n) = (unat c + 1) mod unat n" and "(c + 1) mod n \<noteq> - 1"
proof -
  have "c + 1 \<noteq> 0" using assms(2) by (simp add: eq_neg_iff_add_eq_0)
  then have "unat (c + 1) = unat c + 1" using unatSuc [of c] by (simp add: add.commute)
  then show "unat ((c + 1) mod n) = (unat c + 1) mod unat n" by (simp add: unat_mod)
  have "(c + 1) mod n < n" using assms(1) by (simp add: word_less_nat_alt unat_mod unat_gt_0)
  then show "(c + 1) mod n \<noteq> - 1" by (metis word_order.extremum_strict)
qed

lemma probe_indices_walk:
  assumes "n \<noteq> 0" and "probe_cursor m \<noteq> - 1"
  shows "probe_indices m n k = map (\<lambda>i. Some (of_nat ((unat (probe_cursor m) + i) mod unat n))) [0..<k]"
  using assms(2)
proof (induction k arbitrary: m)
  case (Suc k)
  let ?c = "probe_cursor m" and ?m = "m\<lparr>probe_cursor := (probe_cursor m + 1) mod n\<rparr>"
  note step = cursor_step [OF assms(1) Suc(2)]
  have "probe_indices ?m n k = map (\<lambda>i. Some (of_nat ((unat ?c + Suc i) mod unat n))) [0..<k]"
    using Suc(1) [of ?m] step by (simp add: mod_add_left_eq)
  moreover have "of_nat (unat ?c mod unat n) = ?c mod n"
    by (simp flip: unat_mod)
  ultimately show ?case
    using assms(1) by (simp add: next_probe_index_def map_upt_Suc del: upt_Suc)
qed simp

text \<open>
  Probing is fair: with a fixed number of candidates, that many successive calls of
  \<open>next_probe_index\<close> return every index once.
\<close>

theorem probing_is_fair:
  assumes "n \<noteq> 0" and "probe_cursor m \<noteq> - 1"
  shows "distinct (probe_indices m n (unat n)) \<and> set (probe_indices m n (unat n)) = Some ` {..<n}"
proof -
  let ?g = "\<lambda>i. (unat (probe_cursor m) + i) mod unat n"
  have pos: "0 < unat n" using assms(1) by (simp add: unat_gt_0)
  have inj: "inj_on (of_nat :: nat \<Rightarrow> usize) {..<unat n}"
  proof (rule inj_onI)
    fix i j assume "i \<in> {..<unat n}" "j \<in> {..<unat n}" and eq: "(of_nat i :: usize) = of_nat j"
    then have "i < 2 ^ 64" "j < 2 ^ 64" using unat_bounds(1) [of n] by simp_all
    then have "unat (of_nat i :: usize) = i" "unat (of_nat j :: usize) = j" by (simp_all add: unat_of_nat)
    then show "i = j" using eq by metis
  qed
  have "of_nat ` {..<unat n} = {..<n}"
  proof
    show "of_nat ` {..<unat n} \<subseteq> {..<n}"
    proof safe
      fix i assume "i < unat n"
      then have "i mod 2 ^ 64 < unat n" using order_le_less_trans [OF mod_less_eq_dividend] by blast
      then show "of_nat i < n" by (simp add: word_less_nat_alt unat_of_nat)
    qed
    show "{..<n} \<subseteq> of_nat ` {..<unat n}"
    proof
      fix x assume "x \<in> {..<n}"
      then have "unat x \<in> {..<unat n}" by (simp add: word_less_nat_alt)
      then show "x \<in> of_nat ` {..<unat n}" by (rule image_eqI [rotated]) simp
    qed
  qed
  moreover have g: "?g ` {..<unat n} = {..<unat n}" "inj_on ?g {..<unat n}"
    by (rule mod_walk_image(2) [OF pos], rule mod_walk_image(1) [OF pos])
  ultimately have "Some ` of_nat ` ?g ` {..<unat n} = Some ` {..<n}" by (simp only:)
  then have set_eq: "(\<lambda>i. Some (of_nat (?g i))) ` {..<unat n} = Some ` {..<n}"
    by (simp only: image_image)
  have "inj_on ((of_nat :: nat \<Rightarrow> usize) \<circ> ?g) {..<unat n}"
    using g inj by (intro comp_inj_on) (simp_all only:)
  then have "inj_on (\<lambda>i. Some (of_nat (?g i) :: usize)) {..<unat n}"
    by (simp add: inj_on_def)
  then show ?thesis
    unfolding probe_indices_walk [OF assms]
    using set_eq by (simp add: distinct_map atLeast0LessThan)
qed

theorem probing_is_fair_witness:
  "distinct (probe_indices (HealthMonitor_new 5 None) 3 3)
   \<and> set (probe_indices (HealthMonitor_new 5 None) 3 3) = Some ` {..<3}"
  using probing_is_fair [of 3 "HealthMonitor_new 5 None"] by (simp add: HealthMonitor_new_def)

text \<open>
  C35. The incarnation is not monotonic at its end: after an alive rumour about the node itself
  with the largest incarnation, advancing returns that largest number again but stores zero, and
  the node then answers a suspicion of that incarnation with no larger one.
\<close>

theorem incarnation_wraps:
  "let m = snd (handle_alive_event (HealthMonitor_new p millis) now p (- 1));
       (next, m') = advance_local_incarnation m
   in local_incarnation m = - 1 \<and> next = - 1 \<and> local_incarnation m' = 0
      \<and> fst (refute_self_suspicion m' (- 1)) = Some (- 1)"
proof -
  have "saturating_add (- 1) (1 :: u64) = - 1"
    by (simp add: word_unat_eq_iff unat_saturating_add unsigned_minus_1_eq_mask mask_eq_exp_minus_1)
  moreover have "max (x :: u64) (- 1) = - 1" "max (- 1) (x :: u64) = - 1" for x
    by (simp_all add: max_def word_order.extremum_unique)
  ultimately show ?thesis
    by (auto simp: handle_alive_event_def HealthMonitor_new_def record_join_def advance_local_incarnation_def
        refute_self_suspicion_def Let_def max_def not_less word_order.extremum_unique)
qed

end
