(* ===== verification/Service_Dependencies.thy ===== *)
theory Service_Dependencies
  imports Rust_Text
begin

text \<open>
  The deployment order of \<open>src/services/dependencies.rs\<close>: task templates name the templates they
  depend on, and the templates are grouped into stages so that every dependency is in an earlier
  stage. Indices and counts are natural numbers, whose subtraction is \<open>saturating_sub\<close>; no
  count exceeds the number of templates. The loop over the stages is a partial function: on a
  graph that is not built from templates it need not end.
\<close>

section \<open>Templates\<close>

text \<open>The fields of a template that the order depends on.\<close>

record TaskTemplateSpecValue =
  ttsv_name :: string
  depends_on :: "string list"

datatype TemplateDependencyStage = TemplateDependencyStage (template_indices: "nat list")

datatype DependencyError =
    EmptyTemplateName
  | DuplicateTemplate string
  | EmptyDependency string
  | SelfDependency string
  | DuplicateDependency string string
  | UnknownDependency string string
  | DependencyCycle

fun index_templates :: "nat \<Rightarrow> TaskTemplateSpecValue list \<Rightarrow> (string \<rightharpoonup> nat)
    \<Rightarrow> (string \<rightharpoonup> nat, DependencyError) result" where
  "index_templates index [] name_to_index = Ok name_to_index"
| "index_templates index (template # templates) name_to_index =
     (if trim (ttsv_name template) = [] then Err EmptyTemplateName
      else if name_to_index (ttsv_name template) \<noteq> None
      then Err (DuplicateTemplate (ttsv_name template))
      else index_templates (index + 1) templates (name_to_index(ttsv_name template \<mapsto> index)))"

section \<open>The graph\<close>

record Graph =
  adjacency :: "nat list list"
  indegree :: "nat list"

fun add_dependencies :: "(string \<rightharpoonup> nat) \<Rightarrow> nat \<Rightarrow> string \<Rightarrow> string list \<Rightarrow> string list \<Rightarrow> Graph
    \<Rightarrow> (Graph, DependencyError) result" where
  "add_dependencies name_to_index index template_name seen [] g = Ok g"
| "add_dependencies name_to_index index template_name seen (dependency # dependencies) g =
     (let dependency_name = trim dependency in
      if dependency_name = [] then Err (EmptyDependency template_name)
      else if dependency_name = template_name then Err (SelfDependency template_name)
      else if dependency_name \<in> set seen
      then Err (DuplicateDependency template_name dependency_name)
      else case name_to_index dependency_name of
        None \<Rightarrow> Err (UnknownDependency template_name dependency_name)
      | Some dependency_index \<Rightarrow>
          add_dependencies name_to_index index template_name (dependency_name # seen) dependencies
            (g\<lparr>adjacency := (adjacency g)[dependency_index := adjacency g ! dependency_index @ [index]],
               indegree := (indegree g)[index := indegree g ! index + 1]\<rparr>))"

fun add_templates :: "(string \<rightharpoonup> nat) \<Rightarrow> nat \<Rightarrow> TaskTemplateSpecValue list \<Rightarrow> Graph
    \<Rightarrow> (Graph, DependencyError) result" where
  "add_templates name_to_index index [] g = Ok g"
| "add_templates name_to_index index (template # templates) g =
     (case add_dependencies name_to_index index (ttsv_name template) [] (depends_on template) g of
        Inl e \<Rightarrow> Err e
      | Inr g' \<Rightarrow> add_templates name_to_index (index + 1) templates g')"

section \<open>The stages\<close>

text \<open>One dependent of a template of the current stage, and all of them in order.\<close>

definition relax :: "nat \<Rightarrow> nat list \<times> bool list \<Rightarrow> nat list \<times> bool list" where
  "relax dependent = (\<lambda>(degrees, next_ready).
     (let d = degrees ! dependent - 1
      in (degrees[dependent := d], if d = 0 then next_ready[dependent := True] else next_ready)))"

definition relax_stage :: "nat list list \<Rightarrow> nat list \<Rightarrow> nat list \<Rightarrow> nat list \<times> bool list" where
  "relax_stage adj degrees current_stage =
     fold (\<lambda>index. fold relax (adj ! index)) current_stage
       (degrees, replicate (length degrees) False)"

definition ready_indices :: "bool list \<Rightarrow> nat list" where
  "ready_indices next_ready = filter (\<lambda>index. next_ready ! index) [0..<length next_ready]"

partial_function (option) stage_loop :: "nat list list \<Rightarrow> nat list \<Rightarrow> nat list \<Rightarrow> nat
    \<Rightarrow> TemplateDependencyStage list \<Rightarrow> (nat \<times> TemplateDependencyStage list) option" where
  "stage_loop adj degrees current_stage visited stages =
     (if current_stage = [] then Some (visited, stages)
      else stage_loop adj (fst (relax_stage adj degrees current_stage))
             (ready_indices (snd (relax_stage adj degrees current_stage)))
             (visited + length current_stage)
             (stages @ [TemplateDependencyStage current_stage]))"

declare stage_loop.simps [code]

text \<open>\<open>None\<close> is a loop that does not end.\<close>

definition build_template_dependency_stages :: "TaskTemplateSpecValue list
    \<Rightarrow> (TemplateDependencyStage list, DependencyError) result option" where
  "build_template_dependency_stages templates =
     (case index_templates 0 templates Map.empty of
        Inl e \<Rightarrow> Some (Err e)
      | Inr name_to_index \<Rightarrow>
        (case add_templates name_to_index 0 templates
             \<lparr>adjacency = replicate (length templates) [], indegree = replicate (length templates) 0\<rparr> of
           Inl e \<Rightarrow> Some (Err e)
         | Inr g \<Rightarrow>
           (case stage_loop (adjacency g) (indegree g)
               (filter (\<lambda>index. indegree g ! index = 0) [0..<length (indegree g)]) 0 [] of
              None \<Rightarrow> None
            | Some (visited, stages) \<Rightarrow>
                Some (if visited \<noteq> length templates then Err DependencyCycle else Ok stages))))"

section \<open>Specification\<close>

text \<open>Template \<open>j\<close> depends on template \<open>i\<close>.\<close>

definition depends :: "TaskTemplateSpecValue list \<Rightarrow> (nat \<times> nat) set" where
  "depends templates = {(i, j). i < length templates \<and> j < length templates
     \<and> ttsv_name (templates ! i) \<in> trim ` set (depends_on (templates ! j))}"

definition dependencies_ok :: "string set \<Rightarrow> TaskTemplateSpecValue \<Rightarrow> bool" where
  "dependencies_ok names template \<longleftrightarrow>
     distinct (map trim (depends_on template))
     \<and> (\<forall>d \<in> trim ` set (depends_on template). d \<noteq> [] \<and> d \<noteq> ttsv_name template \<and> d \<in> names)"

definition templates_ok :: "TaskTemplateSpecValue list \<Rightarrow> bool" where
  "templates_ok templates \<longleftrightarrow>
     distinct (map ttsv_name templates) \<and> (\<forall>t \<in> set templates. trim (ttsv_name t) \<noteq> [])
     \<and> (\<forall>t \<in> set templates. dependencies_ok (ttsv_name ` set templates) t)"

text \<open>A graph represents a relation on its nodes: successors without repetition, and in-degrees.\<close>

definition graph_of :: "nat \<Rightarrow> (nat \<times> nat) set \<Rightarrow> Graph \<Rightarrow> bool" where
  "graph_of n E g \<longleftrightarrow> length (adjacency g) = n \<and> length (indegree g) = n \<and> E \<subseteq> {..<n} \<times> {..<n}
     \<and> (\<forall>i < n. distinct (adjacency g ! i) \<and> set (adjacency g ! i) = E `` {i})
     \<and> (\<forall>j < n. indegree g ! j = card (E\<inverse> `` {j}))"

definition name_index :: "TaskTemplateSpecValue list \<Rightarrow> string \<rightharpoonup> nat" where
  "name_index templates = map_of (zip (map ttsv_name templates) [0..<length templates])"

text \<open>Adding one edge to a graph.\<close>

abbreviation add_edge :: "nat \<Rightarrow> nat \<Rightarrow> Graph \<Rightarrow> Graph" where
  "add_edge i j g \<equiv> g\<lparr>adjacency := (adjacency g)[i := adjacency g ! i @ [j]],
     indegree := (indegree g)[j := indegree g ! j + 1]\<rparr>"

abbreviation empty_graph :: "nat \<Rightarrow> Graph" where
  "empty_graph n \<equiv> \<lparr>adjacency = replicate n [], indegree = replicate n 0\<rparr>"

definition edges_to :: "TaskTemplateSpecValue list \<Rightarrow> nat \<Rightarrow> string set \<Rightarrow> (nat \<times> nat) set" where
  "edges_to ts j names = {(i, j') . j' = j \<and> i < length ts \<and> ttsv_name (ts ! i) \<in> names}"

definition depends_below :: "TaskTemplateSpecValue list \<Rightarrow> nat \<Rightarrow> (nat \<times> nat) set" where
  "depends_below ts k = {(i, j) \<in> depends ts. j < k}"

text \<open>
  The state at the head of the loop: the templates of \<open>D\<close> are placed, the degrees count the
  dependencies outside \<open>D\<close>, and the current stage is what has no dependency left.
\<close>

definition open_degree :: "(nat \<times> nat) set \<Rightarrow> nat set \<Rightarrow> nat \<Rightarrow> nat" where
  "open_degree E D j = card (E\<inverse> `` {j} - D)"

definition stage_state :: "nat \<Rightarrow> (nat \<times> nat) set \<Rightarrow> nat set \<Rightarrow> nat list \<Rightarrow> nat list \<Rightarrow> bool" where
  "stage_state n E D degrees current_stage \<longleftrightarrow>
     length degrees = n \<and> D \<subseteq> {..<n} \<and> (\<forall>j < n. degrees ! j = open_degree E D j)
     \<and> distinct current_stage \<and> sorted current_stage
     \<and> set current_stage = {j. j < n \<and> j \<notin> D \<and> open_degree E D j = 0}
     \<and> (\<forall>j \<in> D. open_degree E D j = 0)"

text \<open>
  What the stages are: the first \<open>k\<close> stages place some templates, and stage \<open>k\<close> lists, in the
  order of the manifest, every other template whose dependencies they place.
\<close>

definition placed_before :: "TemplateDependencyStage list \<Rightarrow> nat \<Rightarrow> nat set" where
  "placed_before stages k = (\<Union>s \<in> set (take k stages). set (template_indices s))"

abbreviation placed :: "TemplateDependencyStage list \<Rightarrow> nat set" where
  "placed stages \<equiv> placed_before stages (length stages)"

definition staged :: "nat \<Rightarrow> (nat \<times> nat) set \<Rightarrow> TemplateDependencyStage list \<Rightarrow> bool" where
  "staged n E stages \<longleftrightarrow> distinct (concat (map template_indices stages))
     \<and> (\<forall>s \<in> set stages. template_indices s \<noteq> [])
     \<and> (\<forall>k < length stages. template_indices (stages ! k) =
             filter (\<lambda>j. E\<inverse> `` {j} \<subseteq> placed_before stages k \<and> j \<notin> placed_before stages k) [0..<n])"

definition demo_templates :: "TaskTemplateSpecValue list" where
  "demo_templates =
     [\<lparr>ttsv_name = ''web'', depends_on = [''api'', '' db'']\<rparr>, \<lparr>ttsv_name = ''db'', depends_on = []\<rparr>,
      \<lparr>ttsv_name = ''api'', depends_on = [''db'']\<rparr>]"

definition demo_stages :: "TemplateDependencyStage list" where
  "demo_stages = map TemplateDependencyStage [[1], [2], [0]]"

section \<open>Reading the templates\<close>

lemma name_index_nil [simp]: "name_index [] = Map.empty"
  by (simp add: name_index_def)

lemma name_index_None_iff: "name_index ts x = None \<longleftrightarrow> x \<notin> ttsv_name ` set ts"
  by (simp add: name_index_def map_of_zip_is_None)

lemma name_index_snoc:
  assumes "ttsv_name t \<notin> ttsv_name ` set ts"
  shows "name_index (ts @ [t]) = (name_index ts)(ttsv_name t \<mapsto> length ts)"
proof -
  have "name_index ts (ttsv_name t) = None"
    using assms by (simp add: name_index_None_iff)
  moreover have "name_index (ts @ [t]) = [ttsv_name t \<mapsto> length ts] ++ name_index ts"
    by (simp add: name_index_def)
  ultimately show ?thesis
    by (auto simp: map_add_def split: option.splits)
qed

lemma name_index_Some_iff:
  assumes "distinct (map ttsv_name ts)"
  shows "name_index ts x = Some i \<longleftrightarrow> i < length ts \<and> ttsv_name (ts ! i) = x"
proof -
  have "name_index ts x = Some i \<longleftrightarrow> (x, i) \<in> set (zip (map ttsv_name ts) [0..<length ts])"
    unfolding name_index_def using assms by (intro map_of_eq_Some_iff) simp
  also have "\<dots> \<longleftrightarrow> i < length ts \<and> ttsv_name (ts ! i) = x"
    by (auto simp: in_set_zip intro!: exI [of _ i])
  finally show ?thesis .
qed

lemma index_templates_run:
  assumes "distinct (map ttsv_name (ps @ ts))" "\<forall>t \<in> set ts. trim (ttsv_name t) \<noteq> []"
  shows "index_templates (length ps) ts (name_index ps) = Ok (name_index (ps @ ts))"
  using assms
proof (induction ts arbitrary: ps)
  case (Cons t ts)
  then have "ttsv_name t \<notin> ttsv_name ` set ps"
    by auto
  then show ?case
    using Cons.IH [of "ps @ [t]"] Cons.prems
    by (simp add: name_index_snoc name_index_None_iff del: fun_upd_apply)
qed simp

lemma index_templates_Ok:
  assumes "distinct (map ttsv_name ps)" "index_templates (length ps) ts (name_index ps) = Ok m"
  shows "distinct (map ttsv_name (ps @ ts)) \<and> (\<forall>t \<in> set ts. trim (ttsv_name t) \<noteq> [])"
  using assms
proof (induction ts arbitrary: ps)
  case (Cons t ts)
  have new: "ttsv_name t \<notin> ttsv_name ` set ps"
    using Cons.prems(2) by (auto simp: name_index_None_iff [symmetric] split: if_splits)
  then have "index_templates (length (ps @ [t])) ts (name_index (ps @ [t])) = Ok m"
    "trim (ttsv_name t) \<noteq> []"
    using Cons.prems(2) by (simp_all add: name_index_snoc split: if_splits)
  moreover have "distinct (map ttsv_name (ps @ [t]))"
    using Cons.prems(1) new by simp
  ultimately show ?case
    using Cons.IH [of "ps @ [t]"] by simp
qed simp

lemma index_templates_iff:
  "index_templates 0 ts Map.empty = Ok m
     \<longleftrightarrow> distinct (map ttsv_name ts) \<and> (\<forall>t \<in> set ts. trim (ttsv_name t) \<noteq> []) \<and> m = name_index ts"
  using index_templates_run [of "[]" ts] index_templates_Ok [of "[]" ts m]
  by (cases "distinct (map ttsv_name ts) \<and> (\<forall>t \<in> set ts. trim (ttsv_name t) \<noteq> [])") auto

lemma index_templates_not_cycle: "index_templates i ts m \<noteq> Err DependencyCycle"
  by (induction i ts m rule: index_templates.induct) (simp_all del: fun_upd_apply)

section \<open>Building the graph\<close>

lemma graph_of_finite:
  assumes "graph_of n E g"
  shows "finite E"
proof -
  have "finite ({..<n} \<times> {..<n})"
    by simp
  then show ?thesis
    using assms finite_subset unfolding graph_of_def by blast
qed

lemma graph_of_add_edge:
  assumes g: "graph_of n E g" and i: "i < n" and j: "j < n" and new: "(i, j) \<notin> E"
  shows "graph_of n (insert (i, j) E) (add_edge i j g)"
proof -
  have fin: "finite (E\<inverse> `` {k})" for k
    using graph_of_finite [OF g] by (simp add: finite_Image)
  have img: "insert (i, j) E `` {k} = (if k = i then insert j (E `` {k}) else E `` {k})" for k
    by auto
  have pre: "(insert (i, j) E)\<inverse> `` {k} = (if k = j then insert i (E\<inverse> `` {k}) else E\<inverse> `` {k})" for k
    by auto
  have "i \<notin> E\<inverse> `` {j}" "j \<notin> E `` {i}"
    using new by auto
  then show ?thesis
    using g i j fin unfolding graph_of_def img pre by (simp add: nth_list_update)
qed

lemma edges_to_insert:
  assumes "distinct (map ttsv_name ts)" "i < length ts" "ttsv_name (ts ! i) = x"
  shows "edges_to ts j (insert x names) = insert (i, j) (edges_to ts j names)"
  using assms by (auto simp: edges_to_def distinct_conv_nth)

lemma edges_to_empty [simp]: "edges_to ts j {} = {}"
  by (simp add: edges_to_def)

lemma add_dependencies_Ok:
  assumes "distinct (map ttsv_name ts)" "j < length ts"
    "graph_of (length ts) (E \<union> edges_to ts j (set seen)) g" "E `` UNIV \<subseteq> {..<j}"
    "add_dependencies (name_index ts) j nm seen ds g = Ok g'"
  shows "graph_of (length ts) (E \<union> edges_to ts j (set seen \<union> trim ` set ds)) g'"
    and "distinct (map trim ds)" and "trim ` set ds \<inter> set seen = {}"
    and "\<forall>d \<in> trim ` set ds. d \<noteq> [] \<and> d \<noteq> nm \<and> d \<in> ttsv_name ` set ts"
  using assms
proof (atomize (full), induction ds arbitrary: seen g)
  case (Cons d ds)
  obtain i where ok: "trim d \<noteq> []" "trim d \<noteq> nm" "trim d \<notin> set seen"
      and i: "name_index ts (trim d) = Some i"
      and rest: "add_dependencies (name_index ts) j nm (trim d # seen) ds (add_edge i j g) = Ok g'"
    using Cons.prems by (auto simp: Let_def split: if_splits option.splits)
  have i': "i < length ts" "ttsv_name (ts ! i) = trim d"
    using i Cons.prems by (auto simp: name_index_Some_iff)
  have "(i, j) \<notin> E"
    using Cons.prems by auto
  then have "(i, j) \<notin> E \<union> edges_to ts j (set seen)"
    using ok i' by (simp add: edges_to_def)
  then have "graph_of (length ts) (E \<union> edges_to ts j (set (trim d # seen))) (add_edge i j g)"
    using graph_of_add_edge [of "length ts" "E \<union> edges_to ts j (set seen)" g i j] Cons.prems i'
    by (simp add: edges_to_insert [OF _ i'])
  then have "graph_of (length ts) (E \<union> edges_to ts j (set (trim d # seen) \<union> trim ` set ds)) g'
      \<and> distinct (map trim ds) \<and> trim ` set ds \<inter> set (trim d # seen) = {}
      \<and> (\<forall>d \<in> trim ` set ds. d \<noteq> [] \<and> d \<noteq> nm \<and> d \<in> ttsv_name ` set ts)"
    using Cons.IH [of "trim d # seen" "add_edge i j g"] Cons.prems rest by blast
  moreover have "trim d \<in> ttsv_name ` set ts"
    using i' by (metis image_eqI nth_mem)
  ultimately show ?case
    using ok by auto
qed simp

lemma add_dependencies_run:
  assumes "distinct (map trim ds)" "trim ` set ds \<inter> set seen = {}"
    and "\<forall>d \<in> trim ` set ds. d \<noteq> [] \<and> d \<noteq> nm \<and> m d \<noteq> None"
  shows "\<exists>g'. add_dependencies m j nm seen ds g = Ok g'"
  using assms
proof (induction ds arbitrary: seen g)
  case (Cons d ds)
  then obtain i where "m (trim d) = Some i"
    by auto
  then show ?case
    using Cons.IH [of "trim d # seen" "add_edge i j g"] Cons.prems by (auto simp: Let_def)
qed simp

lemma add_dependencies_not_cycle: "add_dependencies m j nm seen ds g \<noteq> Err DependencyCycle"
  by (induction m j nm seen ds g rule: add_dependencies.induct) (auto simp: Let_def split: option.splits)

lemma depends_below_Suc:
  assumes "k < length ts"
  shows "depends_below ts (Suc k) = depends_below ts k \<union> edges_to ts k (trim ` set (depends_on (ts ! k)))"
  using assms by (auto simp: depends_below_def depends_def edges_to_def less_Suc_eq)

lemma depends_below_length: "depends_below ts (length ts) = depends ts"
  by (auto simp: depends_below_def depends_def)

lemma add_templates_Ok:
  assumes "distinct (map ttsv_name ts)" "k \<le> length ts"
    "graph_of (length ts) (depends_below ts k) g"
    "add_templates (name_index ts) k (drop k ts) g = Ok g'"
  shows "graph_of (length ts) (depends ts) g'
    \<and> (\<forall>t \<in> set (drop k ts). dependencies_ok (ttsv_name ` set ts) t)"
  using assms
proof (induction "length ts - k" arbitrary: k g)
  case 0
  then have "k = length ts"
    by simp
  then show ?case
    using 0 depends_below_length [of ts] by auto
next
  case (Suc r)
  then have k: "k < length ts"
    by simp
  then have drop: "drop k ts = ts ! k # drop (Suc k) ts"
    by (simp add: Cons_nth_drop_Suc)
  obtain g1 where g1: "add_dependencies (name_index ts) k (ttsv_name (ts ! k)) [] (depends_on (ts ! k)) g = Ok g1"
      and rest: "add_templates (name_index ts) (Suc k) (drop (Suc k) ts) g1 = Ok g'"
    using Suc.prems(4) unfolding drop by (auto split: sum.splits)
  have below: "depends_below ts k `` UNIV \<subseteq> {..<k}"
    by (auto simp: depends_below_def)
  note facts = add_dependencies_Ok [OF Suc.prems(1) k _ below g1]
  have "graph_of (length ts) (depends_below ts (Suc k)) g1"
    "dependencies_ok (ttsv_name ` set ts) (ts ! k)"
    using facts Suc.prems(3) k by (simp_all add: depends_below_Suc dependencies_ok_def)
  then show ?case
    using Suc.hyps(1) [of "Suc k" g1] Suc.hyps(2) Suc.prems(1) k rest unfolding drop by simp
qed

lemma add_templates_run:
  assumes "\<forall>t \<in> set ts. dependencies_ok (dom m) t"
  shows "\<exists>g'. add_templates m k ts g = Ok g'"
  using assms
proof (induction ts arbitrary: k g)
  case (Cons t ts)
  have "\<exists>g'. add_dependencies m k (ttsv_name t) [] (depends_on t) g = Ok g'"
    using Cons.prems by (intro add_dependencies_run) (auto simp: dependencies_ok_def)
  then show ?case
    using Cons by auto
qed simp

lemma add_templates_not_cycle: "add_templates m k ts g \<noteq> Err DependencyCycle"
  by (induction m k ts g rule: add_templates.induct)
    (auto simp: add_dependencies_not_cycle split: sum.splits)

section \<open>Running the stages\<close>

lemma fold_relax:
  "length (fst (fold relax xs s)) = length (fst s) \<and> length (snd (fold relax xs s)) = length (snd s)"
  by (induction xs arbitrary: s) (simp_all add: relax_def Let_def split: prod.splits)

lemma fold_relax_degree:
  assumes "j < length degrees"
  shows "fst (fold relax xs (degrees, ready)) ! j = degrees ! j - count_list xs j"
  using assms by (induction xs arbitrary: degrees ready) (auto simp: relax_def Let_def nth_list_update)

lemma fold_relax_ready:
  assumes "j < length degrees" "length ready = length degrees"
  shows "snd (fold relax xs (degrees, ready)) ! j
    \<longleftrightarrow> ready ! j \<or> (j \<in> set xs \<and> degrees ! j \<le> count_list xs j)"
  using assms
proof (induction xs arbitrary: degrees ready)
  case (Cons x xs)
  show ?case
  proof (cases "x = j")
    case True
    have "0 < count_list xs j \<longleftrightarrow> j \<in> set xs"
      by (metis count_list_0_iff gr0I less_numeral_extra(3))
    then show ?thesis
      using Cons True by (auto simp: relax_def Let_def nth_list_update)
  next
    case False
    then show ?thesis
      using Cons by (auto simp: relax_def Let_def nth_list_update)
  qed
qed simp

lemma relax_stage_concat:
  "relax_stage adj degrees current_stage =
     fold relax (concat (map (\<lambda>i. adj ! i) current_stage)) (degrees, replicate (length degrees) False)"
proof -
  have "fold (\<lambda>index. fold relax (adj ! index)) is s = fold relax (concat (map (\<lambda>i. adj ! i) is)) s" for "is" s
    by (induction "is" arbitrary: s) simp_all
  then show ?thesis
    by (simp add: relax_stage_def)
qed

lemma count_list_concat_map:
  assumes "distinct is" "\<And>i. i \<in> set is \<Longrightarrow> distinct (f i)"
  shows "count_list (concat (map f is)) j = card {i \<in> set is. j \<in> set (f i)}"
  using assms
proof (induction "is")
  case (Cons i "is")
  have "count_list xs j = (if j \<in> set xs then 1 else 0)" if "distinct xs" for xs
    using that by (induction xs) auto
  then have "count_list (f i) j = (if j \<in> set (f i) then 1 else 0)"
    using Cons.prems(2) [of i] by simp
  moreover have "{k \<in> set (i # is). j \<in> set (f k)} =
      (if j \<in> set (f i) then insert i {k \<in> set is. j \<in> set (f k)} else {k \<in> set is. j \<in> set (f k)})"
    by auto
  ultimately show ?case
    using Cons by simp
qed simp

lemma open_degree_0:
  assumes "finite E"
  shows "open_degree E D j = 0 \<longleftrightarrow> E\<inverse> `` {j} \<subseteq> D"
proof -
  have "finite (E\<inverse> `` {j} - D)"
    using assms by (simp add: finite_Image)
  then show ?thesis
    unfolding open_degree_def by (simp add: Diff_eq_empty_iff)
qed

lemma open_degree_split:
  assumes "finite E" "D \<inter> C = {}"
  shows "open_degree E D j = open_degree E (D \<union> C) j + card (E\<inverse> `` {j} \<inter> C)"
proof -
  have "finite (E\<inverse> `` {j})"
    using assms by (simp add: finite_Image)
  moreover have "E\<inverse> `` {j} - D = (E\<inverse> `` {j} - (D \<union> C)) \<union> (E\<inverse> `` {j} \<inter> C)"
    using assms by auto
  moreover have "(E\<inverse> `` {j} - (D \<union> C)) \<inter> (E\<inverse> `` {j} \<inter> C) = {}"
    by auto
  ultimately show ?thesis
    unfolding open_degree_def by (metis card_Un_disjoint finite_Diff finite_Int)
qed

lemma dependents_count:
  assumes "graph_of n E g" "distinct is" "set is \<subseteq> {..<n}"
  shows "count_list (concat (map (\<lambda>i. adjacency g ! i) is)) j = card (E\<inverse> `` {j} \<inter> set is)"
    and "j \<in> set (concat (map (\<lambda>i. adjacency g ! i) is)) \<longleftrightarrow> E\<inverse> `` {j} \<inter> set is \<noteq> {}"
proof -
  have adj: "distinct (adjacency g ! i)" "set (adjacency g ! i) = E `` {i}" if "i \<in> set is" for i
    using assms that by (auto simp: graph_of_def)
  have "count_list (concat (map (\<lambda>i. adjacency g ! i) is)) j = card {i \<in> set is. j \<in> set (adjacency g ! i)}"
    using assms adj by (intro count_list_concat_map) auto
  also have "{i \<in> set is. j \<in> set (adjacency g ! i)} = E\<inverse> `` {j} \<inter> set is"
    using adj by auto
  finally show "count_list (concat (map (\<lambda>i. adjacency g ! i) is)) j = card (E\<inverse> `` {j} \<inter> set is)" .
  show "j \<in> set (concat (map (\<lambda>i. adjacency g ! i) is)) \<longleftrightarrow> E\<inverse> `` {j} \<inter> set is \<noteq> {}"
    using adj by auto
qed

lemma stage_stateD:
  assumes "stage_state n E D degrees current_stage"
  shows "length degrees = n" "distinct current_stage" "set current_stage \<subseteq> {..<n}"
    "D \<inter> set current_stage = {}" "D \<subseteq> {..<n}"
    and "j < n \<Longrightarrow> degrees ! j = open_degree E D j"
    and "j \<in> D \<union> set current_stage \<Longrightarrow> open_degree E D j = 0"
    and "\<lbrakk>j < n; open_degree E D j = 0\<rbrakk> \<Longrightarrow> j \<in> D \<union> set current_stage"
    and "sorted current_stage" "set current_stage = {j. j < n \<and> j \<notin> D \<and> open_degree E D j = 0}"
  using assms by (auto simp: stage_state_def)

lemma relax_stage_result:
  assumes g: "graph_of n E g" and st: "stage_state n E D degrees current_stage" and j: "j < n"
  shows "fst (relax_stage (adjacency g) degrees current_stage) ! j
      = open_degree E (D \<union> set current_stage) j"
    and "snd (relax_stage (adjacency g) degrees current_stage) ! j
      \<longleftrightarrow> E\<inverse> `` {j} \<inter> set current_stage \<noteq> {} \<and> open_degree E (D \<union> set current_stage) j = 0"
proof -
  note st' = stage_stateD [OF st]
  define xs where "xs = concat (map (\<lambda>i. adjacency g ! i) current_stage)"
  note xs = dependents_count [OF g st'(2,3), folded xs_def]
  have split: "degrees ! j = open_degree E (D \<union> set current_stage) j + count_list xs j"
    using open_degree_split [OF graph_of_finite [OF g] st'(4)] st'(6) [OF j] by (simp add: xs)
  show "fst (relax_stage (adjacency g) degrees current_stage) ! j = open_degree E (D \<union> set current_stage) j"
    using fold_relax_degree [of j degrees xs] j st'(1) split
    by (simp add: relax_stage_concat xs_def)
  show "snd (relax_stage (adjacency g) degrees current_stage) ! j
      \<longleftrightarrow> E\<inverse> `` {j} \<inter> set current_stage \<noteq> {} \<and> open_degree E (D \<union> set current_stage) j = 0"
    using fold_relax_ready [of j degrees "replicate n False" xs] j st'(1) split xs(2) [of j]
    by (simp add: relax_stage_concat xs_def [symmetric])
qed

lemma newly_ready:
  assumes fin: "finite E" and st: "stage_state n E D degrees current_stage" and j: "j < n"
    and zero: "open_degree E (D \<union> set current_stage) j = 0"
  shows "E\<inverse> `` {j} \<inter> set current_stage \<noteq> {} \<longleftrightarrow> j \<notin> D \<union> set current_stage"
proof -
  note st' = stage_stateD [OF st]
  have "open_degree E D j = card (E\<inverse> `` {j} \<inter> set current_stage)"
    using open_degree_split [OF fin st'(4), of j] zero by simp
  then have "E\<inverse> `` {j} \<inter> set current_stage = {} \<longleftrightarrow> open_degree E D j = 0"
    by simp
  then show ?thesis
    using st'(7) [of j] st'(8) [OF j] by metis
qed

lemma stage_state_step:
  assumes g: "graph_of n E g" and st: "stage_state n E D degrees current_stage"
  shows "stage_state n E (D \<union> set current_stage)
    (fst (relax_stage (adjacency g) degrees current_stage))
    (ready_indices (snd (relax_stage (adjacency g) degrees current_stage)))"
proof -
  let ?D = "D \<union> set current_stage"
  note st' = stage_stateD [OF st] and fin = graph_of_finite [OF g]
  have lens: "length (fst (relax_stage (adjacency g) degrees current_stage)) = n"
    "length (snd (relax_stage (adjacency g) degrees current_stage)) = n"
    using st'(1) by (simp_all add: relax_stage_concat fold_relax)
  have "open_degree E ?D j = 0" if "j \<in> ?D" for j
    using st'(7) [OF that] open_degree_0 [OF fin] by blast
  moreover have "set (ready_indices (snd (relax_stage (adjacency g) degrees current_stage)))
      = {j. j < n \<and> j \<notin> ?D \<and> open_degree E ?D j = 0}"
    using relax_stage_result(2) [OF g st] newly_ready [OF fin st] lens
    by (auto simp: ready_indices_def)
  ultimately show ?thesis
    using lens st'(3,5) relax_stage_result(1) [OF g st]
    unfolding stage_state_def by (simp add: ready_indices_def sorted_wrt_filter)
qed

lemma stage_state_start:
  assumes "graph_of n E g"
  shows "stage_state n E {} (indegree g) (filter (\<lambda>i. indegree g ! i = 0) [0..<length (indegree g)])"
  using assms by (auto simp: graph_of_def stage_state_def open_degree_def sorted_wrt_filter)

lemma placed_snoc [simp]:
  "placed_before (stages @ [s]) (Suc (length stages)) = placed stages \<union> set (template_indices s)"
  by (simp add: placed_before_def Un_commute)

lemma placed_eq: "placed stages = set (concat (map template_indices stages))"
  by (simp add: placed_before_def)

lemma placed_nil [simp]: "placed_before [] k = {}"
  by (simp add: placed_before_def)

lemma placed_before_snoc:
  "k \<le> length stages \<Longrightarrow> placed_before (stages @ [s]) k = placed_before stages k"
  by (simp add: placed_before_def)

lemma current_stage_eq:
  assumes "finite E" "stage_state n E D degrees current_stage"
  shows "current_stage = filter (\<lambda>j. E\<inverse> `` {j} \<subseteq> D \<and> j \<notin> D) [0..<n]"
proof (rule sorted_distinct_set_unique)
  note st' = stage_stateD [OF assms(2)]
  show "sorted current_stage" "distinct current_stage"
    by (fact st')+
  show "sorted (filter (\<lambda>j. E\<inverse> `` {j} \<subseteq> D \<and> j \<notin> D) [0..<n])"
    "distinct (filter (\<lambda>j. E\<inverse> `` {j} \<subseteq> D \<and> j \<notin> D) [0..<n])"
    by (simp_all add: sorted_wrt_filter)
  show "set current_stage = set (filter (\<lambda>j. E\<inverse> `` {j} \<subseteq> D \<and> j \<notin> D) [0..<n])"
    unfolding st'(10) open_degree_0 [OF assms(1)] by auto
qed

lemma staged_snoc:
  assumes "finite E" "stage_state n E (placed stages) degrees current_stage" "staged n E stages"
    "current_stage \<noteq> []"
  shows "staged n E (stages @ [TemplateDependencyStage current_stage])"
proof -
  have "distinct current_stage" "set (concat (map template_indices stages)) \<inter> set current_stage = {}"
    using stage_stateD(2,4) [OF assms(2)] by (simp_all add: placed_eq)
  then show ?thesis
    using assms(3,4) current_stage_eq [OF assms(1,2)]
    by (simp add: staged_def nth_append placed_before_snoc less_Suc_eq)
qed

text \<open>The loop ends, because every round places a template; it ends with nothing left to place.\<close>

lemma stage_loop_ends:
  assumes g: "graph_of n E g" and st: "stage_state n E (placed stages) degrees current_stage"
    and sg: "staged n E stages" and v: "visited = card (placed stages)"
  shows "\<exists>stages' degrees'. stage_loop (adjacency g) degrees current_stage visited stages
      = Some (card (placed stages'), stages')
    \<and> stage_state n E (placed stages') degrees' [] \<and> staged n E stages'"
  using st sg v
proof (induction "n - card (placed stages)" arbitrary: degrees current_stage visited stages rule: less_induct)
  case less
  note st' = stage_stateD [OF less.prems(1)]
  show ?case
  proof (cases "current_stage = []")
    case True
    then show ?thesis
      using less.prems by (subst stage_loop.simps) auto
  next
    case False
    let ?stages = "stages @ [TemplateDependencyStage current_stage]"
    have sub: "placed ?stages \<subseteq> {..<n}"
      using st'(3,5) by simp
    have card: "card (placed ?stages) = visited + length current_stage"
      using st'(2,4,5) less.prems(3) finite_subset [OF st'(5)]
      by (simp add: card_Un_disjoint distinct_card)
    moreover have "card (placed ?stages) \<le> n" "0 < length current_stage"
      using card_mono [OF _ sub] False by simp_all
    ultimately have "n - card (placed ?stages) < n - card (placed stages)"
      using less.prems(3) by linarith
    then have "\<exists>stages' degrees'. stage_loop (adjacency g)
        (fst (relax_stage (adjacency g) degrees current_stage))
        (ready_indices (snd (relax_stage (adjacency g) degrees current_stage)))
        (visited + length current_stage) ?stages = Some (card (placed stages'), stages')
      \<and> stage_state n E (placed stages') degrees' [] \<and> staged n E stages'"
      using less.hyps [of ?stages] stage_state_step [OF g less.prems(1)] card
        staged_snoc [OF graph_of_finite [OF g] less.prems(1,2) False] by simp
    then show ?thesis
      using False by (subst stage_loop.simps) simp
  qed
qed

text \<open>Nothing is left to place: all is placed exactly if no dependency is circular.\<close>

lemma placed_before_mono: "k \<le> k' \<Longrightarrow> placed_before stages k \<subseteq> placed_before stages k'"
  using set_take_subset_set_take [of k k' stages] by (auto simp: placed_before_def)

lemma staged_rank:
  assumes sg: "staged n E stages" and ij: "(i, j) \<in> E" and j: "j \<in> placed stages"
  shows "(LEAST k. i \<in> placed_before stages k) < (LEAST k. j \<in> placed_before stages k)"
proof -
  obtain s where "s \<in> set stages" "j \<in> set (template_indices s)"
    using j by (auto simp: placed_eq)
  then obtain k where "k < length stages" "j \<in> set (template_indices (stages ! k))"
    by (metis in_set_conv_nth)
  then have k: "j \<in> set (filter (\<lambda>j. E\<inverse> `` {j} \<subseteq> placed_before stages k \<and> j \<notin> placed_before stages k) [0..<n])"
    using sg unfolding staged_def by (metis (no_types, lifting))
  then have i: "i \<in> placed_before stages k" and jk: "j \<notin> placed_before stages k"
    using ij by auto
  have "j \<in> placed_before stages (LEAST k. j \<in> placed_before stages k)"
    using j by (rule LeastI)
  then have "\<not> (LEAST k. j \<in> placed_before stages k) \<le> k"
    using jk placed_before_mono by blast
  then show ?thesis
    using Least_le [of "\<lambda>k. i \<in> placed_before stages k", OF i] by linarith
qed

lemma all_placed_iff_acyclic:
  assumes fin: "finite E" and E: "E \<subseteq> {..<n} \<times> {..<n}"
    and st: "stage_state n E (placed stages) degrees []" and sg: "staged n E stages"
  shows "placed stages = {..<n} \<longleftrightarrow> acyclic E"
proof
  assume "placed stages = {..<n}"
  then have "E \<subseteq> measure (\<lambda>j. LEAST k. j \<in> placed_before stages k)"
    using E staged_rank [OF sg] by auto
  then show "acyclic E"
    using wf_acyclic [OF wf_measure] acyclic_subset by metis
next
  assume "acyclic E"
  then have wf: "wf E"
    using fin by (rule finite_acyclic_wf [rotated])
  have closed: "j \<in> placed stages" if "j < n" "E\<inverse> `` {j} \<subseteq> placed stages" for j
    using stage_stateD(8) [OF st that(1)] that(2) by (simp add: open_degree_0 [OF fin])
  have "j \<in> placed stages" if "j < n" for j
    using wf that
  proof (induction j rule: wf_induct_rule)
    case (less j)
    then have "E\<inverse> `` {j} \<subseteq> placed stages"
      using E by auto
    then show ?case
      using closed less.prems by blast
  qed
  then show "placed stages = {..<n}"
    using stage_stateD(5) [OF st] by auto
qed

text \<open>The three phases together.\<close>

lemma graph_of_empty:
  "graph_of n {} \<lparr>adjacency = replicate n [], indegree = replicate n 0\<rparr>"
  by (simp add: graph_of_def)

lemma add_templates_start:
  assumes "distinct (map ttsv_name ts)" "add_templates (name_index ts) 0 ts (empty_graph (length ts)) = Ok g"
  shows "graph_of (length ts) (depends ts) g" "\<forall>t \<in> set ts. dependencies_ok (ttsv_name ` set ts) t"
proof -
  have "depends_below ts 0 = {}"
    by (simp add: depends_below_def)
  then have "graph_of (length ts) (depends_below ts 0) (empty_graph (length ts))"
    using graph_of_empty [of "length ts"] by (simp only:)
  from add_templates_Ok [OF assms(1) _ this, of g] assms(2)
  show "graph_of (length ts) (depends ts) g" "\<forall>t \<in> set ts. dependencies_ok (ttsv_name ` set ts) t"
    by simp_all
qed

lemma build_graph:
  assumes "templates_ok ts"
  obtains g where "index_templates 0 ts Map.empty = Ok (name_index ts)"
    and "add_templates (name_index ts) 0 ts (empty_graph (length ts)) = Ok g"
    and "graph_of (length ts) (depends ts) g"
proof -
  have idx: "index_templates 0 ts Map.empty = Ok (name_index ts)" and d: "distinct (map ttsv_name ts)"
    using assms by (auto simp: index_templates_iff templates_ok_def)
  have "dom (name_index ts) = ttsv_name ` set ts"
    by (simp add: dom_def name_index_None_iff)
  then obtain g where g: "add_templates (name_index ts) 0 ts (empty_graph (length ts)) = Ok g"
    using add_templates_run [of ts "name_index ts"] assms unfolding templates_ok_def by metis
  show thesis
    using that idx g add_templates_start(1) [OF d g] by blast
qed

lemma build_valid:
  assumes "templates_ok ts"
  shows "\<exists>stages. build_template_dependency_stages ts =
      Some (if acyclic (depends ts) then Ok stages else Err DependencyCycle)
    \<and> (acyclic (depends ts) \<longrightarrow> staged (length ts) (depends ts) stages \<and> placed stages = {..<length ts})"
proof -
  obtain g where g: "index_templates 0 ts Map.empty = Ok (name_index ts)"
    "add_templates (name_index ts) 0 ts (empty_graph (length ts)) = Ok g"
    "graph_of (length ts) (depends ts) g"
    using build_graph [OF assms] .
  have start: "staged (length ts) (depends ts) []"
    by (simp add: staged_def)
  obtain stages degrees where run: "stage_loop (adjacency g) (indegree g)
        (filter (\<lambda>i. indegree g ! i = 0) [0..<length (indegree g)]) 0 [] = Some (card (placed stages), stages)"
      and fin: "stage_state (length ts) (depends ts) (placed stages) degrees []"
      and sg: "staged (length ts) (depends ts) stages"
    using stage_loop_ends [OF g(3) _ start refl, unfolded placed_nil card.empty, OF stage_state_start [OF g(3)]]
    by (elim exE conjE that)
  have "depends ts \<subseteq> {..<length ts} \<times> {..<length ts}"
    by (auto simp: depends_def)
  note iff = all_placed_iff_acyclic [OF graph_of_finite [OF g(3)] this fin sg]
  have "card (placed stages) = length ts \<longleftrightarrow> acyclic (depends ts)"
    using card_subset_eq [OF finite_lessThan stage_stateD(5) [OF fin]] iff by (metis card_lessThan)
  then have "build_template_dependency_stages ts =
      Some (if acyclic (depends ts) then Ok stages else Err DependencyCycle)"
    unfolding build_template_dependency_stages_def g(1) sum.case g(2) run option.case prod.case by simp
  then show ?thesis
    using sg iff by blast
qed

lemma build_invalid:
  assumes "\<not> templates_ok ts"
  shows "\<exists>e. build_template_dependency_stages ts = Some (Err e) \<and> e \<noteq> DependencyCycle"
proof (cases "index_templates 0 ts Map.empty")
  case (Inl e)
  then show ?thesis
    using index_templates_not_cycle [of 0 ts Map.empty] by (auto simp: build_template_dependency_stages_def)
next
  case (Inr m)
  then have names: "distinct (map ttsv_name ts)" "\<forall>t \<in> set ts. trim (ttsv_name t) \<noteq> []" "m = name_index ts"
    by (simp_all add: index_templates_iff)
  let ?r = "add_templates m 0 ts (empty_graph (length ts))"
  have "?r \<noteq> Ok g" for g
    using assms names add_templates_start(2) [OF names(1), of g] unfolding templates_ok_def by metis
  then obtain e where "?r = Err e"
    by (metis obj_sumE)
  then show ?thesis
    using Inr add_templates_not_cycle [of m 0 ts "empty_graph (length ts)"]
    by (auto simp: build_template_dependency_stages_def)
qed

section \<open>Properties\<close>

text \<open>
  C36. The stages of an accepted manifest hold every template once. None is empty. Stage \<open>k\<close>
  lists, in manifest order, exactly the templates not placed before whose dependencies are all in
  the first \<open>k\<close> stages; so dependencies come strictly earlier and no template waits longer than
  its depth.
\<close>

theorem stages_are_dependency_layers:
  assumes "build_template_dependency_stages templates = Some (Ok stages)"
  shows "distinct (concat (map template_indices stages))
    \<and> set (concat (map template_indices stages)) = {..<length templates}
    \<and> (\<forall>s \<in> set stages. template_indices s \<noteq> [])
    \<and> (\<forall>k < length stages. template_indices (stages ! k) =
         filter (\<lambda>j. (depends templates)\<inverse> `` {j} \<subseteq> placed_before stages k
           \<and> j \<notin> placed_before stages k) [0..<length templates])"
proof -
  have "templates_ok templates"
    using build_invalid [of templates] assms by auto
  from build_valid [OF this] have "staged (length templates) (depends templates) stages"
    "placed stages = {..<length templates}"
    using assms by (auto split: if_splits)
  then show ?thesis
    unfolding staged_def placed_eq by blast
qed

lemma demo_templates_stages: "build_template_dependency_stages demo_templates = Some (Ok demo_stages)"
  by code_simp

theorem stages_are_dependency_layers_witness:
  "build_template_dependency_stages demo_templates = Some (Ok demo_stages)
   \<and> template_indices (demo_stages ! 2) =
       filter (\<lambda>j. (depends demo_templates)\<inverse> `` {j} \<subseteq> placed_before demo_stages 2
         \<and> j \<notin> placed_before demo_stages 2) [0..<length demo_templates]"
proof -
  have "2 < length demo_stages"
    by (simp add: demo_stages_def)
  then show ?thesis
    using stages_are_dependency_layers [OF demo_templates_stages] demo_templates_stages by blast
qed

text \<open>
  C37. The ordering always ends. It accepts a manifest exactly if the templates are named, with
  no name twice, every dependency names another template and none is repeated, and no
  dependency is circular; it reports a cycle exactly if only the last condition fails.
\<close>

theorem stages_verdict:
  "(\<exists>r. build_template_dependency_stages templates = Some r)
   \<and> ((\<exists>stages. build_template_dependency_stages templates = Some (Ok stages))
        \<longleftrightarrow> templates_ok templates \<and> acyclic (depends templates))
   \<and> (build_template_dependency_stages templates = Some (Err DependencyCycle)
        \<longleftrightarrow> templates_ok templates \<and> \<not> acyclic (depends templates))"
proof (cases "templates_ok templates")
  case True
  obtain stages where "build_template_dependency_stages templates =
      Some (if acyclic (depends templates) then Ok stages else Err DependencyCycle)"
    using build_valid [OF True] by (elim exE conjE that)
  then show ?thesis
    using True by simp
next
  case False
  obtain e where "build_template_dependency_stages templates = Some (Err e)" "e \<noteq> DependencyCycle"
    using build_invalid [OF False] by (elim exE conjE that)
  then show ?thesis
    using False by simp
qed

end
