(* ===== verification/Service_Ordering.thy ===== *)
theory Service_Ordering
  imports Rust_Ord "HOL-Library.Char_ord"
begin

text \<open>
  The preference between two rows of one service (\<open>src/services/ordering.rs\<close>), the choice of a
  row among the concurrent ones (\<open>src/services/registry.rs\<close>) and the acceptance of an update.
  The types of templates, of the strategy and the policies and of the reschedule lock are type
  parameters with a linear order: the rows only copy and compare them. The parser of RFC 3339
  timestamps is a parameter.
\<close>

section \<open>Rows\<close>

datatype ServiceStatus = Deploying | VolumeUnavailable | Running | Stopping | Stopped | Failed

datatype ServiceStatusRank = DeployingFailedOrUnavailable | RankRunning | RankStopping | RankStopped

datatype ServiceRolloutPhase = Idle | RollingForward | RollingBack | PhaseFailed

primrec precedence_rank :: "ServiceStatus \<Rightarrow> ServiceStatusRank" where
  "precedence_rank Deploying = DeployingFailedOrUnavailable"
| "precedence_rank Failed = DeployingFailedOrUnavailable"
| "precedence_rank VolumeUnavailable = DeployingFailedOrUnavailable"
| "precedence_rank Running = RankRunning"
| "precedence_rank Stopping = RankStopping"
| "precedence_rank Stopped = RankStopped"

record ServiceRolloutState =
  rollout_phase :: ServiceRolloutPhase
  total_steps :: u32
  completed_steps :: u32
  failed_steps :: u32
  max_failures :: "16 word"
  last_error :: "string option"

record ServiceReplicaAssignmentSegment =
  template_name :: string
  first_replica :: "16 word"
  replica_count :: "16 word"

record ('tt, 'us, 'dp, 'ap) ServicePreviousGeneration =
  spg_manifest_id :: uuid
  spg_manifest_name :: string
  spg_task_templates :: "'tt list"
  spg_replica_ids :: "uuid list"
  spg_replica_assignment_segments :: "ServiceReplicaAssignmentSegment list"
  spg_update_strategy :: 'us
  spg_deployment_policy :: 'dp
  spg_admission_policy :: 'ap
  spg_service_epoch :: u64
  spg_status :: ServiceStatus

record ('tt, 'us, 'dp, 'ap, 'rl) ServiceSpecValue =
  service_id :: uuid
  manifest_id :: uuid
  manifest_name :: string
  service_name :: string
  task_templates :: "'tt list"
  replica_ids :: "uuid list"
  replica_assignment_segments :: "ServiceReplicaAssignmentSegment list"
  updated_at :: string
  update_strategy :: 'us
  deployment_policy :: 'dp
  admission_policy :: 'ap
  service_epoch :: u64
  phase_version :: u64
  rollout :: ServiceRolloutState
  status :: ServiceStatus
  status_detail :: "string option"
  previous_generation :: "('tt, 'us, 'dp, 'ap) ServicePreviousGeneration option"
  reschedule_lock :: "'rl option"

definition has_assigned_replicas :: "('tt, 'us, 'dp, 'ap, 'rl) ServiceSpecValue \<Rightarrow> bool" where
  "has_assigned_replicas spec \<longleftrightarrow> replica_ids spec \<noteq> [] \<or> replica_assignment_segments spec \<noteq> []"

section \<open>Derived orders\<close>

text \<open>\<open>derive(Ord)\<close>: fields in their order, variants by their position, \<open>None\<close> first.\<close>

definition lex_cmp :: "('a \<Rightarrow> 'a \<Rightarrow> Ordering) list \<Rightarrow> 'a \<Rightarrow> 'a \<Rightarrow> Ordering" where
  "lex_cmp cs x y = foldr (\<lambda>c. then_with (c x y)) cs Equal"

definition on_field :: "('a \<Rightarrow> 'b) \<Rightarrow> ('b \<Rightarrow> 'b \<Rightarrow> Ordering) \<Rightarrow> 'a \<Rightarrow> 'a \<Rightarrow> Ordering" where
  "on_field f c x y = c (f x) (f y)"

fun option_cmp :: "('a \<Rightarrow> 'a \<Rightarrow> Ordering) \<Rightarrow> 'a option \<Rightarrow> 'a option \<Rightarrow> Ordering" where
  "option_cmp c None None = Equal"
| "option_cmp c None (Some y) = Less"
| "option_cmp c (Some x) None = Greater"
| "option_cmp c (Some x) (Some y) = c x y"

primrec status_index :: "ServiceStatus \<Rightarrow> nat" where
  "status_index Deploying = 0"
| "status_index VolumeUnavailable = 1"
| "status_index Running = 2"
| "status_index Stopping = 3"
| "status_index Stopped = 4"
| "status_index Failed = 5"

primrec rank_index :: "ServiceStatusRank \<Rightarrow> nat" where
  "rank_index DeployingFailedOrUnavailable = 0"
| "rank_index RankRunning = 1"
| "rank_index RankStopping = 2"
| "rank_index RankStopped = 3"

primrec phase_index :: "ServiceRolloutPhase \<Rightarrow> nat" where
  "phase_index Idle = 0"
| "phase_index RollingForward = 1"
| "phase_index RollingBack = 2"
| "phase_index PhaseFailed = 3"

definition rollout_cmp :: "ServiceRolloutState \<Rightarrow> ServiceRolloutState \<Rightarrow> Ordering" where
  "rollout_cmp = lex_cmp [on_field (phase_index \<circ> rollout_phase) cmp, on_field total_steps cmp,
     on_field completed_steps cmp, on_field failed_steps cmp, on_field max_failures cmp,
     on_field last_error (option_cmp (list_cmp cmp))]"

definition segment_cmp :: "ServiceReplicaAssignmentSegment \<Rightarrow> ServiceReplicaAssignmentSegment \<Rightarrow> Ordering" where
  "segment_cmp = lex_cmp [on_field template_name (list_cmp cmp), on_field first_replica cmp,
     on_field replica_count cmp]"

definition previous_generation_cmp ::
  "('tt::linorder, 'us::linorder, 'dp::linorder, 'ap::linorder) ServicePreviousGeneration
    \<Rightarrow> ('tt, 'us, 'dp, 'ap) ServicePreviousGeneration \<Rightarrow> Ordering" where
  "previous_generation_cmp = lex_cmp [on_field spg_manifest_id cmp,
     on_field spg_manifest_name (list_cmp cmp), on_field spg_task_templates (list_cmp cmp),
     on_field spg_replica_ids (list_cmp cmp),
     on_field spg_replica_assignment_segments (list_cmp segment_cmp),
     on_field spg_update_strategy cmp, on_field spg_deployment_policy cmp,
     on_field spg_admission_policy cmp, on_field spg_service_epoch cmp,
     on_field (status_index \<circ> spg_status) cmp]"

definition spec_cmp ::
  "('tt::linorder, 'us::linorder, 'dp::linorder, 'ap::linorder, 'rl::linorder) ServiceSpecValue
    \<Rightarrow> ('tt, 'us, 'dp, 'ap, 'rl) ServiceSpecValue \<Rightarrow> Ordering" where
  "spec_cmp = lex_cmp [on_field service_id cmp, on_field manifest_id cmp,
     on_field manifest_name (list_cmp cmp), on_field service_name (list_cmp cmp),
     on_field task_templates (list_cmp cmp), on_field replica_ids (list_cmp cmp),
     on_field replica_assignment_segments (list_cmp segment_cmp),
     on_field updated_at (list_cmp cmp), on_field update_strategy cmp,
     on_field deployment_policy cmp, on_field admission_policy cmp, on_field service_epoch cmp,
     on_field phase_version cmp, on_field rollout rollout_cmp, on_field (status_index \<circ> status) cmp,
     on_field status_detail (option_cmp (list_cmp cmp)),
     on_field previous_generation (option_cmp previous_generation_cmp),
     on_field reschedule_lock (option_cmp cmp)]"

section \<open>Preference\<close>

fun compare_timestamps :: "(string \<Rightarrow> 't::linorder option) \<Rightarrow> string \<Rightarrow> string \<Rightarrow> Ordering" where
  "compare_timestamps parse_timestamp left right =
     (case (parse_timestamp left, parse_timestamp right) of
        (Some left_ts, Some right_ts) \<Rightarrow> cmp left_ts right_ts
      | (None, Some _) \<Rightarrow> Less
      | (Some _, None) \<Rightarrow> Greater
      | (None, None) \<Rightarrow> Equal)"

definition compare_causal_tuple :: "(string \<Rightarrow> 't::linorder option)
    \<Rightarrow> ('tt, 'us, 'dp, 'ap, 'rl) ServiceSpecValue \<Rightarrow> ('tt, 'us, 'dp, 'ap, 'rl) ServiceSpecValue
    \<Rightarrow> Ordering" where
  "compare_causal_tuple parse_timestamp left right =
     then_with (cmp (service_epoch left) (service_epoch right))
       (then_with (cmp (phase_version left) (phase_version right))
         (then_with (compare_timestamps parse_timestamp (updated_at left) (updated_at right))
           (cmp (rank_index (precedence_rank (status left)))
             (rank_index (precedence_rank (status right))))))"

definition status_is_same_generation_terminal :: "ServiceStatus \<Rightarrow> bool" where
  "status_is_same_generation_terminal s \<longleftrightarrow> s \<in> {Stopping, Stopped, Failed}"

definition compare_same_generation_terminal_preference ::
  "('tt, 'us, 'dp, 'ap, 'rl) ServiceSpecValue \<Rightarrow> ('tt, 'us, 'dp, 'ap, 'rl) ServiceSpecValue
    \<Rightarrow> Ordering option" where
  "compare_same_generation_terminal_preference left right =
     (if service_epoch left \<noteq> service_epoch right then None
      else case (status_is_same_generation_terminal (status left),
                 status_is_same_generation_terminal (status right)) of
        (True, False) \<Rightarrow> Some Greater
      | (False, True) \<Rightarrow> Some Less
      | _ \<Rightarrow> None)"

definition compare_stopping_preference ::
  "('tt, 'us, 'dp, 'ap, 'rl) ServiceSpecValue \<Rightarrow> ('tt, 'us, 'dp, 'ap, 'rl) ServiceSpecValue
    \<Rightarrow> Ordering option" where
  "compare_stopping_preference left right =
     (if status left = Stopping \<and> status right = Stopping then None
      else if status left = Stopping then Some Greater
      else if status right = Stopping then Some Less
      else None)"

definition carries_rollout_history :: "('tt, 'us, 'dp, 'ap, 'rl) ServiceSpecValue \<Rightarrow> bool" where
  "carries_rollout_history spec \<longleftrightarrow>
     total_steps (rollout spec) > 0 \<or> completed_steps (rollout spec) > 0
     \<or> failed_steps (rollout spec) > 0 \<or> max_failures (rollout spec) > 0
     \<or> last_error (rollout spec) \<noteq> None"

primrec previous_generation_matches :: "('tt, 'us, 'dp, 'ap, 'rl) ServiceSpecValue
    \<Rightarrow> ('tt, 'us, 'dp, 'ap) ServicePreviousGeneration option \<Rightarrow> bool" where
  "previous_generation_matches candidate None = False"
| "previous_generation_matches candidate (Some previous) =
     (spg_manifest_id previous = manifest_id candidate
      \<and> spg_manifest_name previous = manifest_name candidate
      \<and> spg_task_templates previous = task_templates candidate
      \<and> spg_replica_ids previous = replica_ids candidate
      \<and> spg_replica_assignment_segments previous = replica_assignment_segments candidate
      \<and> spg_update_strategy previous = update_strategy candidate
      \<and> spg_deployment_policy previous = deployment_policy candidate
      \<and> spg_admission_policy previous = admission_policy candidate
      \<and> spg_service_epoch previous = service_epoch candidate
      \<and> spg_status previous = status candidate)"

definition rollback_candidate_matches_previous_generation ::
  "('tt, 'us, 'dp, 'ap, 'rl) ServiceSpecValue \<Rightarrow> ('tt, 'us, 'dp, 'ap, 'rl) ServiceSpecValue \<Rightarrow> bool" where
  "rollback_candidate_matches_previous_generation candidate rolling_back_generation \<longleftrightarrow>
     saturating_add (service_epoch candidate) 1 = service_epoch rolling_back_generation
     \<and> status rolling_back_generation = Deploying
     \<and> rollout_phase (rollout rolling_back_generation) = RollingBack
     \<and> status candidate \<in> {Running, Stopped, Failed, VolumeUnavailable}
     \<and> carries_rollout_history candidate
     \<and> previous_generation_matches candidate (previous_generation rolling_back_generation)"

definition blocks_cross_manifest_reactivation ::
  "('tt, 'us, 'dp, 'ap, 'rl) ServiceSpecValue \<Rightarrow> ('tt, 'us, 'dp, 'ap, 'rl) ServiceSpecValue \<Rightarrow> bool" where
  "blocks_cross_manifest_reactivation current_spec candidate \<longleftrightarrow>
     status current_spec \<in> {Stopped, Failed}
     \<and> service_epoch candidate > service_epoch current_spec
     \<and> (status candidate \<noteq> Deploying \<or> has_assigned_replicas candidate)"

definition compare_manifest_mismatch :: "(string \<Rightarrow> 't::linorder option)
    \<Rightarrow> ('tt::linorder, 'us::linorder, 'dp::linorder, 'ap::linorder, 'rl::linorder) ServiceSpecValue
    \<Rightarrow> ('tt, 'us, 'dp, 'ap, 'rl) ServiceSpecValue \<Rightarrow> Ordering" where
  "compare_manifest_mismatch parse_timestamp left right =
     (case compare_stopping_preference left right of
        Some verdict \<Rightarrow> verdict
      | None \<Rightarrow>
        if rollback_candidate_matches_previous_generation left right then Greater
        else if rollback_candidate_matches_previous_generation right left then Less
        else if blocks_cross_manifest_reactivation left right then Greater
        else if blocks_cross_manifest_reactivation right left then Less
        else then_with (then_with (compare_causal_tuple parse_timestamp left right)
                 (cmp (manifest_id left) (manifest_id right)))
               (spec_cmp left right))"

definition compare_service_specs :: "(string \<Rightarrow> 't::linorder option)
    \<Rightarrow> ('tt::linorder, 'us::linorder, 'dp::linorder, 'ap::linorder, 'rl::linorder) ServiceSpecValue
    \<Rightarrow> ('tt, 'us, 'dp, 'ap, 'rl) ServiceSpecValue \<Rightarrow> Ordering" where
  "compare_service_specs parse_timestamp left right =
     (if manifest_id left = manifest_id right
      then case compare_same_generation_terminal_preference left right of
          Some verdict \<Rightarrow> verdict
        | None \<Rightarrow> then_with (compare_causal_tuple parse_timestamp left right) (spec_cmp left right)
      else compare_manifest_mismatch parse_timestamp left right)"

definition should_accept_service_update :: "(string \<Rightarrow> 't::linorder option)
    \<Rightarrow> ('tt::linorder, 'us::linorder, 'dp::linorder, 'ap::linorder, 'rl::linorder) ServiceSpecValue option
    \<Rightarrow> ('tt, 'us, 'dp, 'ap, 'rl) ServiceSpecValue \<Rightarrow> bool" where
  "should_accept_service_update parse_timestamp current_spec incoming =
     (case current_spec of
        None \<Rightarrow> True
      | Some c \<Rightarrow> compare_service_specs parse_timestamp incoming c = Greater)"

definition select_best_service_spec :: "(string \<Rightarrow> 't::linorder option)
    \<Rightarrow> ('tt::linorder, 'us::linorder, 'dp::linorder, 'ap::linorder, 'rl::linorder) ServiceSpecValue list
    \<Rightarrow> ('tt, 'us, 'dp, 'ap, 'rl) ServiceSpecValue option" where
  "select_best_service_spec parse_timestamp values =
     fold (\<lambda>v best. case best of
         None \<Rightarrow> Some v
       | Some c \<Rightarrow> if compare_service_specs parse_timestamp v c = Greater then Some v else best)
       values None"

text \<open>A comparator whose equal elements are identical.\<close>

definition strict_comparator :: "('a \<Rightarrow> 'a \<Rightarrow> Ordering) \<Rightarrow> bool" where
  "strict_comparator c \<longleftrightarrow> comparator c \<and> (\<forall>x y. c x y = Equal \<longleftrightarrow> x = y)"

text \<open>Rows of one manifest: epochs first, then a terminal status, then the rest of the tuple.\<close>

definition same_manifest_cmp :: "(string \<Rightarrow> 't::linorder option)
    \<Rightarrow> ('tt::linorder, 'us::linorder, 'dp::linorder, 'ap::linorder, 'rl::linorder) ServiceSpecValue
    \<Rightarrow> ('tt, 'us, 'dp, 'ap, 'rl) ServiceSpecValue \<Rightarrow> Ordering" where
  "same_manifest_cmp parse_timestamp = lex_cmp [on_field service_epoch cmp,
     on_field (status_is_same_generation_terminal \<circ> status) cmp, on_field phase_version cmp,
     on_field (parse_timestamp \<circ> updated_at) (option_cmp cmp),
     on_field (rank_index \<circ> precedence_rank \<circ> status) cmp, spec_cmp]"

definition demo_row :: "uuid \<Rightarrow> u64 \<Rightarrow> ServiceStatus \<Rightarrow> (nat, nat, nat, nat, nat) ServiceSpecValue" where
  "demo_row m e s = \<lparr>service_id = 1, manifest_id = m, manifest_name = ''m'', service_name = ''web'',
     task_templates = [], replica_ids = [], replica_assignment_segments = [], updated_at = ''t'',
     update_strategy = 0, deployment_policy = 0, admission_policy = 0, service_epoch = e,
     phase_version = 0,
     rollout = \<lparr>rollout_phase = Idle, total_steps = 0, completed_steps = 0, failed_steps = 0,
       max_failures = 0, last_error = None\<rparr>,
     status = s, status_detail = None, previous_generation = None, reschedule_lock = None\<rparr>"

definition demo_timestamp :: "string \<Rightarrow> nat option" where
  "demo_timestamp raw = Some (length raw)"

section \<open>Comparators\<close>

lemma strict_cmp: "strict_comparator cmp"
  by (simp add: strict_comparator_def cmp.comparator_axioms cmp_simps)

lemma comparator_list_cmp:
  assumes "comparator c"
  shows "comparator (list_cmp c)"
proof -
  have rev: "c y x = reverse_ordering (c x y)" for x y
    using assms unfolding comparator_def by blast
  have tr: "c x z \<noteq> Greater" if "c x y \<noteq> Greater" "c y z \<noteq> Greater" for x y z
    using assms that unfolding comparator_def by blast
  have less: "c x z = Less" if "c x y \<noteq> Greater" "c y z \<noteq> Greater" "c x y = Less \<or> c y z = Less" for x y z
  proof (rule ccontr)
    assume "c x z \<noteq> Less"
    then have "c z x \<noteq> Greater"
      using rev [of z x] by simp
    then have "c z y \<noteq> Greater" "c y x \<noteq> Greater"
      using tr [of z x y] tr [of y z x] that by blast+
    then show False
      using that(3) rev [of y x] rev [of z y] by auto
  qed
  show ?thesis
  proof
    show "list_cmp c ys xs = reverse_ordering (list_cmp c xs ys)" for xs ys
    proof (induction xs arbitrary: ys)
      case Nil
      show ?case
        by (cases ys) simp_all
    next
      case (Cons x xs)
      then show ?case
        by (cases ys) (simp_all add: reverse_then_with rev [symmetric])
    qed
  next
    show "list_cmp c xs zs \<noteq> Greater"
      if "list_cmp c xs ys \<noteq> Greater" "list_cmp c ys zs \<noteq> Greater" for xs ys zs
      using that
    proof (induction xs arbitrary: ys zs)
      case Nil
      then show ?case
        by (cases zs) simp_all
    next
      case (Cons x xs)
      then obtain y ys' z zs' where eq: "ys = y # ys'" "zs = z # zs'"
        by (cases ys; cases zs) auto
      have "c x y \<noteq> Greater" "c y z \<noteq> Greater"
        using Cons.prems eq by (auto simp: then_with_eq_iff)
      then show ?case
        using Cons eq tr [of x y z] less [of x y z]
        by (cases "c x y"; cases "c y z") (auto simp: then_with_eq_iff)
    qed
  qed
qed

lemma strict_list_cmp:
  assumes "strict_comparator c"
  shows "strict_comparator (list_cmp c)"
proof -
  have "list_cmp c xs ys = Equal \<longleftrightarrow> xs = ys" for xs ys
    using assms
    by (induction c xs ys rule: list_cmp.induct) (auto simp: then_with_eq_iff strict_comparator_def)
  moreover have "comparator (list_cmp c)"
    using assms by (intro comparator_list_cmp) (simp add: strict_comparator_def)
  ultimately show ?thesis
    by (simp add: strict_comparator_def)
qed

lemma strict_option_cmp:
  assumes "strict_comparator c"
  shows "strict_comparator (option_cmp c)"
proof -
  have c: "comparator c" and eq: "c x y = Equal \<longleftrightarrow> x = y" for x y
    using assms by (simp_all add: strict_comparator_def)
  have "comparator (option_cmp c)"
  proof
    show "option_cmp c y x = reverse_ordering (option_cmp c x y)" for x y
      by (cases x; cases y) (simp_all add: comparator.antisym [OF c, symmetric])
    show "option_cmp c x z \<noteq> Greater" if "option_cmp c x y \<noteq> Greater" "option_cmp c y z \<noteq> Greater" for x y z
      using that comparator.trans [OF c] by (cases x; cases y; cases z) simp_all
  qed
  moreover have "option_cmp c x y = Equal \<longleftrightarrow> x = y" for x y
    by (cases x; cases y) (simp_all add: eq)
  ultimately show ?thesis
    by (simp add: strict_comparator_def)
qed

lemma lex_cmp_comparator:
  assumes "\<And>c. c \<in> set cs \<Longrightarrow> comparator c"
  shows "comparator (lex_cmp cs)"
  using assms
proof (induction cs)
  case Nil
  show ?case
    by unfold_locales (simp_all add: lex_cmp_def)
next
  case (Cons c cs)
  then have "comparator (\<lambda>x y. then_with (c x y) (lex_cmp cs x y))"
    by (intro comparator_then) simp_all
  moreover have "lex_cmp (c # cs) = (\<lambda>x y. then_with (c x y) (lex_cmp cs x y))"
    by (simp add: lex_cmp_def fun_eq_iff)
  ultimately show ?case
    by simp
qed

lemma strict_swap: "strict_comparator c \<Longrightarrow> c y x = reverse_ordering (c x y)"
  unfolding strict_comparator_def by (blast intro: comparator.antisym)

lemma comparator_strict: "strict_comparator c \<Longrightarrow> comparator c"
  by (simp add: strict_comparator_def)

lemma comparator_on_field:
  assumes "strict_comparator c"
  shows "comparator (on_field f c)"
  using assms unfolding strict_comparator_def comparator_def on_field_def by blast

lemma on_field_Equal: "strict_comparator c \<Longrightarrow> on_field f c x y = Equal \<longleftrightarrow> f x = f y"
  by (simp add: strict_comparator_def on_field_def)

lemma lex_cmp_Equal: "lex_cmp cs x y = Equal \<longleftrightarrow> (\<forall>c \<in> set cs. c x y = Equal)"
  by (induction cs) (simp_all add: lex_cmp_def then_with_eq_iff)

lemma strict_lex_cmp:
  assumes c: "\<And>c. c \<in> set cs \<Longrightarrow> comparator c"
    and eq: "\<And>x y. \<forall>c \<in> set cs. c x y = Equal \<Longrightarrow> x = y"
  shows "strict_comparator (lex_cmp cs)"
  unfolding strict_comparator_def lex_cmp_Equal
proof (intro conjI allI iffI)
  show "comparator (lex_cmp cs)"
    by (rule lex_cmp_comparator [OF c])
  show "\<forall>c \<in> set cs. c x y = Equal" if "x = y" for x y
    unfolding that using comparator.refl [OF c] by (rule ballI)
qed (rule eq)

text \<open>Enumerations are compared by an injective position.\<close>

lemma index_inject [simp]:
  "status_index s = status_index s' \<longleftrightarrow> s = s'" "phase_index p = phase_index p' \<longleftrightarrow> p = p'"
  by (cases s; cases s'; simp) (cases p; cases p'; simp)

lemmas strict_intros = strict_cmp strict_list_cmp strict_option_cmp

lemma strict_rollout_cmp: "strict_comparator rollout_cmp"
  unfolding rollout_cmp_def
proof (rule strict_lex_cmp, goal_cases)
  case (1 c)
  then show ?case
    by (auto intro!: comparator_on_field strict_intros)
next
  case (2 x y)
  then show ?case
    by (intro ServiceRolloutState.equality) (simp_all add: on_field_Equal strict_intros)
qed

lemma strict_segment_cmp: "strict_comparator segment_cmp"
  unfolding segment_cmp_def
proof (rule strict_lex_cmp, goal_cases)
  case (1 c)
  then show ?case
    by (auto intro!: comparator_on_field strict_intros)
next
  case (2 x y)
  then show ?case
    by (intro ServiceReplicaAssignmentSegment.equality) (simp_all add: on_field_Equal strict_intros)
qed

lemma strict_previous_generation_cmp: "strict_comparator previous_generation_cmp"
  unfolding previous_generation_cmp_def
proof (rule strict_lex_cmp, goal_cases)
  case (1 c)
  then show ?case
    by (auto intro!: comparator_on_field strict_intros strict_segment_cmp)
next
  case (2 x y)
  then show ?case
    by (intro ServicePreviousGeneration.equality) (simp_all add: on_field_Equal strict_intros strict_segment_cmp)
qed

lemma strict_spec_cmp: "strict_comparator spec_cmp"
  unfolding spec_cmp_def
proof (rule strict_lex_cmp, goal_cases)
  case (1 c)
  then show ?case
    by (auto intro!: comparator_on_field strict_intros strict_segment_cmp strict_rollout_cmp strict_previous_generation_cmp)
next
  case (2 x y)
  then show ?case
    by (intro ServiceSpecValue.equality) (simp_all add: on_field_Equal strict_intros strict_segment_cmp strict_rollout_cmp strict_previous_generation_cmp)
qed

section \<open>The preference\<close>

lemma compare_timestamps_eq:
  "compare_timestamps pt left right = option_cmp cmp (pt left) (pt right)"
  by (cases "pt left"; cases "pt right") simp_all

lemma then_with_Equal [simp]: "then_with Equal b = b" "then_with a Equal = a"
  by (simp_all add: then_with_def)

lemma cmp_refl [simp]: "cmp x x = Equal"
  by (simp add: cmp_simps)

lemma compare_same_manifest:
  assumes "manifest_id left = manifest_id right"
  shows "compare_service_specs pt left right = same_manifest_cmp pt left right"
proof (cases "service_epoch left = service_epoch right")
  case True
  then show ?thesis
    using assms unfolding compare_service_specs_def same_manifest_cmp_def lex_cmp_def
      compare_same_generation_terminal_preference_def compare_causal_tuple_def compare_timestamps_eq
    by (cases "status_is_same_generation_terminal (status left)";
        cases "status_is_same_generation_terminal (status right)")
      (simp_all add: on_field_def then_with_assoc, simp_all add: then_with_def cmp_def)
next
  case False
  then show ?thesis
    using assms unfolding compare_service_specs_def same_manifest_cmp_def lex_cmp_def
      compare_same_generation_terminal_preference_def compare_causal_tuple_def
    by (simp add: on_field_def then_with_def cmp_simps)
qed

lemma strict_same_manifest_cmp: "strict_comparator (same_manifest_cmp pt)"
  unfolding same_manifest_cmp_def
proof (rule strict_lex_cmp, goal_cases)
  case (1 c)
  then show ?case
    using strict_spec_cmp by (auto intro!: comparator_on_field strict_intros simp: strict_comparator_def)
next
  case (2 x y)
  then show ?case
    by (simp add: strict_comparator_def strict_spec_cmp [unfolded strict_comparator_def])
qed

interpretation one_manifest: comparator "same_manifest_cmp pt" for pt
  by (rule comparator_strict [OF strict_same_manifest_cmp])

lemma same_manifest_Equal: "same_manifest_cmp pt x y = Equal \<longleftrightarrow> x = y"
  using strict_same_manifest_cmp unfolding strict_comparator_def by blast

text \<open>Rows of different manifests: the exceptions exclude one another, so swapping the rows swaps
  the verdict.\<close>

lemma compare_swap:
  "compare_service_specs pt right left = reverse_ordering (compare_service_specs pt left right)"
proof (cases "manifest_id left = manifest_id right")
  case True
  then show ?thesis
    using compare_same_manifest [OF True, of pt] compare_same_manifest [OF True [symmetric], of pt]
      strict_swap [OF strict_same_manifest_cmp] by metis
next
  case False
  have causal: "compare_causal_tuple pt right left = reverse_ordering (compare_causal_tuple pt left right)"
    unfolding compare_causal_tuple_def compare_timestamps_eq reverse_then_with cmp_swap [symmetric]
      strict_swap [OF strict_option_cmp [OF strict_cmp], symmetric] ..
  have spec: "spec_cmp right left = reverse_ordering (spec_cmp left right)"
    by (rule strict_swap [OF strict_spec_cmp])
  have "\<not> (rollback_candidate_matches_previous_generation left right
      \<and> rollback_candidate_matches_previous_generation right left)"
    by (auto simp: rollback_candidate_matches_previous_generation_def)
  moreover have "\<not> (blocks_cross_manifest_reactivation left right
      \<and> blocks_cross_manifest_reactivation right left)"
    by (auto simp: blocks_cross_manifest_reactivation_def)
  moreover have "then_with (then_with (compare_causal_tuple pt right left)
        (cmp (manifest_id right) (manifest_id left))) (spec_cmp right left)
      = reverse_ordering (then_with (then_with (compare_causal_tuple pt left right)
        (cmp (manifest_id left) (manifest_id right))) (spec_cmp left right))"
    unfolding causal spec reverse_then_with cmp_swap [symmetric] ..
  ultimately show ?thesis
    using False unfolding compare_service_specs_def compare_manifest_mismatch_def
      compare_stopping_preference_def by simp
qed

text \<open>Choosing among rows of one manifest: the scan keeps the greatest row.\<close>

lemma select_snoc:
  "select_best_service_spec pt (vs @ [v]) =
     (case select_best_service_spec pt vs of
        None \<Rightarrow> Some v
      | Some c \<Rightarrow> if compare_service_specs pt v c = Greater then Some v else Some c)"
  by (simp add: select_best_service_spec_def split: option.splits)

lemma select_greatest:
  assumes "vs \<noteq> []" "\<forall>v \<in> set vs. manifest_id v = m"
  shows "\<exists>best \<in> set vs. select_best_service_spec pt vs = Some best
    \<and> (\<forall>v \<in> set vs. same_manifest_cmp pt v best \<noteq> Greater)"
  using assms
proof (induction vs rule: rev_nonempty_induct)
  case (single v)
  show ?case
    by (simp add: select_best_service_spec_def one_manifest.refl)
next
  case (snoc v vs)
  then obtain best where best: "best \<in> set vs" "select_best_service_spec pt vs = Some best"
      "\<forall>w \<in> set vs. same_manifest_cmp pt w best \<noteq> Greater"
    by auto
  have eq: "compare_service_specs pt v best = same_manifest_cmp pt v best"
    using snoc.prems best(1) by (intro compare_same_manifest) simp
  show ?case
  proof (cases "same_manifest_cmp pt v best = Greater")
    case True
    then have "same_manifest_cmp pt best v \<noteq> Greater"
      by (rule one_manifest.total)
    then have "same_manifest_cmp pt w v \<noteq> Greater" if "w \<in> set vs" for w
      using best(3) that one_manifest.trans [of pt w best v] by blast
    then show ?thesis
      using True best(2) eq by (simp add: select_snoc one_manifest.refl)
  next
    case False
    then show ?thesis
      using best eq by (auto simp: select_snoc)
  qed
qed

text \<open>What a winning row looks like.\<close>

lemma same_manifest_wins:
  assumes "same_manifest_cmp pt left right = Greater"
  shows "service_epoch right < service_epoch left
    \<or> (service_epoch right = service_epoch left
        \<and> (status_is_same_generation_terminal (status right) \<longrightarrow>
              status_is_same_generation_terminal (status left)))"
proof -
  define rest where "rest = lex_cmp [on_field phase_version cmp,
     on_field (pt \<circ> updated_at) (option_cmp cmp),
     on_field (rank_index \<circ> precedence_rank \<circ> status) cmp, spec_cmp] left right"
  have "then_with (cmp (service_epoch left) (service_epoch right))
      (then_with (cmp (status_is_same_generation_terminal (status left))
         (status_is_same_generation_terminal (status right))) rest) = Greater"
    using assms unfolding same_manifest_cmp_def rest_def by (simp add: lex_cmp_def on_field_def)
  then show ?thesis
    unfolding then_with_eq_iff cmp_simps by auto
qed

lemma stopping_wins:
  assumes "manifest_id left \<noteq> manifest_id right" "compare_service_specs pt left right = Greater"
    "status right = Stopping"
  shows "status left = Stopping"
  using assms
  by (simp add: compare_service_specs_def compare_manifest_mismatch_def compare_stopping_preference_def
      split: if_splits)

lemma causal_tuple_epoch:
  "service_epoch right < service_epoch left \<Longrightarrow> compare_causal_tuple pt left right = Greater"
  "service_epoch left < service_epoch right \<Longrightarrow> compare_causal_tuple pt left right = Less"
  unfolding compare_causal_tuple_def then_with_eq_iff cmp_simps by simp_all

lemma stopped_is_replaced:
  assumes "manifest_id left \<noteq> manifest_id right" "compare_service_specs pt left right = Greater"
    "status right \<in> {Stopped, Failed}" "status left \<noteq> Stopping"
  shows "service_epoch left = service_epoch right \<or> status left \<in> {Stopped, Failed}
    \<or> (service_epoch right < service_epoch left \<and> status left = Deploying \<and> \<not> has_assigned_replicas left)"
proof (rule ccontr)
  assume no: "\<not> ?thesis"
  have "status right \<noteq> Deploying" "status right \<noteq> Stopping"
    using assms(3) by auto
  then have "\<not> rollback_candidate_matches_previous_generation left right"
    "compare_stopping_preference left right = None"
    using assms(4) by (simp_all add: rollback_candidate_matches_previous_generation_def
      compare_stopping_preference_def)
  moreover have "\<not> blocks_cross_manifest_reactivation left right"
    using no by (auto simp: blocks_cross_manifest_reactivation_def)
  moreover have "blocks_cross_manifest_reactivation right left \<or> service_epoch left < service_epoch right"
    using no assms(3) by (auto simp: blocks_cross_manifest_reactivation_def)
  moreover have "compare_causal_tuple pt left right = Less" if "service_epoch left < service_epoch right"
    using that by (rule causal_tuple_epoch)
  ultimately show False
    using assms(1,2)
    by (auto simp: compare_service_specs_def compare_manifest_mismatch_def then_with_eq_iff split: if_splits)
qed

text \<open>Two running rows of different manifests are compared by their epochs.\<close>

lemma running_epoch_wins:
  assumes "manifest_id left \<noteq> manifest_id right" "status left = Running" "status right = Running"
    and "service_epoch right < service_epoch left"
  shows "compare_service_specs pt left right = Greater"
  using assms causal_tuple_epoch(1) [OF assms(4), of pt]
  by (simp add: compare_service_specs_def compare_manifest_mismatch_def compare_stopping_preference_def
      rollback_candidate_matches_previous_generation_def blocks_cross_manifest_reactivation_def then_with_eq_iff)

lemma later_epoch_wins:
  assumes "manifest_id left = manifest_id right" "service_epoch right < service_epoch left"
  shows "compare_service_specs pt left right = Greater"
  using assms causal_tuple_epoch(1) [OF assms(2), of pt]
  by (auto simp: compare_service_specs_def compare_same_generation_terminal_preference_def
      then_with_eq_iff)

lemma stopping_row_wins:
  assumes "manifest_id left \<noteq> manifest_id right" "status left = Stopping" "status right \<noteq> Stopping"
  shows "compare_service_specs pt left right = Greater" "compare_service_specs pt right left = Less"
  using assms by (simp_all add: compare_service_specs_def compare_manifest_mismatch_def compare_stopping_preference_def)

section \<open>Properties\<close>

text \<open>
  C38. Among rows of one manifest the choice does not depend on the order in which the rows are
  listed, and the chosen row wins against every other one.
\<close>

theorem select_one_manifest:
  assumes "vs \<noteq> []" "\<forall>v \<in> set vs. manifest_id v = m" "set ws = set vs"
  shows "\<exists>best \<in> set vs. select_best_service_spec parse_timestamp vs = Some best
    \<and> select_best_service_spec parse_timestamp ws = Some best
    \<and> (\<forall>v \<in> set vs. v \<noteq> best \<longrightarrow> compare_service_specs parse_timestamp best v = Greater)"
proof -
  obtain b where b: "b \<in> set vs" "select_best_service_spec parse_timestamp vs = Some b"
      "\<forall>v \<in> set vs. same_manifest_cmp parse_timestamp v b \<noteq> Greater"
    using select_greatest [OF assms(1,2)] by blast
  have "ws \<noteq> []" "\<forall>v \<in> set ws. manifest_id v = m"
    using assms by auto
  then obtain b' where b': "b' \<in> set vs" "select_best_service_spec parse_timestamp ws = Some b'"
      "\<forall>v \<in> set vs. same_manifest_cmp parse_timestamp v b' \<noteq> Greater"
    using select_greatest [of ws m] assms(3) by metis
  have wins: "same_manifest_cmp parse_timestamp b v = Greater" if "v \<in> set vs" "v \<noteq> b" for v
    using b(3) that same_manifest_Equal [of parse_timestamp b v] one_manifest.antisym [of parse_timestamp v b]
    by (cases "same_manifest_cmp parse_timestamp b v") auto
  have "b' = b"
    using wins [OF b'(1)] b'(3) b(1) by blast
  then show ?thesis
    using b b' wins assms(2) by (auto simp: compare_same_manifest)
qed

theorem select_one_manifest_witness:
  "\<exists>best \<in> {demo_row 1 7 Running, demo_row 1 5 Stopping}.
     select_best_service_spec demo_timestamp [demo_row 1 7 Running, demo_row 1 5 Stopping] = Some best
   \<and> select_best_service_spec demo_timestamp [demo_row 1 5 Stopping, demo_row 1 7 Running] = Some best"
  using select_one_manifest [of "[demo_row 1 7 Running, demo_row 1 5 Stopping]" 1
      "[demo_row 1 5 Stopping, demo_row 1 7 Running]" demo_timestamp]
  by (auto simp: demo_row_def)

text \<open>
  C39. What an accepted update can put in the place of a stop. Within a manifest the epoch never
  decreases, and at the same epoch a stopping, stopped or failed row is only replaced by such a
  row; a later epoch of the manifest replaces it freely. A row of another manifest replaces a
  stopping row only if it is stopping itself. It replaces a stopped or failed row only if it is
  stopping, stopped or failed itself, or has exactly the same epoch, or is a deployment of a later
  epoch that has no replicas assigned yet.
\<close>

theorem what_replaces_a_stop:
  assumes "should_accept_service_update parse_timestamp (Some old) incoming"
  shows "(manifest_id incoming = manifest_id old \<longrightarrow> service_epoch old \<le> service_epoch incoming)
    \<and> (manifest_id incoming = manifest_id old \<and> service_epoch incoming = service_epoch old
        \<and> status old \<in> {Stopping, Stopped, Failed} \<longrightarrow> status incoming \<in> {Stopping, Stopped, Failed})
    \<and> (manifest_id incoming \<noteq> manifest_id old \<and> status old = Stopping \<longrightarrow> status incoming = Stopping)
    \<and> (manifest_id incoming \<noteq> manifest_id old \<and> status old \<in> {Stopped, Failed} \<longrightarrow>
        status incoming \<in> {Stopping, Stopped, Failed}
        \<or> service_epoch incoming = service_epoch old
        \<or> (service_epoch old < service_epoch incoming \<and> status incoming = Deploying
            \<and> \<not> has_assigned_replicas incoming))"
proof -
  have gt: "compare_service_specs parse_timestamp incoming old = Greater"
    using assms by (simp add: should_accept_service_update_def)
  show ?thesis
  proof (cases "manifest_id incoming = manifest_id old")
    case True
    then have "same_manifest_cmp parse_timestamp incoming old = Greater"
      using gt by (simp add: compare_same_manifest)
    then show ?thesis
      using True same_manifest_wins [of parse_timestamp incoming old]
      by (auto simp: status_is_same_generation_terminal_def)
  next
    case False
    then show ?thesis
      using stopping_wins [OF False gt] stopped_is_replaced [OF False gt] by auto
  qed
qed

theorem what_replaces_a_stop_witness:
  "should_accept_service_update demo_timestamp (Some (demo_row 1 5 Stopped)) (demo_row 2 6 Deploying)
   \<and> \<not> has_assigned_replicas (demo_row 2 6 Deploying)"
proof -
  have "should_accept_service_update demo_timestamp (Some (demo_row 1 5 Stopped)) (demo_row 2 6 Deploying)"
    by code_simp
  then show ?thesis
    using what_replaces_a_stop [of demo_timestamp "demo_row 1 5 Stopped" "demo_row 2 6 Deploying"]
    by (simp add: demo_row_def)
qed

text \<open>
  C40. Across manifests the preference is not transitive, whatever the timestamps and the other
  fields of the rows. Take a stopping row, a running row of the same manifest and a later epoch,
  and a running row of another manifest and a still later epoch. Each of the three beats one of the
  others, so each of them is chosen for some order of the three, and an update to each of them is
  accepted when the row it beats is the current one.
\<close>

theorem preference_is_cyclic:
  assumes "manifest_id resumed = manifest_id stopping" and "manifest_id other \<noteq> manifest_id stopping"
    and "status stopping = Stopping" and "status resumed = Running" and "status other = Running"
    and "service_epoch stopping < service_epoch resumed" and "service_epoch resumed < service_epoch other"
  shows "should_accept_service_update parse_timestamp (Some other) stopping
    \<and> should_accept_service_update parse_timestamp (Some resumed) other
    \<and> should_accept_service_update parse_timestamp (Some stopping) resumed
    \<and> select_best_service_spec parse_timestamp [stopping, other, resumed] = Some resumed
    \<and> select_best_service_spec parse_timestamp [stopping, resumed, other] = Some other
    \<and> select_best_service_spec parse_timestamp [resumed, other, stopping] = Some stopping"
proof -
  note so = stopping_row_wins [of stopping other parse_timestamp]
  have "compare_service_specs parse_timestamp stopping other = Greater"
    "compare_service_specs parse_timestamp other stopping = Less"
    using assms so by auto
  moreover have "compare_service_specs parse_timestamp other resumed = Greater"
    using assms by (intro running_epoch_wins) auto
  moreover have "compare_service_specs parse_timestamp resumed stopping = Greater"
    using assms by (intro later_epoch_wins) auto
  ultimately show ?thesis
    by (simp add: should_accept_service_update_def select_best_service_spec_def)
qed

theorem preference_is_cyclic_witness:
  "select_best_service_spec demo_timestamp
     [demo_row 1 5 Stopping, demo_row 2 9 Running, demo_row 1 7 Running] = Some (demo_row 1 7 Running)
   \<and> select_best_service_spec demo_timestamp
     [demo_row 1 5 Stopping, demo_row 1 7 Running, demo_row 2 9 Running] = Some (demo_row 2 9 Running)"
  using preference_is_cyclic [of "demo_row 1 7 Running" "demo_row 1 5 Stopping" "demo_row 2 9 Running" demo_timestamp]
  by (simp add: demo_row_def word_less_nat_alt)

end
