(* ===== verification/Scheduler_State.thy ===== *)
theory Scheduler_State
  imports Prelude "HOL-Library.AList" "HOL-Library.List_Lexorder" "HOL-Library.Char_ord"
begin

text \<open>
  The resources of a node's scheduler (\<open>src/scheduler/types.rs\<close>) and the indexed state built from
  a snapshot (\<open>src/scheduler/state.rs\<close>). Slots and GPU devices have the same life cycle and the
  code treats them by the same steps, so a resource is polymorphic in its key, its description and
  its reservation: a slot is a resource with a capacity, a GPU device one with its inventory data.
  An index into a resource list that the code would panic on is \<open>None\<close>.
\<close>

section \<open>Resources\<close>

type_synonym SlotId = u64
type_synonym GpuDeviceId = string

record LeaseReservation =
  lease_id :: uuid
  coordinator_node_id :: uuid
  lease_task_id :: uuid
  expires_at_unix_ms :: u64
  lease_group_id :: "uuid option"

record SlotReservation =
  slot_owner :: uuid
  slot_task_id :: "uuid option"
  slot_group_id :: "uuid option"

record GpuDeviceReservation =
  gpu_owner :: uuid
  gpu_task_id :: "uuid option"
  gpu_group_id :: "uuid option"

datatype 'r ResourceState = Free | Leased LeaseReservation | Reserved 'r

type_synonym SlotState = "SlotReservation ResourceState"
type_synonym GpuDeviceState = "GpuDeviceReservation ResourceState"

record SlotCapacity =
  cpu_millis :: u64
  memory_bytes :: u64
  gpu_count :: u32

record GpuDeviceInfo =
  gpu_index_number :: u32
  gpu_uuid :: "string option"
  pci_bus_id :: "string option"
  gpu_name :: string
  memory_total_bytes :: u64

record ('k, 'i, 'r) Resource =
  resource_key :: 'k
  resource_info :: 'i
  resource_state :: "'r ResourceState"

type_synonym ResourceSlot = "(SlotId, SlotCapacity, SlotReservation) Resource"
type_synonym GpuDevice = "(GpuDeviceId, GpuDeviceInfo, GpuDeviceReservation) Resource"

record SchedulerSnapshot =
  version :: u64
  slots :: "ResourceSlot list"
  gpu_devices :: "GpuDevice list"

datatype SchedulerError =
    Store
  | AlreadyInitialized SchedulerSnapshot
  | Uninitialized
  | SnapshotMismatch u64 u64 SchedulerSnapshot
  | DuplicateSlots "SlotId list" SchedulerSnapshot
  | DuplicateGpuDevices "GpuDeviceId list" SchedulerSnapshot
  | UnknownSlots "SlotId list" SchedulerSnapshot
  | UnknownGpuDevices "GpuDeviceId list" SchedulerSnapshot
  | SlotsUnavailable "SlotId list" SchedulerSnapshot
  | GpuDevicesUnavailable "GpuDeviceId list" SchedulerSnapshot
  | InsufficientResources "uuid list" SchedulerSnapshot
  | UnknownLeases "uuid list" SchedulerSnapshot
  | ExpiredLeases "uuid list" SchedulerSnapshot
  | LeaseMismatch uuid SchedulerSnapshot
  | UnknownLeaseGroup uuid SchedulerSnapshot
  | LeaseGroupMismatch uuid SchedulerSnapshot
  | SlotsNotReserved "SlotId list" SchedulerSnapshot
  | GpuDevicesNotReserved "GpuDeviceId list" SchedulerSnapshot
  | SnapshotVersionOverflow SchedulerSnapshot

definition next_snapshot_version :: "SchedulerSnapshot \<Rightarrow> (u64, SchedulerError) result" where
  "next_snapshot_version snapshot =
     (if version snapshot = - 1 then Err (SnapshotVersionOverflow snapshot)
      else Ok (version snapshot + 1))"

section \<open>Indexed state\<close>

record LeaseAllocation =
  alloc_coordinator_node_id :: uuid
  alloc_task_id :: uuid
  alloc_expires_at_unix_ms :: u64
  alloc_group_id :: "uuid option"
  alloc_slot_ids :: "SlotId list"
  alloc_gpu_device_ids :: "GpuDeviceId list"

record SchedulerState =
  snapshot :: SchedulerSnapshot
  slot_index :: "SlotId \<rightharpoonup> nat"
  gpu_index :: "GpuDeviceId \<rightharpoonup> nat"
  lease_index :: "(uuid \<times> LeaseAllocation) list"

text \<open>Positions by key; a later entry replaces an earlier one.\<close>

definition build_index :: "('k, 'i, 'r) Resource list \<Rightarrow> 'k \<rightharpoonup> nat" where
  "build_index resources =
     fold (\<lambda>(pos, r) index. index(resource_key r \<mapsto> pos)) (enumerate 0 resources) Map.empty"

definition new_allocation :: "LeaseReservation \<Rightarrow> LeaseAllocation" where
  "new_allocation lease = \<lparr>alloc_coordinator_node_id = coordinator_node_id lease,
     alloc_task_id = lease_task_id lease, alloc_expires_at_unix_ms = expires_at_unix_ms lease,
     alloc_group_id = lease_group_id lease, alloc_slot_ids = [], alloc_gpu_device_ids = []\<rparr>"

definition index_leases :: "('k \<Rightarrow> LeaseAllocation \<Rightarrow> LeaseAllocation) \<Rightarrow> ('k, 'i, 'r) Resource list
    \<Rightarrow> (uuid \<times> LeaseAllocation) list \<Rightarrow> (uuid \<times> LeaseAllocation) list" where
  "index_leases push = fold (\<lambda>r index. case resource_state r of
       Leased lease \<Rightarrow> AList.map_default (lease_id lease) (push (resource_key r) (new_allocation lease))
         (push (resource_key r)) index
     | _ \<Rightarrow> index)"

definition push_slot :: "SlotId \<Rightarrow> LeaseAllocation \<Rightarrow> LeaseAllocation" where
  "push_slot slot_id a = a\<lparr>alloc_slot_ids := alloc_slot_ids a @ [slot_id]\<rparr>"

definition push_gpu :: "GpuDeviceId \<Rightarrow> LeaseAllocation \<Rightarrow> LeaseAllocation" where
  "push_gpu device_id a = a\<lparr>alloc_gpu_device_ids := alloc_gpu_device_ids a @ [device_id]\<rparr>"

definition sort_allocation :: "LeaseAllocation \<Rightarrow> LeaseAllocation" where
  "sort_allocation a = a\<lparr>alloc_slot_ids := sort (alloc_slot_ids a),
     alloc_gpu_device_ids := sort (alloc_gpu_device_ids a)\<rparr>"

definition build_lease_index :: "SchedulerSnapshot \<Rightarrow> (uuid \<times> LeaseAllocation) list" where
  "build_lease_index s = map (\<lambda>(k, a). (k, sort_allocation a))
     (index_leases push_gpu (gpu_devices s) (index_leases push_slot (slots s) []))"

definition SchedulerState_new :: "SchedulerSnapshot \<Rightarrow> SchedulerState" where
  "SchedulerState_new s = \<lparr>snapshot = s, slot_index = build_index (slots s),
     gpu_index = build_index (gpu_devices s), lease_index = build_lease_index s\<rparr>"

section \<open>Access by key\<close>

definition state_at :: "('k \<rightharpoonup> nat) \<Rightarrow> 'k \<Rightarrow> ('k, 'i, 'r) Resource list \<Rightarrow> 'r ResourceState panics" where
  "state_at index k resources =
     (case index k of
        None \<Rightarrow> None
      | Some idx \<Rightarrow> if idx < length resources then Some (resource_state (resources ! idx)) else None)"

definition set_state :: "('k \<rightharpoonup> nat) \<Rightarrow> 'k \<Rightarrow> 'r ResourceState \<Rightarrow> ('k, 'i, 'r) Resource list
    \<Rightarrow> ('k, 'i, 'r) Resource list panics" where
  "set_state index k st resources =
     (case index k of
        None \<Rightarrow> None
      | Some idx \<Rightarrow>
          if idx < length resources
          then Some (resources[idx := (resources ! idx)\<lparr>resource_state := st\<rparr>]) else None)"

fun set_states :: "('k \<rightharpoonup> nat) \<Rightarrow> ('k \<times> 'r ResourceState) list \<Rightarrow> ('k, 'i, 'r) Resource list
    \<Rightarrow> ('k, 'i, 'r) Resource list panics" where
  "set_states index [] resources = Some resources"
| "set_states index ((k, st) # updates) resources =
     Option.bind (set_state index k st resources) (set_states index updates)"

section \<open>Well-formed resources\<close>

definition keys :: "('k, 'i, 'r) Resource list \<Rightarrow> 'k list" where
  "keys resources = map resource_key resources"

definition lookup :: "('k, 'i, 'r) Resource list \<Rightarrow> 'k \<rightharpoonup> 'r ResourceState" where
  "lookup resources = map_of (map (\<lambda>r. (resource_key r, resource_state r)) resources)"

text \<open>The same resources in possibly other states.\<close>

definition same_resources :: "('k, 'i, 'r) Resource list \<Rightarrow> ('k, 'i, 'r) Resource list \<Rightarrow> bool" where
  "same_resources rs rs' \<longleftrightarrow>
     map (\<lambda>r. (resource_key r, resource_info r)) rs = map (\<lambda>r. (resource_key r, resource_info r)) rs'"

definition restate :: "('k \<Rightarrow> 'r ResourceState \<Rightarrow> 'r ResourceState) \<Rightarrow> ('k, 'i, 'r) Resource list
    \<Rightarrow> ('k, 'i, 'r) Resource list" where
  "restate f = map (\<lambda>r. r\<lparr>resource_state := f (resource_key r) (resource_state r)\<rparr>)"

definition leases_of :: "('k, 'i, 'r) Resource list \<Rightarrow> LeaseReservation set" where
  "leases_of resources = {lease. \<exists>r \<in> set resources. resource_state r = Leased lease}"

text \<open>
  A snapshot is well-formed if keys are unique and a lease identifier stands for one lease.
\<close>

definition all_leases :: "SchedulerSnapshot \<Rightarrow> LeaseReservation set" where
  "all_leases s = leases_of (slots s) \<union> leases_of (gpu_devices s)"

definition snapshot_ok :: "SchedulerSnapshot \<Rightarrow> bool" where
  "snapshot_ok s \<longleftrightarrow> distinct (keys (slots s)) \<and> distinct (keys (gpu_devices s))
     \<and> inj_on lease_id (all_leases s)"

definition apply_updates :: "('k \<times> 'r ResourceState) list \<Rightarrow> 'k \<Rightarrow> 'r ResourceState \<Rightarrow> 'r ResourceState" where
  "apply_updates updates k s = (case map_of (rev updates) k of None \<Rightarrow> s | Some st \<Rightarrow> st)"

text \<open>The lease index of a well-formed snapshot describes its leases.\<close>

definition holds_lease :: "uuid \<Rightarrow> 'r ResourceState \<Rightarrow> bool" where
  "holds_lease lid s = (case s of Leased l \<Rightarrow> lease_id l = lid | _ \<Rightarrow> False)"

definition leased_keys :: "uuid \<Rightarrow> ('k, 'i, 'r) Resource list \<Rightarrow> 'k list" where
  "leased_keys lid rs = map resource_key (filter (\<lambda>r. holds_lease lid (resource_state r)) rs)"

definition allocation :: "SchedulerSnapshot \<Rightarrow> LeaseReservation \<Rightarrow> LeaseAllocation" where
  "allocation s l = (new_allocation l)\<lparr>alloc_slot_ids := sort (leased_keys (lease_id l) (slots s)),
     alloc_gpu_device_ids := sort (leased_keys (lease_id l) (gpu_devices s))\<rparr>"

section \<open>Lemmas\<close>

lemma build_index_append:
  "build_index (rs @ [r]) = (build_index rs)(resource_key r \<mapsto> length rs)"
  by (simp add: build_index_def enumerate_append_eq)

lemma build_index_Some_iff:
  assumes "distinct (keys rs)"
  shows "build_index rs k = Some i \<longleftrightarrow> i < length rs \<and> resource_key (rs ! i) = k"
  using assms
proof (induction rs arbitrary: i rule: rev_induct)
  case Nil
  then show ?case by (simp add: build_index_def)
next
  case (snoc r rs)
  then have IH: "build_index rs k = Some i \<longleftrightarrow> i < length rs \<and> resource_key (rs ! i) = k" for i
    by (simp add: keys_def)
  have new: "i < length rs \<Longrightarrow> resource_key (rs ! i) \<noteq> resource_key r" for i
    using snoc.prems by (auto simp: keys_def) (metis image_eqI nth_mem)
  show ?case
    using IH [of i] new [of i] by (auto simp: build_index_append nth_append less_Suc_eq)
qed

lemma build_index_None_iff: "build_index rs k = None \<longleftrightarrow> k \<notin> set (keys rs)"
  by (induction rs rule: rev_induct) (auto simp: build_index_append keys_def, simp add: build_index_def)

lemma keys_restate [simp]: "keys (restate f rs) = keys rs"
  by (simp add: keys_def restate_def)

lemma length_restate [simp]: "length (restate f rs) = length rs"
  by (simp add: restate_def)

lemma same_resources_restate [simp]: "same_resources rs (restate f rs)"
  by (simp add: same_resources_def restate_def)

lemma restate_restate: "restate f (restate g rs) = restate (\<lambda>k s. f k (g k s)) rs"
  by (simp add: restate_def)

lemma restate_id [simp]: "restate (\<lambda>k s. s) rs = rs"
  by (simp add: restate_def)

lemma restate_cong:
  "(\<And>r. r \<in> set rs \<Longrightarrow> f (resource_key r) (resource_state r) = g (resource_key r) (resource_state r))
     \<Longrightarrow> restate f rs = restate g rs"
  by (simp add: restate_def)

lemma lookup_restate: "lookup (restate f rs) k = map_option (f k) (lookup rs k)"
  by (induction rs) (auto simp: lookup_def restate_def)

lemma lookup_None_iff: "lookup rs k = None \<longleftrightarrow> k \<notin> set (keys rs)"
  by (simp add: lookup_def keys_def map_of_eq_None_iff image_image)

lemma lookup_Some_iff:
  assumes "distinct (keys rs)"
  shows "lookup rs k = Some s \<longleftrightarrow> (\<exists>r \<in> set rs. resource_key r = k \<and> resource_state r = s)"
proof -
  have "distinct (map fst (map (\<lambda>r. (resource_key r, resource_state r)) rs))"
    using assms by (simp add: keys_def comp_def)
  then show ?thesis
    unfolding lookup_def by (auto simp: map_of_eq_Some_iff)
qed

text \<open>Access through the index of any list with the same keys.\<close>

lemma nth_keys: "i < length rs \<Longrightarrow> keys rs ! i = resource_key (rs ! i)"
  by (simp add: keys_def)

lemma index_at:
  assumes "distinct (keys rs)" "keys rs0 = keys rs" "k \<in> set (keys rs)"
  obtains i where "build_index rs0 k = Some i" "i < length rs" "resource_key (rs ! i) = k"
proof -
  have "length rs0 = length rs"
    using assms(2) by (metis keys_def length_map)
  obtain i where "build_index rs0 k = Some i"
    using assms build_index_None_iff [of rs0 k] by auto
  moreover from this have "i < length rs" "resource_key (rs0 ! i) = k"
    using assms build_index_Some_iff [of rs0 k i] \<open>length rs0 = length rs\<close> by auto
  moreover from this have "resource_key (rs ! i) = k"
    using nth_keys [of i rs] nth_keys [of i rs0] assms(2) \<open>length rs0 = length rs\<close> by simp
  ultimately show thesis
    using that by blast
qed

lemma state_at_lookup:
  assumes "distinct (keys rs)" "keys rs0 = keys rs"
  shows "state_at (build_index rs0) k rs = lookup rs k"
proof (cases "k \<in> set (keys rs)")
  case True
  then obtain i where "build_index rs0 k = Some i" "i < length rs" "resource_key (rs ! i) = k"
    using index_at [OF assms] by blast
  moreover from this have "lookup rs k = Some (resource_state (rs ! i))"
    using lookup_Some_iff [OF assms(1)] nth_mem by blast
  ultimately show ?thesis
    by (simp add: state_at_def)
next
  case False
  then have "lookup rs k = None" "build_index rs0 k = None"
    using assms(2) by (simp_all add: lookup_None_iff build_index_None_iff)
  then show ?thesis
    by (simp add: state_at_def)
qed

lemma set_state_restate:
  assumes "distinct (keys rs)" "keys rs0 = keys rs"
  shows "set_state (build_index rs0) k st rs =
    (if k \<in> set (keys rs) then Some (restate (\<lambda>k' s. if k' = k then st else s) rs) else None)"
proof (cases "k \<in> set (keys rs)")
  case True
  then obtain i where i: "build_index rs0 k = Some i" "i < length rs" "resource_key (rs ! i) = k"
    using index_at [OF assms] by blast
  have uniq: "resource_key (rs ! j) = k \<longleftrightarrow> j = i" if "j < length rs" for j
    using nth_eq_iff_index_eq [OF assms(1), of j i] that i by (simp add: nth_keys) (simp add: keys_def)
  have "rs[i := (rs ! i)\<lparr>resource_state := st\<rparr>] = restate (\<lambda>k' s. if k' = k then st else s) rs"
  proof (rule nth_equalityI)
    fix j
    assume "j < length (rs[i := (rs ! i)\<lparr>resource_state := st\<rparr>])"
    then show "rs[i := (rs ! i)\<lparr>resource_state := st\<rparr>] ! j = restate (\<lambda>k' s. if k' = k then st else s) rs ! j"
      using uniq [of j] i by (simp add: restate_def nth_list_update)
  qed simp
  then show ?thesis
    using i True by (simp add: set_state_def)
next
  case False
  then show ?thesis
    using assms(2) by (simp add: set_state_def build_index_None_iff [THEN iffD2])
qed

lemma apply_updates_Nil [simp]: "apply_updates [] = (\<lambda>k s. s)"
  by (simp add: apply_updates_def fun_eq_iff)

lemma set_states_restate:
  assumes "distinct (keys rs)" "keys rs0 = keys rs"
  shows "set_states (build_index rs0) updates rs =
    (if fst ` set updates \<subseteq> set (keys rs) then Some (restate (apply_updates updates) rs) else None)"
  using assms
proof (induction updates arbitrary: rs)
  case Nil
  show ?case
    by simp
next
  case (Cons u updates)
  obtain k st where u: "u = (k, st)"
    by force
  have "apply_updates updates k' (if k' = k then st else s) = apply_updates ((k, st) # updates) k' s" for k' s
    by (auto simp: apply_updates_def map_add_def split: option.splits)
  then show ?case
    using Cons u by (auto simp: set_state_restate restate_restate)
qed

lemma map_of_map_default:
  "map_of (AList.map_default k v f al) =
     (map_of al)(k \<mapsto> case map_of al k of None \<Rightarrow> v | Some x \<Rightarrow> f x)"
  by (induction al) (auto simp: fun_eq_iff)

lemma index_leases_simps [simp]:
  "index_leases push [] al = al"
  "index_leases push (r # rs) al = index_leases push rs (case resource_state r of
       Leased lease \<Rightarrow> AList.map_default (lease_id lease) (push (resource_key r) (new_allocation lease))
         (push (resource_key r)) al
     | _ \<Rightarrow> al)"
  by (simp_all add: index_leases_def)

lemma leased_keys_simps [simp]:
  "leased_keys lid [] = []"
  "leased_keys lid (r # rs) =
     (if holds_lease lid (resource_state r) then resource_key r # leased_keys lid rs else leased_keys lid rs)"
  by (simp_all add: leased_keys_def)

lemma leases_of_simps [simp]:
  "leases_of [] = {}"
  "leases_of (r # rs) = (case resource_state r of Leased l \<Rightarrow> insert l (leases_of rs) | _ \<Rightarrow> leases_of rs)"
  by (auto simp: leases_of_def split: ResourceState.splits)

lemma holds_lease_simps [simp]:
  "\<not> holds_lease lid Free" "\<not> holds_lease lid (Reserved r)" "holds_lease lid (Leased l) \<longleftrightarrow> lease_id l = lid"
  by (simp_all add: holds_lease_def)

lemma index_leases_find:
  assumes "\<forall>l' \<in> leases_of rs. lease_id l' = lid \<longrightarrow> l' = l"
  shows "map_of (index_leases push rs al) lid =
    (if leased_keys lid rs = [] then map_of al lid
     else Some (fold push (leased_keys lid rs)
       (case map_of al lid of None \<Rightarrow> new_allocation l | Some a \<Rightarrow> a)))"
  using assms
proof (induction rs arbitrary: al)
  case (Cons r rs)
  show ?case
  proof (cases "resource_state r")
    case (Leased l')
    let ?al = "AList.map_default (lease_id l') (push (resource_key r) (new_allocation l'))
      (push (resource_key r)) al"
    have IH: "map_of (index_leases push rs ?al) lid =
      (if leased_keys lid rs = [] then map_of ?al lid
       else Some (fold push (leased_keys lid rs)
         (case map_of ?al lid of None \<Rightarrow> new_allocation l | Some a \<Rightarrow> a)))"
      by (rule Cons.IH) (use Cons.prems Leased in simp)
    show ?thesis
    proof (cases "lease_id l' = lid")
      case True
      then have "l' = l"
        using Cons.prems Leased by simp
      then have "map_of ?al lid =
          Some (push (resource_key r) (case map_of al lid of None \<Rightarrow> new_allocation l | Some a \<Rightarrow> a))"
        using True by (simp add: map_of_map_default split: option.splits)
      then show ?thesis
        using IH Leased True by simp
    next
      case False
      then have "map_of ?al lid = map_of al lid"
        by (simp add: map_of_map_default)
      then show ?thesis
        using IH Leased False by simp
    qed
  qed (use Cons in simp_all)
qed simp

lemma leased_keys_Nil_iff: "leased_keys lid rs = [] \<longleftrightarrow> lid \<notin> lease_id ` leases_of rs"
  by (induction rs) (auto split: ResourceState.splits)

lemma fold_push_slot: "fold push_slot ks a = a\<lparr>alloc_slot_ids := alloc_slot_ids a @ ks\<rparr>"
  by (induction ks arbitrary: a) (simp_all add: push_slot_def)

lemma fold_push_gpu: "fold push_gpu ks a = a\<lparr>alloc_gpu_device_ids := alloc_gpu_device_ids a @ ks\<rparr>"
  by (induction ks arbitrary: a) (simp_all add: push_gpu_def)

lemma build_lease_index_find:
  assumes ok: "snapshot_ok s" and l: "l \<in> all_leases s"
  shows "map_of (build_lease_index s) (lease_id l) = Some (allocation s l)"
proof -
  have uniq: "l' = l" if "l' \<in> all_leases s" "lease_id l' = lease_id l" for l'
    using ok l that by (simp add: snapshot_ok_def inj_on_def)
  have slot: "map_of (index_leases push_slot (slots s) []) (lease_id l) =
      (if leased_keys (lease_id l) (slots s) = [] then None
       else Some (fold push_slot (leased_keys (lease_id l) (slots s)) (new_allocation l)))"
    using index_leases_find [of "slots s" "lease_id l" l push_slot "[]"] uniq by (simp add: all_leases_def)
  have gpu: "map_of (index_leases push_gpu (gpu_devices s) al) (lease_id l) =
      (if leased_keys (lease_id l) (gpu_devices s) = [] then map_of al (lease_id l)
       else Some (fold push_gpu (leased_keys (lease_id l) (gpu_devices s))
         (case map_of al (lease_id l) of None \<Rightarrow> new_allocation l | Some a \<Rightarrow> a)))" for al
    using index_leases_find [of "gpu_devices s" "lease_id l" l push_gpu al] uniq by (simp add: all_leases_def)
  have "leased_keys (lease_id l) (slots s) \<noteq> [] \<or> leased_keys (lease_id l) (gpu_devices s) \<noteq> []"
    using l by (auto simp: leased_keys_Nil_iff all_leases_def)
  then have "map_of (index_leases push_gpu (gpu_devices s) (index_leases push_slot (slots s) [])) (lease_id l)
      = Some ((new_allocation l)\<lparr>alloc_slot_ids := leased_keys (lease_id l) (slots s),
          alloc_gpu_device_ids := leased_keys (lease_id l) (gpu_devices s)\<rparr>)"
    unfolding gpu slot fold_push_slot fold_push_gpu by (auto simp: new_allocation_def)
  then show ?thesis
    by (simp add: build_lease_index_def map_of_map allocation_def sort_allocation_def)
qed

lemma build_lease_index_unknown:
  assumes "lid \<notin> lease_id ` all_leases s"
  shows "map_of (build_lease_index s) lid = None"
proof -
  have none: "leased_keys lid (slots s) = []" "leased_keys lid (gpu_devices s) = []"
    and "\<forall>l' \<in> leases_of (slots s). lease_id l' = lid \<longrightarrow> l' = undefined"
    and "\<forall>l' \<in> leases_of (gpu_devices s). lease_id l' = lid \<longrightarrow> l' = undefined"
    using assms by (auto simp: leased_keys_Nil_iff all_leases_def)
  then show ?thesis
    by (simp add: build_lease_index_def map_of_map index_leases_find [where l = undefined] none)
qed

lemma build_lease_index_iff:
  assumes "snapshot_ok s"
  shows "map_of (build_lease_index s) lid = Some a
    \<longleftrightarrow> (\<exists>l \<in> all_leases s. lease_id l = lid \<and> a = allocation s l)"
proof (cases "lid \<in> lease_id ` all_leases s")
  case True
  then obtain l where l: "l \<in> all_leases s" "lease_id l = lid"
    by blast
  then have "l' = l" if "l' \<in> all_leases s" "lease_id l' = lid" for l'
    using assms that unfolding snapshot_ok_def inj_on_def by blast
  moreover have "map_of (build_lease_index s) lid = Some (allocation s l)"
    using build_lease_index_find [OF assms l(1)] unfolding l(2) .
  ultimately show ?thesis
    using l by (metis option.inject)
next
  case False
  then have "\<not> (\<exists>l \<in> all_leases s. lease_id l = lid \<and> a = allocation s l)"
    by blast
  then show ?thesis
    unfolding build_lease_index_unknown [OF False] by simp
qed

lemma keys_map_default: "fst ` set (AList.map_default k v f al) = insert k (fst ` set al)"
  by (induction al) auto

lemma distinct_map_default: "distinct (map fst al) \<Longrightarrow> distinct (map fst (AList.map_default k v f al))"
  by (induction al) (auto simp: keys_map_default)

lemma distinct_index_leases:
  "distinct (map fst al) \<Longrightarrow> distinct (map fst (index_leases push rs al))"
  by (induction rs arbitrary: al) (auto simp: distinct_map_default split: ResourceState.splits)

lemma distinct_lease_index: "distinct (map fst (build_lease_index s))"
proof -
  have "distinct (map fst (index_leases push_gpu (gpu_devices s) (index_leases push_slot (slots s) [])))"
    by (intro distinct_index_leases) simp
  then show ?thesis
    by (simp add: build_lease_index_def comp_def case_prod_unfold)
qed

end
