(* ===== verification/Scheduler_Transactions.thy ===== *)
theory Scheduler_Transactions
  imports Scheduler_State "HOL-Library.Monad_Syntax"
begin

text \<open>
  The operations of a node's scheduler (\<open>src/scheduler/reservations.rs\<close> and
  \<open>src/scheduler/leases.rs\<close>). Every operation is a loop that reads the state, computes, and
  publishes a new snapshot by compare-and-swap. A definition here is one round up to the
  publication: it returns, or it asks to publish a snapshot and to return a value then. The clock
  reading and the identifiers drawn by \<open>Uuid::new_v4\<close>, one per intent, are arguments. A panic
  is \<open>None\<close>.
\<close>

datatype 'a attempt = Return "('a, SchedulerError) result" | Publish SchedulerSnapshot 'a

section \<open>Requests\<close>

record SlotReservationRequest =
  request_slot_id :: SlotId
  request_slot_owner :: uuid
  request_slot_task_id :: "uuid option"
  request_slot_group_id :: "uuid option"

record GpuReservationRequest =
  request_device_id :: GpuDeviceId
  request_gpu_owner :: uuid
  request_gpu_task_id :: "uuid option"
  request_gpu_group_id :: "uuid option"

record TaskLeaseIntent =
  intent_task_id :: uuid
  intent_cpu_millis :: u64
  intent_memory_bytes :: u64
  intent_gpu_count :: u32

record ExactTaskLeaseIntent =
  exact_task_id :: uuid
  exact_slot_ids :: "SlotId list"
  exact_gpu_device_ids :: "GpuDeviceId list"

record PreparedTaskLease =
  prepared_lease_id :: uuid
  prepared_task_id :: uuid
  prepared_expires_at_unix_ms :: u64
  prepared_slot_ids :: "SlotId list"
  prepared_gpu_device_ids :: "GpuDeviceId list"

datatype PreparedTaskLeaseBatch = PreparedTaskLeaseBatch (batch_leases: "PreparedTaskLease list")

record AbortTaskLeaseIntent =
  abort_lease_id :: uuid
  abort_task_id :: uuid

text \<open>The elements collected in a \<open>BTreeSet\<close>, in its order.\<close>

definition sorted_set :: "'a::linorder list \<Rightarrow> 'a list" where
  "sorted_set xs = sort (remdups xs)"

section \<open>Shared steps\<close>

definition release_if :: "('r ResourceState \<Rightarrow> bool) \<Rightarrow> ('k, 'i, 'r) Resource list
    \<Rightarrow> ('k, 'i, 'r) Resource list" where
  "release_if p = map (\<lambda>r. if p (resource_state r) then r\<lparr>resource_state := Free\<rparr> else r)"

definition expired_lease :: "u64 \<Rightarrow> 'r ResourceState \<Rightarrow> bool" where
  "expired_lease now s = (case s of Leased l \<Rightarrow> expires_at_unix_ms l \<le> now | _ \<Rightarrow> False)"

definition expired_ids :: "u64 \<Rightarrow> ('k, 'i, 'r) Resource list \<Rightarrow> uuid list" where
  "expired_ids now rs = concat (map (\<lambda>r. case resource_state r of
     Leased l \<Rightarrow> if expires_at_unix_ms l \<le> now then [lease_id l] else [] | _ \<Rightarrow> []) rs)"

definition clear_expired_leases :: "SchedulerSnapshot \<Rightarrow> u64 \<Rightarrow> SchedulerSnapshot \<times> uuid list" where
  "clear_expired_leases s now =
     (s\<lparr>slots := release_if (expired_lease now) (slots s),
        gpu_devices := release_if (expired_lease now) (gpu_devices s)\<rparr>,
      sorted_set (expired_ids now (slots s) @ expired_ids now (gpu_devices s)))"

definition group_lease :: "uuid \<Rightarrow> 'r ResourceState \<Rightarrow> bool" where
  "group_lease group_id s = (case s of Leased l \<Rightarrow> lease_group_id l = Some group_id | _ \<Rightarrow> False)"

definition clear_prepared_lease_group :: "SchedulerSnapshot \<Rightarrow> uuid \<Rightarrow> SchedulerSnapshot" where
  "clear_prepared_lease_group s group_id =
     s\<lparr>slots := release_if (group_lease group_id) (slots s),
       gpu_devices := release_if (group_lease group_id) (gpu_devices s)\<rparr>"

definition publish :: "SchedulerSnapshot \<Rightarrow> (SchedulerSnapshot \<Rightarrow> 'a) \<Rightarrow> 'a attempt" where
  "publish new_snapshot result =
     (case next_snapshot_version new_snapshot of
        Inl e \<Rightarrow> Return (Err e)
      | Inr v \<Rightarrow> Publish (new_snapshot\<lparr>version := v\<rparr>) (result (new_snapshot\<lparr>version := v\<rparr>)))"

text \<open>The keys of a request: repeated ones, unknown ones, and those of resources that are not free.\<close>

fun check_requests :: "('k \<rightharpoonup> nat) \<Rightarrow> ('k, 'i, 'r) Resource list \<Rightarrow> 'k list \<Rightarrow> 'k list
    \<Rightarrow> ('k list \<times> 'k list \<times> 'k list) panics" where
  "check_requests index rs seen [] = Some ([], [], [])"
| "check_requests index rs seen (k # ks) =
     (if k \<in> set seen
      then do { (d, u, c) \<leftarrow> check_requests index rs seen ks; Some (k # d, u, c) }
      else do {
        (d, u, c) \<leftarrow> check_requests index rs (k # seen) ks;
        case index k of
          None \<Rightarrow> Some (d, k # u, c)
        | Some idx \<Rightarrow>
            if idx < length rs
            then Some (d, u, if resource_state (rs ! idx) \<noteq> Free then k # c else c) else None })"

definition first_rejection :: "('k::linorder list \<Rightarrow> SchedulerError) \<Rightarrow> ('k list \<Rightarrow> SchedulerError)
    \<Rightarrow> ('k list \<Rightarrow> SchedulerError) \<Rightarrow> 'k list \<times> 'k list \<times> 'k list \<Rightarrow> SchedulerError option" where
  "first_rejection duplicates unknown conflicts = (\<lambda>(d, u, c).
     if d \<noteq> [] then Some (duplicates (sorted_set d))
     else if u \<noteq> [] then Some (unknown (sorted_set u))
     else if c \<noteq> [] then Some (conflicts (sorted_set c))
     else None)"

definition validate_slots :: "SchedulerState \<Rightarrow> SchedulerSnapshot \<Rightarrow> SlotId list \<Rightarrow> SchedulerError option panics" where
  "validate_slots st new_snapshot ids =
     map_option (first_rejection (\<lambda>d. DuplicateSlots d (snapshot st)) (\<lambda>u. UnknownSlots u (snapshot st))
         (\<lambda>c. SlotsUnavailable c (snapshot st)))
       (check_requests (slot_index st) (slots new_snapshot) [] ids)"

definition validate_gpus :: "SchedulerState \<Rightarrow> SchedulerSnapshot \<Rightarrow> GpuDeviceId list \<Rightarrow> SchedulerError option panics" where
  "validate_gpus st new_snapshot ids =
     map_option (first_rejection (\<lambda>d. DuplicateGpuDevices d (snapshot st)) (\<lambda>u. UnknownGpuDevices u (snapshot st))
         (\<lambda>c. GpuDevicesUnavailable c (snapshot st)))
       (check_requests (gpu_index st) (gpu_devices new_snapshot) [] ids)"

section \<open>Reservations\<close>

definition read_snapshot :: "SchedulerState option \<Rightarrow> (SchedulerSnapshot, SchedulerError) result" where
  "read_snapshot state = (case state of None \<Rightarrow> Err Uninitialized | Some st \<Rightarrow> Ok (snapshot st))"

definition slot_reservation :: "SlotReservationRequest \<Rightarrow> SlotState" where
  "slot_reservation req = Reserved \<lparr>slot_owner = request_slot_owner req,
     slot_task_id = request_slot_task_id req, slot_group_id = request_slot_group_id req\<rparr>"

definition gpu_reservation :: "GpuReservationRequest \<Rightarrow> GpuDeviceState" where
  "gpu_reservation req = Reserved \<lparr>gpu_owner = request_gpu_owner req,
     gpu_task_id = request_gpu_task_id req, gpu_group_id = request_gpu_group_id req\<rparr>"

definition reserve_resources :: "u64 \<Rightarrow> u64 \<Rightarrow> SlotReservationRequest list \<Rightarrow> GpuReservationRequest list
    \<Rightarrow> SchedulerState option \<Rightarrow> SchedulerSnapshot attempt panics" where
  "reserve_resources now expected_version slot_requests gpu_requests state =
     (if slot_requests = [] \<and> gpu_requests = [] then Some (Return (read_snapshot state))
      else case state of
        None \<Rightarrow> Some (Return (Err Uninitialized))
      | Some st \<Rightarrow>
        if version (snapshot st) \<noteq> expected_version
        then Some (Return (Err (SnapshotMismatch expected_version (version (snapshot st)) (snapshot st))))
        else do {
          let new_snapshot = fst (clear_expired_leases (snapshot st) now);
          slot_error \<leftarrow> validate_slots st new_snapshot (map request_slot_id slot_requests);
          case slot_error of
            Some e \<Rightarrow> Some (Return (Err e))
          | None \<Rightarrow> do {
              gpu_error \<leftarrow> validate_gpus st new_snapshot (map request_device_id gpu_requests);
              case gpu_error of
                Some e \<Rightarrow> Some (Return (Err e))
              | None \<Rightarrow> do {
                  new_slots \<leftarrow> set_states (slot_index st)
                    (map (\<lambda>req. (request_slot_id req, slot_reservation req)) slot_requests) (slots new_snapshot);
                  new_gpus \<leftarrow> set_states (gpu_index st)
                    (map (\<lambda>req. (request_device_id req, gpu_reservation req)) gpu_requests)
                    (gpu_devices new_snapshot);
                  Some (publish (new_snapshot\<lparr>slots := new_slots, gpu_devices := new_gpus\<rparr>) (\<lambda>s. s)) } } })"

definition reserve_slots :: "u64 \<Rightarrow> u64 \<Rightarrow> SlotReservationRequest list
    \<Rightarrow> SchedulerState option \<Rightarrow> SchedulerSnapshot attempt panics" where
  "reserve_slots now expected_version requests = reserve_resources now expected_version requests []"

text \<open>The keys to release: unknown ones and those of resources that are free already.\<close>

fun check_held :: "('k \<rightharpoonup> nat) \<Rightarrow> ('k, 'i, 'r) Resource list \<Rightarrow> 'k list \<Rightarrow> ('k list \<times> 'k list) panics" where
  "check_held index rs [] = Some ([], [])"
| "check_held index rs (k # ks) = do {
     (u, n) \<leftarrow> check_held index rs ks;
     case index k of
       None \<Rightarrow> Some (k # u, n)
     | Some idx \<Rightarrow>
         if idx < length rs then Some (u, if resource_state (rs ! idx) = Free then k # n else n) else None }"

definition free_resources :: "u64 \<Rightarrow> u64 \<Rightarrow> SlotId list \<Rightarrow> GpuDeviceId list
    \<Rightarrow> SchedulerState option \<Rightarrow> SchedulerSnapshot attempt panics" where
  "free_resources now expected_version released gpu_device_ids state =
     (let slot_ids = sorted_set released; gpu_ids = sorted_set gpu_device_ids in
      if slot_ids = [] \<and> gpu_ids = [] then Some (Return (read_snapshot state))
      else case state of
        None \<Rightarrow> Some (Return (Err Uninitialized))
      | Some st \<Rightarrow>
        if version (snapshot st) \<noteq> expected_version
        then Some (Return (Err (SnapshotMismatch expected_version (version (snapshot st)) (snapshot st))))
        else do {
          let new_snapshot = fst (clear_expired_leases (snapshot st) now);
          (unknown_slots, not_reserved_slots) \<leftarrow> check_held (slot_index st) (slots new_snapshot) slot_ids;
          if unknown_slots \<noteq> [] then Some (Return (Err (UnknownSlots unknown_slots (snapshot st))))
          else if not_reserved_slots \<noteq> []
          then Some (Return (Err (SlotsNotReserved not_reserved_slots (snapshot st))))
          else do {
            (unknown_gpus, not_reserved_gpus) \<leftarrow> check_held (gpu_index st) (gpu_devices new_snapshot) gpu_ids;
            if unknown_gpus \<noteq> [] then Some (Return (Err (UnknownGpuDevices unknown_gpus (snapshot st))))
            else if not_reserved_gpus \<noteq> []
            then Some (Return (Err (GpuDevicesNotReserved not_reserved_gpus (snapshot st))))
            else do {
              new_slots \<leftarrow> set_states (slot_index st) (map (\<lambda>k. (k, Free)) slot_ids) (slots new_snapshot);
              new_gpus \<leftarrow> set_states (gpu_index st) (map (\<lambda>k. (k, Free)) gpu_ids) (gpu_devices new_snapshot);
              Some (publish (new_snapshot\<lparr>slots := new_slots, gpu_devices := new_gpus\<rparr>) (\<lambda>s. s)) } } })"

definition free_slots :: "u64 \<Rightarrow> u64 \<Rightarrow> SlotId list
    \<Rightarrow> SchedulerState option \<Rightarrow> SchedulerSnapshot attempt panics" where
  "free_slots now expected_version slot_ids = free_resources now expected_version slot_ids []"

section \<open>Choosing resources\<close>

definition free_indices :: "('k, 'i, 'r) Resource list \<Rightarrow> nat list" where
  "free_indices rs = filter (\<lambda>idx. resource_state (rs ! idx) = Free) [0..<length rs]"

definition slot_score :: "SlotCapacity \<Rightarrow> u64 \<Rightarrow> u64 \<Rightarrow> u128" where
  "slot_score capacity remaining_cpu remaining_memory =
     or (push_bit 64 (ucast (min (cpu_millis capacity) remaining_cpu)))
        (ucast (min (memory_bytes capacity) remaining_memory))"

definition best_choice :: "ResourceSlot list \<Rightarrow> u64 \<Rightarrow> u64 \<Rightarrow> nat list \<Rightarrow> (nat \<times> nat) option \<times> u128" where
  "best_choice rs remaining_cpu remaining_memory candidates =
     fold (\<lambda>(candidate_pos, idx) (choice, best_score).
         let score = slot_score (resource_info (rs ! idx)) remaining_cpu remaining_memory
         in if score > best_score then (Some (candidate_pos, idx), score) else (choice, best_score))
       (enumerate 0 candidates) (None, 0)"

text \<open>The loop; every round removes a candidate. A position past the candidates, on which
  \<open>Vec::remove\<close> would panic, does not occur (\<open>best_choice_spec\<close>).\<close>

function select_loop :: "ResourceSlot list \<Rightarrow> u64 \<Rightarrow> u64 \<Rightarrow> nat list \<Rightarrow> nat list \<Rightarrow> nat list option" where
  "select_loop rs remaining_cpu remaining_memory candidates selected =
     (if remaining_cpu > 0 \<or> remaining_memory > 0
      then (case best_choice rs remaining_cpu remaining_memory candidates of
          (None, _) \<Rightarrow> None
        | (Some (best_pos, best_idx), best_score) \<Rightarrow>
            if best_score = 0 \<or> length candidates \<le> best_pos then None
            else select_loop rs
              (saturating_sub remaining_cpu (cpu_millis (resource_info (rs ! best_idx))))
              (saturating_sub remaining_memory (memory_bytes (resource_info (rs ! best_idx))))
              (take best_pos candidates @ drop (Suc best_pos) candidates)
              (selected @ [best_idx]))
      else Some selected)"
  by pat_completeness auto
termination
  by (relation "measure (\<lambda>(rs, cpu, memory, candidates, selected). length candidates)") auto

definition select_slot_indices :: "ResourceSlot list \<Rightarrow> nat list \<Rightarrow> u64 \<Rightarrow> u64 \<Rightarrow> nat list option" where
  "select_slot_indices rs available_indices cpu memory =
     (if available_indices = [] then None
      else if cpu = 0 \<or> memory = 0 then None
      else select_loop rs cpu memory available_indices [])"

fun retain_unselected :: "nat list \<Rightarrow> nat list \<Rightarrow> nat list" where
  "retain_unselected selected [] = []"
| "retain_unselected selected (idx # available) =
     (let rest = dropWhile (\<lambda>s. s < idx) selected
      in if rest = [] \<or> hd rest \<noteq> idx then idx # retain_unselected rest available
         else retain_unselected rest available)"

definition remove_selected_indices :: "nat list \<Rightarrow> nat list \<Rightarrow> nat list" where
  "remove_selected_indices available_indices selected_indices =
     (if selected_indices = [] then available_indices
      else retain_unselected (sort selected_indices) available_indices)"

definition select_gpu_indices :: "nat list \<Rightarrow> u32 \<Rightarrow> nat list option" where
  "select_gpu_indices available_indices count =
     (if count = 0 then Some []
      else if length available_indices < unat count then None
      else Some (take (unat count) available_indices))"

section \<open>Preparing leases\<close>

definition exact_lease :: "uuid \<Rightarrow> uuid \<Rightarrow> u64 \<Rightarrow> ExactTaskLeaseIntent \<Rightarrow> uuid \<Rightarrow> LeaseReservation" where
  "exact_lease coordinator group_id expires_at intent new_id =
     \<lparr>lease_id = new_id, coordinator_node_id = coordinator, lease_task_id = exact_task_id intent,
      expires_at_unix_ms = expires_at, lease_group_id = Some group_id\<rparr>"

fun lease_exact :: "SchedulerState \<Rightarrow> (ExactTaskLeaseIntent \<Rightarrow> uuid \<Rightarrow> LeaseReservation)
    \<Rightarrow> (ExactTaskLeaseIntent \<times> uuid) list \<Rightarrow> ResourceSlot list \<Rightarrow> GpuDevice list
    \<Rightarrow> (ResourceSlot list \<times> GpuDevice list \<times> PreparedTaskLease list) panics" where
  "lease_exact st lease [] new_slots new_gpus = Some (new_slots, new_gpus, [])"
| "lease_exact st lease ((intent, new_id) # intents) new_slots new_gpus = do {
     let reservation = lease intent new_id;
     let slot_ids = sort (exact_slot_ids intent);
     let gpu_device_ids = sort (exact_gpu_device_ids intent);
     new_slots \<leftarrow> set_states (slot_index st) (map (\<lambda>k. (k, Leased reservation)) slot_ids) new_slots;
     new_gpus \<leftarrow> set_states (gpu_index st) (map (\<lambda>k. (k, Leased reservation)) gpu_device_ids) new_gpus;
     (new_slots, new_gpus, leases) \<leftarrow> lease_exact st lease intents new_slots new_gpus;
     Some (new_slots, new_gpus,
       \<lparr>prepared_lease_id = new_id, prepared_task_id = exact_task_id intent,
        prepared_expires_at_unix_ms = expires_at_unix_ms reservation,
        prepared_slot_ids = slot_ids, prepared_gpu_device_ids = gpu_device_ids\<rparr> # leases) }"

definition prepare_exact_task_lease_group :: "u64 \<Rightarrow> uuid list \<Rightarrow> u64 \<Rightarrow> uuid \<Rightarrow> uuid \<Rightarrow> u64
    \<Rightarrow> ExactTaskLeaseIntent list \<Rightarrow> SchedulerState option \<Rightarrow> PreparedTaskLeaseBatch attempt panics" where
  "prepare_exact_task_lease_group now new_ids expected_version coordinator group_id ttl_ms intents state =
     (if intents = [] then Some (Return (Ok (PreparedTaskLeaseBatch [])))
      else case state of
        None \<Rightarrow> Some (Return (Err Uninitialized))
      | Some st \<Rightarrow>
        if version (snapshot st) \<noteq> expected_version
        then Some (Return (Err (SnapshotMismatch expected_version (version (snapshot st)) (snapshot st))))
        else do {
          let new_snapshot =
            clear_prepared_lease_group (fst (clear_expired_leases (snapshot st) now)) group_id;
          slot_error \<leftarrow> validate_slots st new_snapshot (concat (map exact_slot_ids intents));
          gpu_error \<leftarrow> validate_gpus st new_snapshot (concat (map exact_gpu_device_ids intents));
          case slot_error of
            Some e \<Rightarrow> Some (Return (Err e))
          | None \<Rightarrow>
            (case gpu_error of
               Some e \<Rightarrow> Some (Return (Err e))
             | None \<Rightarrow> do {
                 (new_slots, new_gpus, leases) \<leftarrow>
                   lease_exact st (exact_lease coordinator group_id (saturating_add now ttl_ms))
                     (zip intents new_ids) (slots new_snapshot) (gpu_devices new_snapshot);
                 Some (publish (new_snapshot\<lparr>slots := new_slots, gpu_devices := new_gpus\<rparr>)
                   (\<lambda>_. PreparedTaskLeaseBatch leases)) }) })"

definition intent_lease :: "uuid \<Rightarrow> uuid option \<Rightarrow> u64 \<Rightarrow> TaskLeaseIntent \<Rightarrow> uuid \<Rightarrow> LeaseReservation" where
  "intent_lease coordinator group_id expires_at intent new_id =
     \<lparr>lease_id = new_id, coordinator_node_id = coordinator, lease_task_id = intent_task_id intent,
      expires_at_unix_ms = expires_at, lease_group_id = group_id\<rparr>"

definition lease_at :: "LeaseReservation \<Rightarrow> nat list \<Rightarrow> ('k, 'i, 'r) Resource list
    \<Rightarrow> ('k, 'i, 'r) Resource list" where
  "lease_at reservation = fold (\<lambda>idx rs. rs[idx := (rs ! idx)\<lparr>resource_state := Leased reservation\<rparr>])"

text \<open>The intents in order; the first that does not fit is reported.\<close>

fun lease_intents :: "(TaskLeaseIntent \<Rightarrow> uuid \<Rightarrow> LeaseReservation) \<Rightarrow> (TaskLeaseIntent \<times> uuid) list
    \<Rightarrow> ResourceSlot list \<Rightarrow> GpuDevice list \<Rightarrow> nat list \<Rightarrow> nat list
    \<Rightarrow> (ResourceSlot list \<times> GpuDevice list \<times> PreparedTaskLease list, uuid) result" where
  "lease_intents lease [] new_slots new_gpus free_slot_indices free_gpu_indices = Ok (new_slots, new_gpus, [])"
| "lease_intents lease ((intent, new_id) # intents) new_slots new_gpus free_slot_indices free_gpu_indices =
     (case select_slot_indices new_slots free_slot_indices (intent_cpu_millis intent) (intent_memory_bytes intent) of
        None \<Rightarrow> Err (intent_task_id intent)
      | Some slot_indices \<Rightarrow>
        (case select_gpu_indices free_gpu_indices (intent_gpu_count intent) of
           None \<Rightarrow> Err (intent_task_id intent)
         | Some gpu_indices \<Rightarrow>
           (let reservation = lease intent new_id;
                slot_ids = map (\<lambda>idx. resource_key (new_slots ! idx)) slot_indices;
                gpu_device_ids = map (\<lambda>idx. resource_key (new_gpus ! idx)) gpu_indices
            in case lease_intents lease intents (lease_at reservation slot_indices new_slots)
                 (lease_at reservation gpu_indices new_gpus)
                 (remove_selected_indices free_slot_indices slot_indices)
                 (remove_selected_indices free_gpu_indices gpu_indices) of
                Inl failed \<Rightarrow> Err failed
              | Inr (new_slots, new_gpus, leases) \<Rightarrow> Ok (new_slots, new_gpus,
                  \<lparr>prepared_lease_id = new_id, prepared_task_id = intent_task_id intent,
                   prepared_expires_at_unix_ms = expires_at_unix_ms reservation,
                   prepared_slot_ids = sort slot_ids,
                   prepared_gpu_device_ids = sort gpu_device_ids\<rparr> # leases))))"

definition prepare_task_leases_with_group :: "u64 \<Rightarrow> uuid list \<Rightarrow> uuid \<Rightarrow> uuid option \<Rightarrow> u64
    \<Rightarrow> TaskLeaseIntent list \<Rightarrow> SchedulerState option \<Rightarrow> PreparedTaskLeaseBatch attempt" where
  "prepare_task_leases_with_group now new_ids coordinator group_id ttl_ms intents state =
     (if intents = [] then Return (Ok (PreparedTaskLeaseBatch []))
      else case state of
        None \<Rightarrow> Return (Err Uninitialized)
      | Some st \<Rightarrow>
        (let cleared = fst (clear_expired_leases (snapshot st) now);
             new_snapshot = (case group_id of
                 None \<Rightarrow> cleared | Some g \<Rightarrow> clear_prepared_lease_group cleared g)
         in case lease_intents (intent_lease coordinator group_id (saturating_add now ttl_ms))
              (zip intents new_ids) (slots new_snapshot) (gpu_devices new_snapshot)
              (free_indices (slots new_snapshot)) (free_indices (gpu_devices new_snapshot)) of
             Inl failed \<Rightarrow> Return (Err (InsufficientResources [failed] (snapshot st)))
           | Inr (new_slots, new_gpus, leases) \<Rightarrow>
               publish (new_snapshot\<lparr>slots := new_slots, gpu_devices := new_gpus\<rparr>)
                 (\<lambda>_. PreparedTaskLeaseBatch leases)))"

definition prepare_task_leases :: "u64 \<Rightarrow> uuid list \<Rightarrow> uuid \<Rightarrow> u64 \<Rightarrow> TaskLeaseIntent list
    \<Rightarrow> SchedulerState option \<Rightarrow> PreparedTaskLeaseBatch attempt" where
  "prepare_task_leases now new_ids coordinator = prepare_task_leases_with_group now new_ids coordinator None"

definition prepare_task_lease_group :: "u64 \<Rightarrow> uuid list \<Rightarrow> uuid \<Rightarrow> uuid \<Rightarrow> u64 \<Rightarrow> TaskLeaseIntent list
    \<Rightarrow> SchedulerState option \<Rightarrow> PreparedTaskLeaseBatch attempt" where
  "prepare_task_lease_group now new_ids coordinator group_id =
     prepare_task_leases_with_group now new_ids coordinator (Some group_id)"

section \<open>Committing leases\<close>

text \<open>\<open>owner\<close> is the scheduler's own row key.\<close>

definition committed_slot :: "uuid \<Rightarrow> uuid \<Rightarrow> uuid option \<Rightarrow> SlotState" where
  "committed_slot owner task group_id =
     Reserved \<lparr>slot_owner = owner, slot_task_id = Some task, slot_group_id = group_id\<rparr>"

definition committed_gpu :: "uuid \<Rightarrow> uuid \<Rightarrow> uuid option \<Rightarrow> GpuDeviceState" where
  "committed_gpu owner task group_id =
     Reserved \<lparr>gpu_owner = owner, gpu_task_id = Some task, gpu_group_id = group_id\<rparr>"

definition commit_task_lease :: "uuid \<Rightarrow> u64 \<Rightarrow> uuid \<Rightarrow> uuid \<Rightarrow> uuid \<Rightarrow> SlotId list \<Rightarrow> GpuDeviceId list
    \<Rightarrow> SchedulerState option \<Rightarrow> SchedulerSnapshot attempt panics" where
  "commit_task_lease owner now lease coordinator task expected_slot_ids expected_gpu_device_ids state =
     (case state of
        None \<Rightarrow> Some (Return (Err Uninitialized))
      | Some st \<Rightarrow>
        (case map_of (lease_index st) lease of
           None \<Rightarrow> Some (Return (Err (UnknownLeases [lease] (snapshot st))))
         | Some a \<Rightarrow>
           if alloc_expires_at_unix_ms a \<le> now
           then Some (Return (Err (ExpiredLeases [lease] (snapshot st))))
           else (case alloc_group_id a of
             Some group_id \<Rightarrow> Some (Return (Err (LeaseGroupMismatch group_id (snapshot st))))
           | None \<Rightarrow>
             if alloc_coordinator_node_id a \<noteq> coordinator \<or> alloc_task_id a \<noteq> task
               \<or> alloc_slot_ids a \<noteq> sort expected_slot_ids
               \<or> alloc_gpu_device_ids a \<noteq> sort expected_gpu_device_ids
             then Some (Return (Err (LeaseMismatch lease (snapshot st))))
             else do {
               new_slots \<leftarrow> set_states (slot_index st)
                 (map (\<lambda>k. (k, committed_slot owner task None)) (alloc_slot_ids a)) (slots (snapshot st));
               new_gpus \<leftarrow> set_states (gpu_index st)
                 (map (\<lambda>k. (k, committed_gpu owner task None)) (alloc_gpu_device_ids a))
                 (gpu_devices (snapshot st));
               Some (publish ((snapshot st)\<lparr>slots := new_slots, gpu_devices := new_gpus\<rparr>) (\<lambda>s. s)) })))"

definition group_lease_ids :: "SchedulerState \<Rightarrow> uuid \<Rightarrow> uuid list" where
  "group_lease_ids st group_id =
     sorted_set (map fst (filter (\<lambda>(_, a). alloc_group_id a = Some group_id) (lease_index st)))"

fun commit_group_leases :: "uuid \<Rightarrow> SchedulerState \<Rightarrow> uuid \<Rightarrow> LeaseAllocation list
    \<Rightarrow> ResourceSlot list \<Rightarrow> GpuDevice list \<Rightarrow> (ResourceSlot list \<times> GpuDevice list) panics" where
  "commit_group_leases owner st group_id [] new_slots new_gpus = Some (new_slots, new_gpus)"
| "commit_group_leases owner st group_id (a # allocs) new_slots new_gpus = do {
     new_slots \<leftarrow> set_states (slot_index st)
       (map (\<lambda>k. (k, committed_slot owner (alloc_task_id a) (Some group_id))) (alloc_slot_ids a)) new_slots;
     new_gpus \<leftarrow> set_states (gpu_index st)
       (map (\<lambda>k. (k, committed_gpu owner (alloc_task_id a) (Some group_id))) (alloc_gpu_device_ids a)) new_gpus;
     commit_group_leases owner st group_id allocs new_slots new_gpus }"

definition lease_differs :: "PreparedTaskLease \<Rightarrow> LeaseAllocation \<Rightarrow> bool" where
  "lease_differs expected a \<longleftrightarrow> alloc_task_id a \<noteq> prepared_task_id expected
     \<or> alloc_slot_ids a \<noteq> sort (prepared_slot_ids expected)
     \<or> alloc_gpu_device_ids a \<noteq> sort (prepared_gpu_device_ids expected)"

text \<open>The leases of the group with their allocations and the caller's bindings for them.\<close>

definition group_entries :: "SchedulerState \<Rightarrow> PreparedTaskLease list \<Rightarrow> uuid list
    \<Rightarrow> (uuid \<times> LeaseAllocation \<times> PreparedTaskLease) list panics" where
  "group_entries st prepared ids =
     those (map (\<lambda>i. do {
       a \<leftarrow> map_of (lease_index st) i;
       p \<leftarrow> map_of (map (\<lambda>p. (prepared_lease_id p, p)) prepared) i;
       Some (i, a, p) }) ids)"

definition commit_task_lease_group :: "uuid \<Rightarrow> u64 \<Rightarrow> uuid \<Rightarrow> uuid \<Rightarrow> PreparedTaskLease list
    \<Rightarrow> SchedulerState option \<Rightarrow> SchedulerSnapshot attempt panics" where
  "commit_task_lease_group owner now group_id coordinator prepared_leases state =
     (case state of
        None \<Rightarrow> Some (Return (Err Uninitialized))
      | Some st \<Rightarrow>
        (let mismatch = Some (Return (Err (LeaseGroupMismatch group_id (snapshot st))));
             actual = group_lease_ids st group_id
         in if \<not> distinct (map prepared_lease_id prepared_leases) then mismatch
         else if actual = [] then Some (Return (Err (UnknownLeaseGroup group_id (snapshot st))))
         else if actual \<noteq> sorted_set (map prepared_lease_id prepared_leases) then mismatch
         else do {
           entries \<leftarrow> group_entries st prepared_leases actual;
           if \<exists>(i, a, p) \<in> set entries. alloc_coordinator_node_id a \<noteq> coordinator then mismatch
           else if \<exists>(i, a, p) \<in> set entries. alloc_expires_at_unix_ms a \<le> now
           then Some (Return (Err (ExpiredLeases
             (map fst (filter (\<lambda>(i, a, p). alloc_expires_at_unix_ms a \<le> now) entries)) (snapshot st))))
           else (case List.find (\<lambda>(i, a, p). lease_differs p a) entries of
             Some (i, _) \<Rightarrow> Some (Return (Err (LeaseMismatch i (snapshot st))))
           | None \<Rightarrow> do {
               (new_slots, new_gpus) \<leftarrow> commit_group_leases owner st group_id
                 (map (\<lambda>(i, a, p). a) entries) (slots (snapshot st)) (gpu_devices (snapshot st));
               Some (publish ((snapshot st)\<lparr>slots := new_slots, gpu_devices := new_gpus\<rparr>) (\<lambda>s. s)) }) }))"

section \<open>Aborting and reaping leases\<close>

text \<open>Releases the listed resources that are still held by the lease.\<close>

fun release_held :: "('k \<rightharpoonup> nat) \<Rightarrow> uuid \<Rightarrow> 'k list \<Rightarrow> ('k, 'i, 'r) Resource list \<Rightarrow> bool
    \<Rightarrow> (('k, 'i, 'r) Resource list \<times> bool) panics" where
  "release_held index lid [] rs changed = Some (rs, changed)"
| "release_held index lid (k # ks) rs changed = do {
     s \<leftarrow> state_at index k rs;
     if holds_lease lid s
     then do { rs \<leftarrow> set_state index k Free rs; release_held index lid ks rs True }
     else release_held index lid ks rs changed }"

fun release_leases :: "SchedulerState \<Rightarrow> (uuid \<times> LeaseAllocation) list
    \<Rightarrow> ResourceSlot list \<Rightarrow> GpuDevice list \<Rightarrow> bool \<Rightarrow> (ResourceSlot list \<times> GpuDevice list \<times> bool) panics" where
  "release_leases st [] new_slots new_gpus changed = Some (new_slots, new_gpus, changed)"
| "release_leases st ((lid, a) # leases) new_slots new_gpus changed = do {
     (new_slots, changed) \<leftarrow> release_held (slot_index st) lid (alloc_slot_ids a) new_slots changed;
     (new_gpus, changed) \<leftarrow> release_held (gpu_index st) lid (alloc_gpu_device_ids a) new_gpus changed;
     release_leases st leases new_slots new_gpus changed }"

definition abortable :: "SchedulerState \<Rightarrow> uuid \<Rightarrow> AbortTaskLeaseIntent list \<Rightarrow> (uuid \<times> LeaseAllocation) list" where
  "abortable st coordinator intents = concat (map (\<lambda>intent.
     case map_of (lease_index st) (abort_lease_id intent) of
       None \<Rightarrow> []
     | Some a \<Rightarrow>
         if alloc_coordinator_node_id a \<noteq> coordinator \<or> alloc_task_id a \<noteq> abort_task_id intent
         then [] else [(abort_lease_id intent, a)]) intents)"

definition abort_task_leases :: "uuid \<Rightarrow> AbortTaskLeaseIntent list
    \<Rightarrow> SchedulerState option \<Rightarrow> SchedulerSnapshot attempt panics" where
  "abort_task_leases coordinator intents state =
     (if intents = [] then Some (Return (read_snapshot state))
      else case state of
        None \<Rightarrow> Some (Return (Err Uninitialized))
      | Some st \<Rightarrow> do {
          (new_slots, new_gpus, changed) \<leftarrow> release_leases st (abortable st coordinator intents)
            (slots (snapshot st)) (gpu_devices (snapshot st)) False;
          Some (if \<not> changed then Return (Ok (snapshot st))
            else publish ((snapshot st)\<lparr>slots := new_slots, gpu_devices := new_gpus\<rparr>) (\<lambda>s. s)) })"

definition own_group_slot :: "uuid \<Rightarrow> uuid \<Rightarrow> SlotState \<Rightarrow> bool" where
  "own_group_slot owner group_id s =
     (case s of Reserved r \<Rightarrow> slot_owner r = owner \<and> slot_group_id r = Some group_id | _ \<Rightarrow> False)"

definition own_group_gpu :: "uuid \<Rightarrow> uuid \<Rightarrow> GpuDeviceState \<Rightarrow> bool" where
  "own_group_gpu owner group_id s =
     (case s of Reserved r \<Rightarrow> gpu_owner r = owner \<and> gpu_group_id r = Some group_id | _ \<Rightarrow> False)"

definition abort_task_lease_group :: "uuid \<Rightarrow> uuid \<Rightarrow> uuid
    \<Rightarrow> SchedulerState option \<Rightarrow> SchedulerSnapshot attempt panics" where
  "abort_task_lease_group owner coordinator group_id state =
     (case state of
        None \<Rightarrow> Some (Return (Err Uninitialized))
      | Some st \<Rightarrow> do {
          (released_slots, released_gpus, released) \<leftarrow> release_leases st
            (filter (\<lambda>(_, a). alloc_group_id a = Some group_id \<and> alloc_coordinator_node_id a = coordinator)
              (lease_index st))
            (slots (snapshot st)) (gpu_devices (snapshot st)) False;
          let changed = (released
            \<or> (\<exists>r \<in> set released_slots. own_group_slot owner group_id (resource_state r))
            \<or> (\<exists>r \<in> set released_gpus. own_group_gpu owner group_id (resource_state r)));
          Some (if \<not> changed then Return (Ok (snapshot st))
            else publish ((snapshot st)\<lparr>
                slots := release_if (own_group_slot owner group_id) released_slots,
                gpu_devices := release_if (own_group_gpu owner group_id) released_gpus\<rparr>) (\<lambda>s. s)) })"

definition reap_expired_leases :: "u64 \<Rightarrow> SchedulerState option \<Rightarrow> uuid list attempt" where
  "reap_expired_leases now state =
     (case state of
        None \<Rightarrow> Return (Err Uninitialized)
      | Some st \<Rightarrow>
        (case clear_expired_leases (snapshot st) now of (new_snapshot, expired) \<Rightarrow>
           if expired = [] then Return (Ok []) else publish new_snapshot (\<lambda>_. expired)))"

section \<open>All operations\<close>

datatype operation =
    ReserveResources u64 "SlotReservationRequest list" "GpuReservationRequest list"
  | FreeResources u64 "SlotId list" "GpuDeviceId list"
  | PrepareExact u64 uuid uuid u64 "ExactTaskLeaseIntent list"
  | PrepareLeases uuid "uuid option" u64 "TaskLeaseIntent list"
  | CommitLease uuid uuid uuid "SlotId list" "GpuDeviceId list"
  | CommitGroup uuid uuid "PreparedTaskLease list"
  | AbortLeases uuid "AbortTaskLeaseIntent list"
  | AbortGroup uuid uuid
  | ReapExpired

datatype outcome =
    Snapshot SchedulerSnapshot
  | Prepared PreparedTaskLeaseBatch
  | Reaped "uuid list"

fun run_operation :: "uuid \<Rightarrow> u64 \<Rightarrow> uuid list \<Rightarrow> operation \<Rightarrow> SchedulerState option \<Rightarrow> outcome attempt panics" where
  "run_operation owner now new_ids (ReserveResources v slot_requests gpu_requests) state =
     map_option (map_attempt Snapshot) (reserve_resources now v slot_requests gpu_requests state)"
| "run_operation owner now new_ids (FreeResources v ids gpus) state =
     map_option (map_attempt Snapshot) (free_resources now v ids gpus state)"
| "run_operation owner now new_ids (PrepareExact v coordinator group_id ttl_ms intents) state =
     map_option (map_attempt Prepared)
       (prepare_exact_task_lease_group now new_ids v coordinator group_id ttl_ms intents state)"
| "run_operation owner now new_ids (PrepareLeases coordinator group_id ttl_ms intents) state =
     Some (map_attempt Prepared
       (prepare_task_leases_with_group now new_ids coordinator group_id ttl_ms intents state))"
| "run_operation owner now new_ids (CommitLease lease coordinator task ids gpus) state =
     map_option (map_attempt Snapshot) (commit_task_lease owner now lease coordinator task ids gpus state)"
| "run_operation owner now new_ids (CommitGroup group_id coordinator prepared) state =
     map_option (map_attempt Snapshot) (commit_task_lease_group owner now group_id coordinator prepared state)"
| "run_operation owner now new_ids (AbortLeases coordinator intents) state =
     map_option (map_attempt Snapshot) (abort_task_leases coordinator intents state)"
| "run_operation owner now new_ids (AbortGroup coordinator group_id) state =
     map_option (map_attempt Snapshot) (abort_task_lease_group owner coordinator group_id state)"
| "run_operation owner now new_ids ReapExpired state =
     Some (map_attempt Reaped (reap_expired_leases now state))"

end
