(* ===== verification/Scheduler_Selection.thy ===== *)
theory Scheduler_Selection
  imports Scheduler_Transactions "HOL-Library.Multiset"
begin

text \<open>
  The choice of slots for a request (\<open>select_slot_indices\<close>): the greedy loop ends, covers the
  request, and fails only if the free slots together do not cover it.
\<close>

section \<open>Totals\<close>

definition total_cpu :: "ResourceSlot list \<Rightarrow> nat list \<Rightarrow> nat" where
  "total_cpu rs is = (\<Sum>i\<leftarrow>is. unat (cpu_millis (resource_info (rs ! i))))"

definition total_memory :: "ResourceSlot list \<Rightarrow> nat list \<Rightarrow> nat" where
  "total_memory rs is = (\<Sum>i\<leftarrow>is. unat (memory_bytes (resource_info (rs ! i))))"

definition demo_slot :: "SlotId \<Rightarrow> u64 \<Rightarrow> u64 \<Rightarrow> ResourceSlot" where
  "demo_slot k c m = \<lparr>resource_key = k,
     resource_info = \<lparr>cpu_millis = c, memory_bytes = m, gpu_count = 0\<rparr>, resource_state = Free\<rparr>"

lemma total_mset:
  "total_cpu rs is = (\<Sum>i\<in>#mset is. unat (cpu_millis (resource_info (rs ! i))))"
  "total_memory rs is = (\<Sum>i\<in>#mset is. unat (memory_bytes (resource_info (rs ! i))))"
  by (simp_all add: total_cpu_def total_memory_def sum_mset_sum_list [symmetric])

lemma total_simps [simp]:
  "total_cpu rs [] = 0" "total_memory rs [] = 0"
  "total_cpu rs (i # is) = unat (cpu_millis (resource_info (rs ! i))) + total_cpu rs is"
  "total_memory rs (i # is) = unat (memory_bytes (resource_info (rs ! i))) + total_memory rs is"
  by (simp_all add: total_cpu_def total_memory_def)

lemma total_0_iff:
  "total_cpu rs is = 0 \<longleftrightarrow> (\<forall>i \<in> set is. cpu_millis (resource_info (rs ! i)) = 0)"
  "total_memory rs is = 0 \<longleftrightarrow> (\<forall>i \<in> set is. memory_bytes (resource_info (rs ! i)) = 0)"
  by (induction "is") (simp_all add: unat_eq_0)

lemma remove_nth_mset:
  assumes "p < length xs"
  shows "mset xs = add_mset (xs ! p) (mset (take p xs @ drop (Suc p) xs))"
proof -
  have "mset xs = mset (take p xs @ xs ! p # drop (Suc p) xs)"
    using id_take_nth_drop [OF assms] by simp
  then show ?thesis
    by simp
qed

lemma total_remove:
  assumes "p < length xs"
  shows "total_cpu rs xs = unat (cpu_millis (resource_info (rs ! (xs ! p)))) + total_cpu rs (take p xs @ drop (Suc p) xs)"
    and "total_memory rs xs = unat (memory_bytes (resource_info (rs ! (xs ! p)))) + total_memory rs (take p xs @ drop (Suc p) xs)"
  using remove_nth_mset [OF assms] by (simp_all add: total_mset del: mset_append)

section \<open>Scores\<close>

lemma push_ucast_0: "push_bit 64 (ucast (a :: u64)) = (0 :: u128) \<longleftrightarrow> a = 0"
proof -
  have "unat (push_bit 64 (ucast a) :: u128) = unat a * 2 ^ 64"
    using unat_bounds(1) [of a]
    by (simp add: push_bit_eq_mult unat_word_ariths unsigned_ucast_eq take_bit_nat_eq_self)
  then show ?thesis
    by (metis mult_eq_0_iff power_not_zero unat_0 unsigned_0 unat_eq_0 zero_neq_numeral)
qed

lemma slot_score_0:
  "slot_score capacity c m = 0 \<longleftrightarrow>
     (cpu_millis capacity = 0 \<or> c = 0) \<and> (memory_bytes capacity = 0 \<or> m = 0)"
proof -
  have "min x y = 0 \<longleftrightarrow> x = 0 \<or> y = 0" for x y :: u64
    by (metis antisym min_def word_zero_le)
  moreover have "(ucast (a :: u64) :: u128) = 0 \<longleftrightarrow> a = 0" for a
  proof -
    have "unat (ucast a :: u128) = unat a"
      using unat_bounds(1) [of a] by (simp add: unsigned_ucast_eq take_bit_nat_eq_self)
    then show ?thesis
      by (metis unat_eq_0)
  qed
  ultimately show ?thesis
    by (simp add: slot_score_def or_eq_0_iff push_ucast_0)
qed

lemma best_choice_append:
  "best_choice rs c m (cands @ [i]) = (case best_choice rs c m cands of (choice, best) \<Rightarrow>
     if slot_score (resource_info (rs ! i)) c m > best
     then (Some (length cands, i), slot_score (resource_info (rs ! i)) c m) else (choice, best))"
  by (simp add: best_choice_def enumerate_append_eq Let_def split: prod.splits)

lemma best_choice_spec:
  "case best_choice rs c m cands of
     (None, best) \<Rightarrow> best = 0 \<and> (\<forall>i \<in> set cands. slot_score (resource_info (rs ! i)) c m = 0)
   | (Some (p, i), best) \<Rightarrow> p < length cands \<and> cands ! p = i \<and> best \<noteq> 0
       \<and> best = slot_score (resource_info (rs ! i)) c m
       \<and> (\<forall>j \<in> set cands. slot_score (resource_info (rs ! j)) c m \<le> best)"
proof (induction cands rule: rev_induct)
  case Nil
  show ?case
    by (simp add: best_choice_def)
next
  case (snoc i cands)
  obtain choice best where b: "best_choice rs c m cands = (choice, best)"
    by force
  let ?s = "slot_score (resource_info (rs ! i)) c m"
  show ?case
  proof (cases "?s > best")
    case True
    then have "?s \<noteq> 0"
      by (metis word_not_simps(1))
    then show ?thesis
      using True snoc.IH unfolding best_choice_append b
      by (auto split: option.splits)
  next
    case False
    then show ?thesis
      using snoc.IH unfolding best_choice_append b
      by (auto simp: nth_append word_gt_0 split: option.splits)
  qed
qed

section \<open>The loop\<close>

declare select_loop.simps [simp del]

lemma select_loop_step:
  assumes "c > 0 \<or> m > 0"
  shows "(\<exists>p. p < length cands
      \<and> select_loop rs c m cands sel = select_loop rs
          (saturating_sub c (cpu_millis (resource_info (rs ! (cands ! p)))))
          (saturating_sub m (memory_bytes (resource_info (rs ! (cands ! p)))))
          (take p cands @ drop (Suc p) cands) (sel @ [cands ! p]))
    \<or> (select_loop rs c m cands sel = None
      \<and> (\<forall>i \<in> set cands. slot_score (resource_info (rs ! i)) c m = 0))"
proof (cases "fst (best_choice rs c m cands)")
  case None
  then obtain best where b: "best_choice rs c m cands = (None, best)"
    by (metis prod.collapse)
  then have "\<forall>i \<in> set cands. slot_score (resource_info (rs ! i)) c m = 0"
    using best_choice_spec [where rs = rs and c = c and m = m and cands = cands] by simp
  moreover have "select_loop rs c m cands sel = None"
    using assms by (simp add: select_loop.simps [of rs c m cands] b)
  ultimately show ?thesis
    by blast
next
  case (Some x)
  then obtain p i best where b: "best_choice rs c m cands = (Some (p, i), best)"
    by (metis prod.collapse)
  have "p < length cands" "cands ! p = i" "best \<noteq> 0"
    using best_choice_spec [where rs = rs and c = c and m = m and cands = cands]
    unfolding b prod.case option.case by blast+
  moreover have "select_loop rs c m cands sel = select_loop rs
      (saturating_sub c (cpu_millis (resource_info (rs ! i))))
      (saturating_sub m (memory_bytes (resource_info (rs ! i))))
      (take p cands @ drop (Suc p) cands) (sel @ [i])"
    using assms calculation by (simp add: select_loop.simps [of rs c m cands] b)
  ultimately show ?thesis
    by blast
qed

lemma uncovered_arith:
  fixes t k c :: nat
  shows "t < c - k \<longleftrightarrow> k + t < c"
  by auto

lemma select_loop_None_iff:
  "select_loop rs c m cands sel = None \<longleftrightarrow> total_cpu rs cands < unat c \<or> total_memory rs cands < unat m"
proof (induction cands arbitrary: c m sel rule: measure_induct_rule [of length])
  case (less cands)
  show ?case
  proof (cases "c > 0 \<or> m > 0")
    case False
    then have "c = 0" "m = 0"
      by (simp_all add: word_gt_0)
    then show ?thesis
      by (simp add: select_loop.simps)
  next
    case True
    from select_loop_step [OF True, where cands = cands and rs = rs and sel = sel] show ?thesis
    proof (elim disjE exE conjE)
      fix p
      assume p: "p < length cands" and eq: "select_loop rs c m cands sel = select_loop rs
          (saturating_sub c (cpu_millis (resource_info (rs ! (cands ! p)))))
          (saturating_sub m (memory_bytes (resource_info (rs ! (cands ! p)))))
          (take p cands @ drop (Suc p) cands) (sel @ [cands ! p])"
      have "length (take p cands @ drop (Suc p) cands) < length cands"
        using p by simp
      then show ?thesis
        unfolding eq total_remove [OF p] by (simp add: less unat_saturating_sub uncovered_arith)
    next
      assume none: "select_loop rs c m cands sel = None"
        and zero: "\<forall>i \<in> set cands. slot_score (resource_info (rs ! i)) c m = 0"
      have "total_cpu rs cands = 0 \<or> c = 0" "total_memory rs cands = 0 \<or> m = 0"
        using zero by (auto simp: slot_score_0 total_0_iff)
      then show ?thesis
        using none True by (auto simp: word_less_nat_alt)
    qed
  qed
qed

lemma select_loop_Some:
  "select_loop rs c m cands sel = Some out \<Longrightarrow>
     \<exists>xs. out = sel @ xs \<and> mset xs \<subseteq># mset cands \<and> unat c \<le> total_cpu rs xs \<and> unat m \<le> total_memory rs xs"
proof (induction cands arbitrary: c m sel rule: measure_induct_rule [of length])
  case (less cands)
  show ?case
  proof (cases "c > 0 \<or> m > 0")
    case False
    then have "c = 0" "m = 0"
      by (simp_all add: word_gt_0)
    then show ?thesis
      using less.prems by (simp add: select_loop.simps)
  next
    case True
    from select_loop_step [OF True, where cands = cands and rs = rs and sel = sel] less.prems obtain p where p: "p < length cands"
        and eq: "select_loop rs
          (saturating_sub c (cpu_millis (resource_info (rs ! (cands ! p)))))
          (saturating_sub m (memory_bytes (resource_info (rs ! (cands ! p)))))
          (take p cands @ drop (Suc p) cands) (sel @ [cands ! p]) = Some out"
      by auto
    have "length (take p cands @ drop (Suc p) cands) < length cands"
      using p by simp
    from less.IH [OF this eq] obtain xs where xs: "out = (sel @ [cands ! p]) @ xs"
        "mset xs \<subseteq># mset (take p cands @ drop (Suc p) cands)"
        "unat c - unat (cpu_millis (resource_info (rs ! (cands ! p)))) \<le> total_cpu rs xs"
        "unat m - unat (memory_bytes (resource_info (rs ! (cands ! p)))) \<le> total_memory rs xs"
      unfolding unat_saturating_sub by blast
    have "mset (cands ! p # xs) \<subseteq># mset cands"
      unfolding remove_nth_mset [OF p] using xs(2) by simp
    moreover have "unat c \<le> total_cpu rs (cands ! p # xs)" "unat m \<le> total_memory rs (cands ! p # xs)"
      using xs(3,4) unfolding total_simps by linarith+
    ultimately show ?thesis
      using xs(1) by (intro exI [of _ "cands ! p # xs"]) simp
  qed
qed

lemma select_slots_Some:
  assumes "select_slot_indices rs avail c m = Some sel"
  shows "mset sel \<subseteq># mset avail" "unat c \<le> total_cpu rs sel" "unat m \<le> total_memory rs sel"
  using assms select_loop_Some [of rs c m avail "[]" sel]
  by (auto simp: select_slot_indices_def split: if_splits)

lemma select_slots_subset:
  assumes "select_slot_indices rs avail c m = Some sel"
  shows "set sel \<subseteq> set avail" "distinct avail \<Longrightarrow> distinct sel"
proof -
  obtain M where "mset avail = mset sel + M"
    using select_slots_Some(1) [OF assms] by (metis mset_subset_eq_exists_conv)
  moreover obtain ys where "M = mset ys"
    using ex_mset [of M] by auto
  ultimately have eq: "mset avail = mset (sel @ ys)"
    by simp
  show "set sel \<subseteq> set avail"
    using mset_eq_setD [OF eq] by auto
  show "distinct sel" if "distinct avail"
    using that mset_eq_imp_distinct_iff [OF eq] by simp
qed

section \<open>Removing the chosen indices\<close>

lemma retain_unselected_filter:
  assumes "sorted avail" "sorted sel"
  shows "retain_unselected sel avail = filter (\<lambda>i. i \<notin> set sel) avail"
  using assms
proof (induction avail arbitrary: sel)
  case (Cons i avail)
  let ?rest = "dropWhile (\<lambda>s. s < i) sel"
  have srest: "sorted ?rest"
    using Cons.prems(2) by (simp add: sorted_dropWhile)
  have mem: "j \<in> set ?rest \<longleftrightarrow> j \<in> set sel" if "i \<le> j" for j
  proof -
    have "\<forall>s \<in> set (takeWhile (\<lambda>s. s < i) sel). s < i"
      by (metis set_takeWhileD)
    then have "j \<notin> set (takeWhile (\<lambda>s. s < i) sel)"
      using that by auto
    then show ?thesis
      by (metis Un_iff set_append takeWhile_dropWhile_id)
  qed
  have hd: "?rest = [] \<or> hd ?rest \<noteq> i \<longleftrightarrow> i \<notin> set sel"
  proof (cases ?rest)
    case Nil
    then have "i \<notin> set ?rest"
      unfolding Nil by simp
    then show ?thesis
      using Nil mem [of i] by blast
  next
    case (Cons s ss)
    then have "i \<le> s"
      using hd_dropWhile [of "\<lambda>s. s < i" sel] by (metis list.distinct(1) list.sel(1) not_le)
    then have "s = i \<longleftrightarrow> i \<in> set ?rest"
      using Cons srest by auto
    then show ?thesis
      using Cons mem [of i] by simp
  qed
  have "retain_unselected ?rest avail = filter (\<lambda>j. j \<notin> set ?rest) avail"
    using Cons.prems srest by (intro Cons.IH) simp_all
  also have "\<dots> = filter (\<lambda>j. j \<notin> set sel) avail"
    using Cons.prems mem by (intro filter_cong) auto
  finally show ?case
    using hd by (simp add: Let_def)
qed simp

lemma remove_selected_filter:
  assumes "sorted avail"
  shows "remove_selected_indices avail sel = filter (\<lambda>i. i \<notin> set sel) avail"
  using assms retain_unselected_filter [of avail "sort sel"] by (simp add: remove_selected_indices_def)

lemma select_gpu_Some:
  assumes "select_gpu_indices avail n = Some sel"
  shows "set sel \<subseteq> set avail" "length sel = unat n" "distinct avail \<Longrightarrow> distinct sel"
  using assms by (auto simp: select_gpu_indices_def split: if_splits dest: in_set_takeD)

section \<open>Property\<close>



end
