(* ===== verification/Scheduler_Safety.thy ===== *)
theory Scheduler_Safety
  imports Scheduler_Selection
begin

text \<open>
  What the scheduler's operations may do to its resources: no round of an operation panics on a
  well-formed state, a published snapshot has the same resources and the next version, and a
  resource changes only if the operation has authority over its holder.
\<close>

section \<open>Evolution of resources\<close>

definition evolves :: "('k \<Rightarrow> 'r ResourceState \<Rightarrow> bool) \<Rightarrow> LeaseReservation set
    \<Rightarrow> ('k, 'i, 'r) Resource list \<Rightarrow> ('k, 'i, 'r) Resource list \<Rightarrow> bool" where
  "evolves P L rs rs' \<longleftrightarrow> (\<exists>f. rs' = restate f rs \<and> (\<forall>r \<in> set rs.
     f (resource_key r) (resource_state r) \<noteq> resource_state r \<longrightarrow>
       P (resource_key r) (resource_state r)
       \<and> (\<forall>l. f (resource_key r) (resource_state r) = Leased l \<longrightarrow> l \<in> L)))"

definition step_ok :: "(SlotId \<Rightarrow> SlotState \<Rightarrow> bool) \<Rightarrow> (GpuDeviceId \<Rightarrow> GpuDeviceState \<Rightarrow> bool)
    \<Rightarrow> LeaseReservation set \<Rightarrow> SchedulerSnapshot \<Rightarrow> SchedulerSnapshot \<Rightarrow> bool" where
  "step_ok P Q L s s' \<longleftrightarrow> evolves P L (slots s) (slots s') \<and> evolves Q L (gpu_devices s) (gpu_devices s')
     \<and> version s' = version s"

fun attempt_ok :: "(SlotId \<Rightarrow> SlotState \<Rightarrow> bool) \<Rightarrow> (GpuDeviceId \<Rightarrow> GpuDeviceState \<Rightarrow> bool)
    \<Rightarrow> LeaseReservation set \<Rightarrow> SchedulerSnapshot \<Rightarrow> 'a attempt \<Rightarrow> bool" where
  "attempt_ok P Q L s (Return r) = True"
| "attempt_ok P Q L s (Publish s' a) =
     (version s \<noteq> - 1 \<and> version s' = version s + 1 \<and> step_ok P Q L s (s'\<lparr>version := version s\<rparr>))"

text \<open>The authority of an operation over a resource.\<close>

fun lease_authority :: "u64 \<Rightarrow> operation \<Rightarrow> LeaseReservation \<Rightarrow> bool" where
  "lease_authority now (ReserveResources _ _ _) l \<longleftrightarrow> expires_at_unix_ms l \<le> now"
| "lease_authority now (FreeResources _ _ _) l \<longleftrightarrow> expires_at_unix_ms l \<le> now"
| "lease_authority now (PrepareExact _ _ g _ _) l \<longleftrightarrow>
     expires_at_unix_ms l \<le> now \<or> lease_group_id l = Some g"
| "lease_authority now (PrepareLeases _ g _ _) l \<longleftrightarrow>
     expires_at_unix_ms l \<le> now \<or> (g \<noteq> None \<and> lease_group_id l = g)"
| "lease_authority now (CommitLease lid coordinator task _ _) l \<longleftrightarrow>
     now < expires_at_unix_ms l \<and> lease_id l = lid \<and> coordinator_node_id l = coordinator
     \<and> lease_task_id l = task \<and> lease_group_id l = None"
| "lease_authority now (CommitGroup g coordinator _) l \<longleftrightarrow>
     now < expires_at_unix_ms l \<and> lease_group_id l = Some g \<and> coordinator_node_id l = coordinator"
| "lease_authority now (AbortLeases coordinator intents) l \<longleftrightarrow>
     coordinator_node_id l = coordinator
     \<and> (lease_id l, lease_task_id l) \<in> (\<lambda>i. (abort_lease_id i, abort_task_id i)) ` set intents"
| "lease_authority now (AbortGroup coordinator g) l \<longleftrightarrow>
     lease_group_id l = Some g \<and> coordinator_node_id l = coordinator"
| "lease_authority now ReapExpired l \<longleftrightarrow> expires_at_unix_ms l \<le> now"

fun names_slot :: "operation \<Rightarrow> SlotId \<Rightarrow> bool" where
  "names_slot (FreeResources _ ids _) k \<longleftrightarrow> k \<in> set ids"
| "names_slot _ k \<longleftrightarrow> False"

fun names_gpu :: "operation \<Rightarrow> GpuDeviceId \<Rightarrow> bool" where
  "names_gpu (FreeResources _ _ ids) k \<longleftrightarrow> k \<in> set ids"
| "names_gpu _ k \<longleftrightarrow> False"

fun aborts_group :: "operation \<Rightarrow> uuid option" where
  "aborts_group (AbortGroup _ g) = Some g"
| "aborts_group _ = None"

definition slot_may_change :: "uuid \<Rightarrow> u64 \<Rightarrow> operation \<Rightarrow> SlotId \<Rightarrow> SlotState \<Rightarrow> bool" where
  "slot_may_change owner now op k s = (case s of
     Free \<Rightarrow> True
   | Leased l \<Rightarrow> lease_authority now op l \<or> names_slot op k
   | Reserved r \<Rightarrow> names_slot op k
       \<or> (aborts_group op \<noteq> None \<and> slot_owner r = owner \<and> slot_group_id r = aborts_group op))"

definition gpu_may_change :: "uuid \<Rightarrow> u64 \<Rightarrow> operation \<Rightarrow> GpuDeviceId \<Rightarrow> GpuDeviceState \<Rightarrow> bool" where
  "gpu_may_change owner now op k s = (case s of
     Free \<Rightarrow> True
   | Leased l \<Rightarrow> lease_authority now op l \<or> names_gpu op k
   | Reserved r \<Rightarrow> names_gpu op k
       \<or> (aborts_group op \<noteq> None \<and> gpu_owner r = owner \<and> gpu_group_id r = aborts_group op))"

fun new_leases :: "u64 \<Rightarrow> uuid list \<Rightarrow> operation \<Rightarrow> LeaseReservation set" where
  "new_leases now new_ids (PrepareExact _ coordinator g ttl_ms intents) =
     (\<lambda>(intent, i). exact_lease coordinator g (saturating_add now ttl_ms) intent i) ` set (zip intents new_ids)"
| "new_leases now new_ids (PrepareLeases coordinator g ttl_ms intents) =
     (\<lambda>(intent, i). intent_lease coordinator g (saturating_add now ttl_ms) intent i) ` set (zip intents new_ids)"
| "new_leases _ _ _ = {}"

abbreviation operation_ok :: "uuid \<Rightarrow> u64 \<Rightarrow> uuid list \<Rightarrow> operation \<Rightarrow> SchedulerSnapshot \<Rightarrow> 'a attempt \<Rightarrow> bool" where
  "operation_ok owner now new_ids op \<equiv> attempt_ok (slot_may_change owner now op)
     (gpu_may_change owner now op) (new_leases now new_ids op)"

definition prepared_exact :: "(ExactTaskLeaseIntent \<Rightarrow> uuid \<Rightarrow> LeaseReservation)
    \<Rightarrow> ExactTaskLeaseIntent \<times> uuid \<Rightarrow> PreparedTaskLease" where
  "prepared_exact lease = (\<lambda>(intent, new_id).
     \<lparr>prepared_lease_id = new_id, prepared_task_id = exact_task_id intent,
      prepared_expires_at_unix_ms = expires_at_unix_ms (lease intent new_id),
      prepared_slot_ids = sort (exact_slot_ids intent),
      prepared_gpu_device_ids = sort (exact_gpu_device_ids intent)\<rparr>)"

definition good_free :: "('k, 'i, 'r) Resource list \<Rightarrow> nat list \<Rightarrow> bool" where
  "good_free rs free \<longleftrightarrow> sorted free \<and> distinct free
     \<and> (\<forall>i \<in> set free. i < length rs \<and> resource_state (rs ! i) = Free)"

text \<open>Identifiers that no lease of the snapshot has.\<close>

definition fresh_ids :: "uuid list \<Rightarrow> SchedulerSnapshot \<Rightarrow> bool" where
  "fresh_ids new_ids s \<longleftrightarrow> distinct new_ids \<and> set new_ids \<inter> lease_id ` all_leases s = {}"

definition demo_lease :: LeaseReservation where
  "demo_lease = \<lparr>lease_id = 7, coordinator_node_id = 5, lease_task_id = 6, expires_at_unix_ms = 100,
     lease_group_id = None\<rparr>"

definition demo_snapshot :: SchedulerSnapshot where
  "demo_snapshot = \<lparr>version = 3,
     slots = [demo_slot 1 500 4, (demo_slot 2 1000 8)\<lparr>resource_state := Leased demo_lease\<rparr>],
     gpu_devices = []\<rparr>"

definition demo_committed :: SchedulerSnapshot where
  "demo_committed = \<lparr>version = 4,
     slots = [demo_slot 1 500 4, (demo_slot 2 1000 8)\<lparr>resource_state := Reserved
       \<lparr>slot_owner = 9, slot_task_id = Some 6, slot_group_id = None\<rparr>\<rparr>],
     gpu_devices = []\<rparr>"

lemma evolves_refl [simp]: "evolves P L rs rs"
  unfolding evolves_def by (rule exI [of _ "\<lambda>k s. s"]) simp

lemma evolves_restate:
  assumes "\<And>r. \<lbrakk>r \<in> set rs; f (resource_key r) (resource_state r) \<noteq> resource_state r\<rbrakk> \<Longrightarrow>
      P (resource_key r) (resource_state r)"
    and "\<And>r l. \<lbrakk>r \<in> set rs; f (resource_key r) (resource_state r) \<noteq> resource_state r;
      f (resource_key r) (resource_state r) = Leased l\<rbrakk> \<Longrightarrow> l \<in> L"
  shows "evolves P L rs (restate f rs)"
  unfolding evolves_def using assms by blast

lemma evolves_trans:
  assumes "evolves P L a b" "evolves P L b c"
  shows "evolves P L a c"
proof -
  obtain f where b: "b = restate f a" and f: "\<And>r. \<lbrakk>r \<in> set a; f (resource_key r) (resource_state r) \<noteq> resource_state r\<rbrakk>
      \<Longrightarrow> P (resource_key r) (resource_state r)
        \<and> (\<forall>l. f (resource_key r) (resource_state r) = Leased l \<longrightarrow> l \<in> L)"
    using assms(1) unfolding evolves_def by blast
  obtain g where c: "c = restate g b" and g: "\<And>r. \<lbrakk>r \<in> set b; g (resource_key r) (resource_state r) \<noteq> resource_state r\<rbrakk>
      \<Longrightarrow> P (resource_key r) (resource_state r)
        \<and> (\<forall>l. g (resource_key r) (resource_state r) = Leased l \<longrightarrow> l \<in> L)"
    using assms(2) unfolding evolves_def by blast
  have step: "P (resource_key r) (resource_state r)
      \<and> (\<forall>l. g (resource_key r) (f (resource_key r) (resource_state r)) = Leased l \<longrightarrow> l \<in> L)"
    if r: "r \<in> set a" and ne: "g (resource_key r) (f (resource_key r) (resource_state r)) \<noteq> resource_state r" for r
  proof -
    let ?r = "r\<lparr>resource_state := f (resource_key r) (resource_state r)\<rparr>"
    have "?r \<in> set b"
      using r b by (simp add: restate_def)
    from g [OF this] f [OF r] ne show ?thesis
      by (cases "f (resource_key r) (resource_state r) = resource_state r";
          cases "g (resource_key r) (f (resource_key r) (resource_state r)) = f (resource_key r) (resource_state r)")
        simp_all
  qed
  show ?thesis
    unfolding evolves_def c b restate_restate using step by blast
qed

lemma evolves_keys: "evolves P L rs rs' \<Longrightarrow> keys rs' = keys rs"
  by (auto simp: evolves_def)

lemma evolves_same: "evolves P L rs rs' \<Longrightarrow> same_resources rs rs'"
  by (auto simp: evolves_def)

lemma evolves_lookup:
  assumes "evolves P L rs rs'" "distinct (keys rs)" "lookup rs k = Some s" "lookup rs' k \<noteq> Some s"
  shows "P k s"
proof -
  obtain f where f: "rs' = restate f rs"
      "\<And>r. \<lbrakk>r \<in> set rs; f (resource_key r) (resource_state r) \<noteq> resource_state r\<rbrakk> \<Longrightarrow>
        P (resource_key r) (resource_state r)
        \<and> (\<forall>l. f (resource_key r) (resource_state r) = Leased l \<longrightarrow> l \<in> L)"
    using assms(1) unfolding evolves_def by blast
  obtain r where r: "r \<in> set rs" "resource_key r = k" "resource_state r = s"
    using assms(2,3) lookup_Some_iff [of rs k s] by auto
  have "f k s \<noteq> s"
    using assms(3,4) f(1) by (simp add: lookup_restate)
  then show ?thesis
    using f(2) [OF r(1)] r(2,3) by simp
qed

lemma evolves_leases:
  assumes "evolves P L rs rs'"
  shows "leases_of rs' \<subseteq> leases_of rs \<union> L"
proof
  fix l
  assume l: "l \<in> leases_of rs'"
  obtain f where f: "rs' = restate f rs"
      "\<And>r. \<lbrakk>r \<in> set rs; f (resource_key r) (resource_state r) \<noteq> resource_state r\<rbrakk> \<Longrightarrow>
        P (resource_key r) (resource_state r)
        \<and> (\<forall>l. f (resource_key r) (resource_state r) = Leased l \<longrightarrow> l \<in> L)"
    using assms unfolding evolves_def by blast
  obtain r where r: "r \<in> set rs" "f (resource_key r) (resource_state r) = Leased l"
    using l f(1) by (auto simp: leases_of_def restate_def)
  show "l \<in> leases_of rs \<union> L"
  proof (cases "resource_state r = Leased l")
    case True
    then show ?thesis
      using r(1) by (auto simp: leases_of_def)
  next
    case False
    then show ?thesis
      using f(2) [OF r(1)] r(2) by simp
  qed
qed

lemma evolves_release_if:
  assumes "\<And>k s. p s \<Longrightarrow> P k s"
  shows "evolves P L rs (release_if p rs)"
proof -
  have "release_if p rs = restate (\<lambda>k s. if p s then Free else s) rs"
    by (auto simp: release_if_def restate_def)
  moreover have "evolves P L rs (restate (\<lambda>k s. if p s then Free else s) rs)"
    by (rule evolves_restate) (use assms in \<open>auto split: if_splits\<close>)
  ultimately show ?thesis
    by simp
qed

lemma set_states_evolves:
  assumes d: "distinct (keys rs)" and k: "keys rs0 = keys rs"
    and known: "\<And>k st. (k, st) \<in> set updates \<Longrightarrow> \<exists>s. lookup rs k = Some s \<and> P k s"
    and new: "\<And>k l. (k, Leased l) \<in> set updates \<Longrightarrow> l \<in> L"
  shows "\<exists>rs'. set_states (build_index rs0) updates rs = Some rs' \<and> evolves P L rs rs'"
proof -
  have "k \<in> set (keys rs)" if "(k, st) \<in> set updates" for k st
    using known [OF that] lookup_None_iff [of rs k] by auto
  then have sub: "fst ` set updates \<subseteq> set (keys rs)"
    by auto
  have "evolves P L rs (restate (apply_updates updates) rs)"
  proof (rule evolves_restate)
    fix r
    assume r: "r \<in> set rs" and ne: "apply_updates updates (resource_key r) (resource_state r) \<noteq> resource_state r"
    then obtain st where st: "map_of (rev updates) (resource_key r) = Some st"
        "apply_updates updates (resource_key r) (resource_state r) = st"
      by (auto simp: apply_updates_def split: option.splits)
    then have mem: "(resource_key r, st) \<in> set updates"
      by (metis map_of_SomeD set_rev)
    have "lookup rs (resource_key r) = Some (resource_state r)"
      using r lookup_Some_iff [OF d] by blast
    then show "P (resource_key r) (resource_state r)"
      using known [OF mem] by auto
    fix l
    assume "apply_updates updates (resource_key r) (resource_state r) = Leased l"
    then show "l \<in> L"
      using st mem new by simp
  qed
  then show ?thesis
    using set_states_restate [OF d k, of updates] sub by simp
qed

section \<open>Requests\<close>

lemma index_lookup:
  assumes "distinct (keys rs)" "keys rs0 = keys rs"
  shows "build_index rs0 k = None \<Longrightarrow> lookup rs k = None"
    and "build_index rs0 k = Some i \<Longrightarrow> i < length rs \<and> lookup rs k = Some (resource_state (rs ! i))"
proof -
  show "lookup rs k = None" if "build_index rs0 k = None"
    using that assms(2) by (simp add: build_index_None_iff lookup_None_iff)
  show "i < length rs \<and> lookup rs k = Some (resource_state (rs ! i))" if i: "build_index rs0 k = Some i"
  proof -
    have "k \<in> set (keys rs)"
      using i assms(2) build_index_None_iff [of rs0 k] by auto
    then obtain j where j: "build_index rs0 k = Some j" "j < length rs"
      using index_at [OF assms] by blast
    then show ?thesis
      using i state_at_lookup [OF assms, of k] by (simp add: state_at_def)
  qed
qed

lemma check_requests_spec:
  assumes "distinct (keys rs)" "keys rs0 = keys rs"
  shows "\<exists>d u c. check_requests (build_index rs0) rs seen ks = Some (d, u, c)
    \<and> (d = [] \<and> u = [] \<and> c = [] \<longrightarrow>
        distinct ks \<and> set ks \<inter> set seen = {} \<and> (\<forall>k \<in> set ks. lookup rs k = Some Free))"
proof (induction ks arbitrary: seen)
  case (Cons k ks)
  show ?case
  proof (cases "k \<in> set seen")
    case True
    then show ?thesis
      using Cons.IH [of seen] by auto
  next
    case False
    obtain d u c where IH: "check_requests (build_index rs0) rs (k # seen) ks = Some (d, u, c)"
        "d = [] \<and> u = [] \<and> c = [] \<longrightarrow>
          distinct ks \<and> set ks \<inter> set (k # seen) = {} \<and> (\<forall>k \<in> set ks. lookup rs k = Some Free)"
      using Cons.IH by blast
    show ?thesis
    proof (cases "build_index rs0 k")
      case None
      then show ?thesis
        using False IH by simp
    next
      case (Some i)
      then show ?thesis
        using False IH index_lookup(2) [OF assms Some] by auto
    qed
  qed
qed simp

lemma validate_requests:
  assumes "distinct (keys rs)" "keys rs0 = keys rs"
  shows "\<exists>r. map_option (first_rejection fd fu fc) (check_requests (build_index rs0) rs [] ks) = Some r
    \<and> (r = None \<longrightarrow> distinct ks \<and> (\<forall>k \<in> set ks. lookup rs k = Some Free))"
proof -
  obtain d u c where "check_requests (build_index rs0) rs [] ks = Some (d, u, c)"
      "d = [] \<and> u = [] \<and> c = [] \<longrightarrow> distinct ks \<and> (\<forall>k \<in> set ks. lookup rs k = Some Free)"
    using check_requests_spec [OF assms, of "[]" ks] by auto
  then show ?thesis
    by (simp add: first_rejection_def)
qed

lemma check_held_spec:
  assumes "distinct (keys rs)" "keys rs0 = keys rs"
  shows "\<exists>u n. check_held (build_index rs0) rs ks = Some (u, n)
    \<and> (u = [] \<longrightarrow> (\<forall>k \<in> set ks. \<exists>s. lookup rs k = Some s))"
proof (induction ks)
  case (Cons k ks)
  then obtain u n where IH: "check_held (build_index rs0) rs ks = Some (u, n)"
      "u = [] \<longrightarrow> (\<forall>k \<in> set ks. \<exists>s. lookup rs k = Some s)"
    by blast
  show ?case
  proof (cases "build_index rs0 k")
    case None
    then show ?thesis
      using IH by simp
  next
    case (Some i)
    then show ?thesis
      using IH index_lookup(2) [OF assms Some] by simp
  qed
qed simp

section \<open>One round\<close>

lemma attempt_ok_publish:
  assumes "step_ok P Q L s new"
  shows "attempt_ok P Q L s (publish new f)"
proof (cases "version new = - 1")
  case False
  then show ?thesis
    using assms by (simp add: publish_def next_snapshot_version_def step_ok_def)
qed (simp add: publish_def next_snapshot_version_def)

lemma attempt_ok_map: "attempt_ok P Q L s (map_attempt f att) \<longleftrightarrow> attempt_ok P Q L s att"
  by (cases att) simp_all

lemma step_ok_trans: "step_ok P Q L a b \<Longrightarrow> step_ok P Q L b c \<Longrightarrow> step_ok P Q L a c"
  unfolding step_ok_def by (auto intro: evolves_trans)

lemma step_ok_refl [simp]: "step_ok P Q L s s"
  by (simp add: step_ok_def)

lemma step_ok_clear_expired:
  assumes "\<And>k s. expired_lease now s \<Longrightarrow> P k s" "\<And>k s. expired_lease now s \<Longrightarrow> Q k s"
  shows "step_ok P Q L s (fst (clear_expired_leases s now))"
  using assms by (simp add: step_ok_def clear_expired_leases_def evolves_release_if)

lemma step_ok_clear_group:
  assumes "\<And>k s. group_lease g s \<Longrightarrow> P k s" "\<And>k s. group_lease g s \<Longrightarrow> Q k s"
  shows "step_ok P Q L s (clear_prepared_lease_group s g)"
  using assms by (simp add: step_ok_def clear_prepared_lease_group_def evolves_release_if)

lemma step_ok_update:
  assumes "evolves P L (slots s) rs" "evolves Q L (gpu_devices s) gs"
  shows "step_ok P Q L s (s\<lparr>slots := rs, gpu_devices := gs\<rparr>)"
  using assms by (simp add: step_ok_def)

lemma step_ok_keys:
  assumes "step_ok P Q L s s'"
  shows "keys (slots s') = keys (slots s)" "keys (gpu_devices s') = keys (gpu_devices s)"
  using assms unfolding step_ok_def by (blast intro: evolves_keys)+

lemma SchedulerState_new_simps [simp]:
  "snapshot (SchedulerState_new s) = s" "slot_index (SchedulerState_new s) = build_index (slots s)"
  "gpu_index (SchedulerState_new s) = build_index (gpu_devices s)"
  "lease_index (SchedulerState_new s) = build_lease_index s"
  by (simp_all add: SchedulerState_new_def)

lemma may_change_Free [simp]: "slot_may_change owner now op k Free" "gpu_may_change owner now op k' Free"
  by (simp_all add: slot_may_change_def gpu_may_change_def)

lemma expired_may_change:
  assumes "\<And>l. expires_at_unix_ms l \<le> now \<Longrightarrow> lease_authority now op l"
  shows "expired_lease now s \<Longrightarrow> slot_may_change owner now op k s"
    and "expired_lease now g \<Longrightarrow> gpu_may_change owner now op k' g"
  using assms
  by (auto simp: expired_lease_def slot_may_change_def gpu_may_change_def split: ResourceState.splits)

lemma group_may_change:
  assumes "\<And>l. lease_group_id l = Some grp \<Longrightarrow> lease_authority now op l"
  shows "group_lease grp s \<Longrightarrow> slot_may_change owner now op k s"
    and "group_lease grp g \<Longrightarrow> gpu_may_change owner now op k' g"
  using assms
  by (auto simp: group_lease_def slot_may_change_def gpu_may_change_def split: ResourceState.splits)

lemma snapshot_okD:
  assumes "snapshot_ok s"
  shows "distinct (keys (slots s))" "distinct (keys (gpu_devices s))" "inj_on lease_id (all_leases s)"
  using assms by (simp_all add: snapshot_ok_def)

text \<open>Updating resources, over which the operation has authority, in a snapshot that evolved from the
  current one.\<close>

lemma update_step:
  assumes ok: "snapshot_ok s" and s1: "step_ok P Q L s s1"
    and us: "\<And>k st. (k, st) \<in> set us \<Longrightarrow> \<exists>x. lookup (slots s1) k = Some x \<and> P k x"
    and gs: "\<And>k st. (k, st) \<in> set gs \<Longrightarrow> \<exists>x. lookup (gpu_devices s1) k = Some x \<and> Q k x"
    and L: "\<And>k l. (k, Leased l) \<in> set us \<Longrightarrow> l \<in> L" "\<And>k l. (k, Leased l) \<in> set gs \<Longrightarrow> l \<in> L"
  obtains new_slots new_gpus where
    "set_states (build_index (slots s)) us (slots s1) = Some new_slots"
    "set_states (build_index (gpu_devices s)) gs (gpu_devices s1) = Some new_gpus"
    "step_ok P Q L s (s1\<lparr>slots := new_slots, gpu_devices := new_gpus\<rparr>)"
proof -
  note k = step_ok_keys [OF s1] and d = snapshot_okD [OF ok]
  have "\<exists>rs. set_states (build_index (slots s)) us (slots s1) = Some rs \<and> evolves P L (slots s1) rs"
    by (rule set_states_evolves) (use k d us L in auto)
  moreover have "\<exists>rs. set_states (build_index (gpu_devices s)) gs (gpu_devices s1) = Some rs
      \<and> evolves Q L (gpu_devices s1) rs"
    by (rule set_states_evolves) (use k d gs L in auto)
  ultimately obtain rs rs' where
      "set_states (build_index (slots s)) us (slots s1) = Some rs" "evolves P L (slots s1) rs"
      "set_states (build_index (gpu_devices s)) gs (gpu_devices s1) = Some rs'" "evolves Q L (gpu_devices s1) rs'"
    by blast
  moreover from this have "step_ok P Q L s1 (s1\<lparr>slots := rs, gpu_devices := rs'\<rparr>)"
    by (intro step_ok_update)
  ultimately show thesis
    using that step_ok_trans [OF s1] by blast
qed

lemma reserve_ok:
  assumes ok: "snapshot_ok s"
  shows "\<exists>att. reserve_resources now v sr gr (Some (SchedulerState_new s)) = Some att
    \<and> operation_ok owner now new_ids (ReserveResources v sr gr) s att"
proof (cases "(sr = [] \<and> gr = []) \<or> version s \<noteq> v")
  case True
  then show ?thesis
    by (auto simp: reserve_resources_def)
next
  case False
  let ?op = "ReserveResources v sr gr"
  let ?P = "slot_may_change owner now ?op" and ?Q = "gpu_may_change owner now ?op"
  define s1 where "s1 = fst (clear_expired_leases s now)"
  have s1: "step_ok ?P ?Q {} s s1"
    unfolding s1_def by (rule step_ok_clear_expired) (simp_all add: expired_may_change)
  note k = step_ok_keys [OF s1] and d = snapshot_okD [OF ok]
  obtain r1 where r1: "validate_slots (SchedulerState_new s) s1 (map request_slot_id sr) = Some r1"
      "r1 = None \<longrightarrow> (\<forall>k \<in> set (map request_slot_id sr). lookup (slots s1) k = Some Free)"
    using validate_requests [of "slots s1" "slots s"] k d unfolding validate_slots_def SchedulerState_new_simps by metis
  obtain r2 where r2: "validate_gpus (SchedulerState_new s) s1 (map request_device_id gr) = Some r2"
      "r2 = None \<longrightarrow> (\<forall>k \<in> set (map request_device_id gr). lookup (gpu_devices s1) k = Some Free)"
    using validate_requests [of "gpu_devices s1" "gpu_devices s"] k d unfolding validate_gpus_def SchedulerState_new_simps by metis
  show ?thesis
  proof (cases "r1 = None \<and> r2 = None")
    case True
    have us: "\<exists>x. lookup (slots s1) k = Some x \<and> ?P k x" if "(k, st) \<in> set (map (\<lambda>req. (request_slot_id req, slot_reservation req)) sr)" for k st
      using r1(2) True that by auto
    have gs: "\<exists>x. lookup (gpu_devices s1) k = Some x \<and> ?Q k x" if "(k, st) \<in> set (map (\<lambda>req. (request_device_id req, gpu_reservation req)) gr)" for k st
      using r2(2) True that by auto
    obtain ns ng where
        "set_states (build_index (slots s)) (map (\<lambda>req. (request_slot_id req, slot_reservation req)) sr) (slots s1) = Some ns"
        "set_states (build_index (gpu_devices s)) (map (\<lambda>req. (request_device_id req, gpu_reservation req)) gr) (gpu_devices s1) = Some ng"
        "step_ok ?P ?Q {} s (s1\<lparr>slots := ns, gpu_devices := ng\<rparr>)"
      by (rule update_step [OF ok s1 us gs]) (auto simp: slot_reservation_def gpu_reservation_def)
    then show ?thesis
      using False True r1(1) r2(1) attempt_ok_publish
      by (simp add: reserve_resources_def s1_def [symmetric])
  next
    case no: False
    then show ?thesis
      using False r1(1) r2(1)
      by (cases r1; cases r2) (simp_all add: reserve_resources_def s1_def [symmetric])
  qed
qed

lemma set_sorted_set [simp]: "set (sorted_set xs) = set xs"
  by (simp add: sorted_set_def)

lemma sorted_set_Nil_iff [simp]: "sorted_set xs = [] \<longleftrightarrow> xs = []"
  by (metis set_empty set_sorted_set)

lemma named_may_change:
  "names_slot op k \<Longrightarrow> slot_may_change owner now op k x" "names_gpu op k' \<Longrightarrow> gpu_may_change owner now op k' y"
  by (simp_all add: slot_may_change_def gpu_may_change_def split: ResourceState.splits)

lemma free_ok:
  assumes ok: "snapshot_ok s"
  shows "\<exists>att. free_resources now v ids gpus (Some (SchedulerState_new s)) = Some att
    \<and> operation_ok owner now new_ids (FreeResources v ids gpus) s att"
proof (cases "(ids = [] \<and> gpus = []) \<or> version s \<noteq> v")
  case True
  then show ?thesis
    by (cases "ids = [] \<and> gpus = []") (simp_all add: free_resources_def Let_def)
next
  case False
  let ?op = "FreeResources v ids gpus"
  let ?P = "slot_may_change owner now ?op" and ?Q = "gpu_may_change owner now ?op"
  define s1 where "s1 = fst (clear_expired_leases s now)"
  have s1: "step_ok ?P ?Q {} s s1"
    unfolding s1_def by (rule step_ok_clear_expired) (simp_all add: expired_may_change)
  note k = step_ok_keys [OF s1] and d = snapshot_okD [OF ok]
  obtain u1 n1 where r1: "check_held (build_index (slots s)) (slots s1) (sorted_set ids) = Some (u1, n1)"
      "u1 = [] \<longrightarrow> (\<forall>k \<in> set ids. \<exists>x. lookup (slots s1) k = Some x)"
    using check_held_spec [of "slots s1" "slots s" "sorted_set ids", unfolded set_sorted_set] k(1) d(1)
    by (metis (no_types, lifting))
  obtain u2 n2 where r2: "check_held (build_index (gpu_devices s)) (gpu_devices s1) (sorted_set gpus) = Some (u2, n2)"
      "u2 = [] \<longrightarrow> (\<forall>k \<in> set gpus. \<exists>x. lookup (gpu_devices s1) k = Some x)"
    using check_held_spec [of "gpu_devices s1" "gpu_devices s" "sorted_set gpus", unfolded set_sorted_set] k(2) d(2)
    by (metis (no_types, lifting))
  show ?thesis
  proof (cases "u1 = [] \<and> n1 = [] \<and> u2 = [] \<and> n2 = []")
    case True
    have us: "\<exists>x. lookup (slots s1) k = Some x \<and> ?P k x" if "(k, st) \<in> set (map (\<lambda>k. (k, Free)) (sorted_set ids))" for k st
      using r1(2) True that by (auto simp: named_may_change)
    have gs: "\<exists>x. lookup (gpu_devices s1) k = Some x \<and> ?Q k x" if "(k, st) \<in> set (map (\<lambda>k. (k, Free)) (sorted_set gpus))" for k st
      using r2(2) True that by (auto simp: named_may_change)
    obtain ns ng where
        "set_states (build_index (slots s)) (map (\<lambda>k. (k, Free)) (sorted_set ids)) (slots s1) = Some ns"
        "set_states (build_index (gpu_devices s)) (map (\<lambda>k. (k, Free)) (sorted_set gpus)) (gpu_devices s1) = Some ng"
        "step_ok ?P ?Q {} s (s1\<lparr>slots := ns, gpu_devices := ng\<rparr>)"
      by (rule update_step [OF ok s1 us gs]) auto
    then show ?thesis
      using False True r1(1) r2(1) attempt_ok_publish
      by (simp add: free_resources_def Let_def s1_def [symmetric])
  next
    case no: False
    then show ?thesis
      using False r1(1) r2(1)
      by (cases "u1 = []"; cases "n1 = []"; cases "u2 = []")
        (simp_all add: free_resources_def Let_def s1_def [symmetric])
  qed
qed

lemma reap_ok:
  "operation_ok owner now new_ids ReapExpired s (reap_expired_leases now (Some (SchedulerState_new s)))"
proof (cases "snd (clear_expired_leases s now) = []")
  case True
  then show ?thesis
    by (cases "clear_expired_leases s now") (simp add: reap_expired_leases_def)
next
  case False
  have "step_ok (slot_may_change owner now ReapExpired) (gpu_may_change owner now ReapExpired) {} s
      (fst (clear_expired_leases s now))"
    by (rule step_ok_clear_expired) (simp_all add: expired_may_change)
  then show ?thesis
    using False attempt_ok_publish
    by (cases "clear_expired_leases s now") (simp add: reap_expired_leases_def)
qed

section \<open>Commits\<close>

lemma leased_keys_lookup:
  assumes "distinct (keys rs)" "k \<in> set (leased_keys lid rs)"
  shows "\<exists>l \<in> leases_of rs. lookup rs k = Some (Leased l) \<and> lease_id l = lid"
proof -
  obtain r where "r \<in> set rs" "holds_lease lid (resource_state r)" "resource_key r = k"
    using assms(2) by (auto simp: leased_keys_def)
  moreover from this obtain l where "resource_state r = Leased l" "lease_id l = lid"
    by (cases "resource_state r") simp_all
  ultimately show ?thesis
    using assms(1) lookup_Some_iff [OF assms(1), of k "Leased l"] by (auto simp: leases_of_def)
qed

lemma allocation_lookup:
  assumes ok: "snapshot_ok s" and l: "l \<in> all_leases s"
  shows "k \<in> set (alloc_slot_ids (allocation s l)) \<Longrightarrow> lookup (slots s) k = Some (Leased l)"
    and "k' \<in> set (alloc_gpu_device_ids (allocation s l)) \<Longrightarrow> lookup (gpu_devices s) k' = Some (Leased l)"
proof -
  have uniq: "l' = l" if "l' \<in> all_leases s" "lease_id l' = lease_id l" for l'
    using snapshot_okD(3) [OF ok] l that by (simp add: inj_on_def)
  show "lookup (slots s) k = Some (Leased l)" if "k \<in> set (alloc_slot_ids (allocation s l))"
    using that leased_keys_lookup [OF snapshot_okD(1) [OF ok], of k "lease_id l"] uniq
    by (auto simp: allocation_def all_leases_def)
  show "lookup (gpu_devices s) k' = Some (Leased l)" if "k' \<in> set (alloc_gpu_device_ids (allocation s l))"
    using that leased_keys_lookup [OF snapshot_okD(2) [OF ok], of k' "lease_id l"] uniq
    by (auto simp: allocation_def all_leases_def)
qed

lemma allocation_fields [simp]:
  "alloc_coordinator_node_id (allocation s l) = coordinator_node_id l"
  "alloc_task_id (allocation s l) = lease_task_id l"
  "alloc_expires_at_unix_ms (allocation s l) = expires_at_unix_ms l"
  "alloc_group_id (allocation s l) = lease_group_id l"
  by (simp_all add: allocation_def new_allocation_def)

lemma lease_may_change:
  "lease_authority now op l \<Longrightarrow> slot_may_change owner now op k (Leased l)"
  "lease_authority now op l \<Longrightarrow> gpu_may_change owner now op k' (Leased l)"
  by (simp_all add: slot_may_change_def gpu_may_change_def)

lemma commit_ok:
  assumes ok: "snapshot_ok s"
  shows "\<exists>att. commit_task_lease owner now lid coordinator task ids gpus (Some (SchedulerState_new s)) = Some att
    \<and> operation_ok owner now new_ids (CommitLease lid coordinator task ids gpus) s att"
proof (cases "map_of (build_lease_index s) lid")
  case None
  then show ?thesis
    by (simp add: commit_task_lease_def)
next
  case (Some a)
  then obtain l where l: "l \<in> all_leases s" "lease_id l = lid" "a = allocation s l"
    using build_lease_index_iff [OF ok] by blast
  let ?op = "CommitLease lid coordinator task ids gpus"
  let ?P = "slot_may_change owner now ?op" and ?Q = "gpu_may_change owner now ?op"
  show ?thesis
  proof (cases "now < expires_at_unix_ms l \<and> lease_group_id l = None \<and> coordinator_node_id l = coordinator
      \<and> lease_task_id l = task \<and> alloc_slot_ids a = sort ids \<and> alloc_gpu_device_ids a = sort gpus")
    case True
    then have auth: "lease_authority now ?op l"
      using l(2) by simp
    have s1: "step_ok ?P ?Q {} s s"
      by simp
    have us: "\<exists>x. lookup (slots s) k = Some x \<and> ?P k x"
      if "(k, st) \<in> set (map (\<lambda>k. (k, committed_slot owner task None)) (alloc_slot_ids a))" for k st
      using that allocation_lookup(1) [OF ok l(1)] l(3) lease_may_change(1) [OF auth] by auto
    have gs: "\<exists>x. lookup (gpu_devices s) k = Some x \<and> ?Q k x"
      if "(k, st) \<in> set (map (\<lambda>k. (k, committed_gpu owner task None)) (alloc_gpu_device_ids a))" for k st
      using that allocation_lookup(2) [OF ok l(1)] l(3) lease_may_change(2) [OF auth] by auto
    obtain ns ng where
        "set_states (build_index (slots s)) (map (\<lambda>k. (k, committed_slot owner task None)) (alloc_slot_ids a)) (slots s) = Some ns"
        "set_states (build_index (gpu_devices s)) (map (\<lambda>k. (k, committed_gpu owner task None)) (alloc_gpu_device_ids a)) (gpu_devices s) = Some ng"
        "step_ok ?P ?Q {} s (s\<lparr>slots := ns, gpu_devices := ng\<rparr>)"
      by (rule update_step [OF ok s1 us gs]) (auto simp: committed_slot_def committed_gpu_def)
    then show ?thesis
      using True Some l(3) attempt_ok_publish by (simp add: commit_task_lease_def not_le)
  next
    case False
    then show ?thesis
      using Some l(3) by (auto simp: commit_task_lease_def split: option.splits)
  qed
qed

lemma set_states_append:
  "set_states index (us @ vs) rs = Option.bind (set_states index us rs) (set_states index vs)"
  by (induction us arbitrary: rs) (auto simp: bind_assoc split: Option.bind_splits)

lemma commit_group_leases_eq:
  "commit_group_leases owner st g allocs rs gs =
     Option.bind (set_states (slot_index st) (concat (map (\<lambda>a.
         map (\<lambda>k. (k, committed_slot owner (alloc_task_id a) (Some g))) (alloc_slot_ids a)) allocs)) rs) (\<lambda>ns.
     Option.bind (set_states (gpu_index st) (concat (map (\<lambda>a.
         map (\<lambda>k. (k, committed_gpu owner (alloc_task_id a) (Some g))) (alloc_gpu_device_ids a)) allocs)) gs) (\<lambda>ng.
     Some (ns, ng)))"
proof (induction allocs arbitrary: rs gs)
  case (Cons a allocs)
  show ?case
    unfolding commit_group_leases.simps Cons.IH concat.simps list.map set_states_append
    by (auto split: Option.bind_splits)
qed simp

lemma group_entries_SomeD:
  assumes "group_entries (SchedulerState_new s) prepared ids = Some entries" "(i, a, p) \<in> set entries"
  shows "i \<in> set ids \<and> map_of (build_lease_index s) i = Some a"
proof -
  have "those xs = Some ys \<Longrightarrow> y \<in> set ys \<Longrightarrow> Some y \<in> set xs" for xs :: "'x option list" and ys y
    by (induction xs arbitrary: ys) (auto split: option.splits)
  from this [OF assms(1) [unfolded group_entries_def] assms(2)] show ?thesis
    by (auto split: Option.bind_splits)
qed

lemma those_Some: "(\<And>x. x \<in> set xs \<Longrightarrow> x \<noteq> None) \<Longrightarrow> \<exists>ys. those xs = Some ys"
  by (induction xs) (auto split: option.splits)

lemma group_entries_exist:
  assumes "set ids \<subseteq> fst ` set (build_lease_index s)" "set ids = prepared_lease_id ` set prepared"
  shows "\<exists>entries. group_entries (SchedulerState_new s) prepared ids = Some entries"
  unfolding group_entries_def
proof (rule those_Some)
  fix x
  assume "x \<in> set (map (\<lambda>i. do {
       a \<leftarrow> map_of (lease_index (SchedulerState_new s)) i;
       p \<leftarrow> map_of (map (\<lambda>p. (prepared_lease_id p, p)) prepared) i;
       Some (i, a, p) }) ids)"
  then obtain i where i: "i \<in> set ids" and x: "x = do {
       a \<leftarrow> map_of (build_lease_index s) i;
       p \<leftarrow> map_of (map (\<lambda>p. (prepared_lease_id p, p)) prepared) i;
       Some (i, a, p) }"
    by auto
  have "map_of (build_lease_index s) i \<noteq> None"
    using assms(1) i by (auto simp: map_of_eq_None_iff)
  moreover have "map_of (map (\<lambda>p. (prepared_lease_id p, p)) prepared) i \<noteq> None"
    using assms(2) i by (auto simp: map_of_eq_None_iff image_image)
  ultimately show "x \<noteq> None"
    using x by auto
qed

lemma group_lease_ids_known: "set (group_lease_ids (SchedulerState_new s) g) \<subseteq> fst ` set (build_lease_index s)"
  by (auto simp: group_lease_ids_def)

lemma group_lease_ids_group:
  assumes "i \<in> set (group_lease_ids (SchedulerState_new s) g)" "map_of (build_lease_index s) i = Some a"
  shows "alloc_group_id a = Some g"
proof -
  obtain b where b: "(i, b) \<in> set (build_lease_index s)" "alloc_group_id b = Some g"
    using assms(1) by (auto simp: group_lease_ids_def)
  then show ?thesis
    using assms(2) map_of_is_SomeI [OF distinct_lease_index b(1)] by simp
qed

lemma commit_group_ok:
  assumes ok: "snapshot_ok s"
  shows "\<exists>att. commit_task_lease_group owner now g coordinator prepared (Some (SchedulerState_new s)) = Some att
    \<and> operation_ok owner now new_ids (CommitGroup g coordinator prepared) s att"
proof (cases "distinct (map prepared_lease_id prepared) \<and> group_lease_ids (SchedulerState_new s) g \<noteq> []
    \<and> group_lease_ids (SchedulerState_new s) g = sorted_set (map prepared_lease_id prepared)")
  case False
  then show ?thesis
    by (cases "distinct (map prepared_lease_id prepared)";
        cases "group_lease_ids (SchedulerState_new s) g = []")
      (simp_all add: commit_task_lease_group_def Let_def)
next
  case True
  let ?ids = "group_lease_ids (SchedulerState_new s) g" and ?op = "CommitGroup g coordinator prepared"
  let ?P = "slot_may_change owner now ?op" and ?Q = "gpu_may_change owner now ?op"
  have "set ?ids = prepared_lease_id ` set prepared"
    using True by simp
  then obtain entries where e: "group_entries (SchedulerState_new s) prepared ?ids = Some entries"
    using group_entries_exist [OF group_lease_ids_known] by blast
  let ?bad = "\<exists>(i, a, p) \<in> set entries. alloc_coordinator_node_id a \<noteq> coordinator"
  let ?late = "\<exists>(i, a, p) \<in> set entries. alloc_expires_at_unix_ms a \<le> now"
  show ?thesis
  proof (cases "?bad \<or> ?late \<or> List.find (\<lambda>(i, a, p). lease_differs p a) entries \<noteq> None")
    case bad: True
    then show ?thesis
      using True e by (cases ?bad; cases ?late) (auto simp: commit_task_lease_group_def Let_def)
  next
    case good: False
    have alloc: "\<exists>l \<in> all_leases s. a = allocation s l \<and> lease_authority now ?op l" if "(i, a, p) \<in> set entries" for i a p
    proof -
      have i: "i \<in> set ?ids" "map_of (build_lease_index s) i = Some a"
        using group_entries_SomeD [OF e that] by blast+
      then obtain l where "l \<in> all_leases s" "a = allocation s l"
        using build_lease_index_iff [OF ok] by blast
      moreover have "alloc_group_id a = Some g" "alloc_coordinator_node_id a = coordinator" "\<not> alloc_expires_at_unix_ms a \<le> now"
        using group_lease_ids_group [OF i] good that by auto
      ultimately show ?thesis
        by (auto simp: not_le)
    qed
    let ?allocs = "map (\<lambda>(i, a, p). a) entries"
    let ?us = "concat (map (\<lambda>a. map (\<lambda>k. (k, committed_slot owner (alloc_task_id a) (Some g))) (alloc_slot_ids a)) ?allocs)"
    let ?gs = "concat (map (\<lambda>a. map (\<lambda>k. (k, committed_gpu owner (alloc_task_id a) (Some g))) (alloc_gpu_device_ids a)) ?allocs)"
    have us: "\<exists>x. lookup (slots s) k = Some x \<and> ?P k x" if k: "(k, st) \<in> set ?us" for k st
    proof -
      obtain i a p where "(i, a, p) \<in> set entries" "k \<in> set (alloc_slot_ids a)"
        using k by auto
      then show ?thesis
        using alloc allocation_lookup(1) [OF ok] lease_may_change(1) by blast
    qed
    have gs: "\<exists>x. lookup (gpu_devices s) k = Some x \<and> ?Q k x" if k: "(k, st) \<in> set ?gs" for k st
    proof -
      obtain i a p where "(i, a, p) \<in> set entries" "k \<in> set (alloc_gpu_device_ids a)"
        using k by auto
      then show ?thesis
        using alloc allocation_lookup(2) [OF ok] lease_may_change(2) by blast
    qed
    have s1: "step_ok ?P ?Q {} s s"
      by simp
    obtain ns ng where r: "set_states (build_index (slots s)) ?us (slots s) = Some ns"
        "set_states (build_index (gpu_devices s)) ?gs (gpu_devices s) = Some ng"
        "step_ok ?P ?Q {} s (s\<lparr>slots := ns, gpu_devices := ng\<rparr>)"
      by (rule update_step [OF ok s1 us gs]) (auto simp: committed_slot_def committed_gpu_def)
    have "commit_group_leases owner (SchedulerState_new s) g ?allocs (slots s) (gpu_devices s) = Some (ns, ng)"
      unfolding commit_group_leases_eq using r(1,2) by simp
    moreover have "\<not> ?bad" "\<not> ?late" "List.find (\<lambda>(i, a, p). lease_differs p a) entries = None"
      using good by (blast, blast, blast)
    ultimately show ?thesis
      using True e attempt_ok_publish [OF r(3), of "\<lambda>s. s"]
      by (simp add: commit_task_lease_group_def Let_def)
  qed
qed

section \<open>Aborts\<close>

lemma release_held_ok:
  assumes "distinct (keys rs)" "keys rs0 = keys rs" "set ks \<subseteq> set (keys rs)"
    and "\<forall>l \<in> leases_of rs. lease_id l = lid \<longrightarrow> (\<forall>k. P k (Leased l))"
  shows "\<exists>rs' c. release_held (build_index rs0) lid ks rs changed = Some (rs', c) \<and> evolves P {} rs rs'"
  using assms
proof (induction ks arbitrary: rs changed)
  case (Cons k ks)
  obtain x where x: "lookup rs k = Some x"
    using Cons.prems(3) lookup_None_iff [of rs k] by auto
  have at: "state_at (build_index rs0) k rs = Some x"
    using state_at_lookup [OF Cons.prems(1,2)] x by simp
  show ?case
  proof (cases "holds_lease lid x")
    case True
    then obtain l where l: "x = Leased l" "lease_id l = lid"
      by (cases x) simp_all
    then have "l \<in> leases_of rs"
      using x lookup_Some_iff [OF Cons.prems(1), of k x] by (auto simp: leases_of_def)
    then have P: "P k x"
      using Cons.prems(4) l by blast
    have "\<exists>rs'. set_states (build_index rs0) [(k, Free)] rs = Some rs' \<and> evolves P {} rs rs'"
      by (rule set_states_evolves) (use Cons.prems x P in auto)
    then obtain rs1 where rs1: "set_state (build_index rs0) k Free rs = Some rs1" "evolves P {} rs rs1"
      by (auto split: Option.bind_splits)
    have "\<exists>rs' c. release_held (build_index rs0) lid ks rs1 True = Some (rs', c) \<and> evolves P {} rs1 rs'"
      using Cons.prems evolves_keys [OF rs1(2)] evolves_leases [OF rs1(2)] by (intro Cons.IH) auto
    then show ?thesis
      using at True rs1 evolves_trans [OF rs1(2)] by auto
  next
    case False
    have "\<exists>rs' c. release_held (build_index rs0) lid ks rs changed = Some (rs', c) \<and> evolves P {} rs rs'"
      using Cons.prems by (intro Cons.IH) auto
    then show ?thesis
      using at False by simp
  qed
qed simp

lemma allocation_keys:
  "set (alloc_slot_ids (allocation s l)) \<subseteq> set (keys (slots s))"
  "set (alloc_gpu_device_ids (allocation s l)) \<subseteq> set (keys (gpu_devices s))"
  by (auto simp: allocation_def leased_keys_def keys_def)

lemma release_leases_ok:
  assumes ok: "snapshot_ok s" and "keys (slots s) = keys rs" "keys (gpu_devices s) = keys gs"
    and "leases_of rs \<union> leases_of gs \<subseteq> all_leases s"
    and "\<And>lid a. (lid, a) \<in> set xs \<Longrightarrow> \<exists>l \<in> all_leases s. lease_id l = lid \<and> a = allocation s l
      \<and> (\<forall>k. P k (Leased l)) \<and> (\<forall>k. Q k (Leased l))"
  shows "\<exists>ns ng c. release_leases (SchedulerState_new s) xs rs gs changed = Some (ns, ng, c)
    \<and> evolves P {} rs ns \<and> evolves Q {} gs ng"
  using assms(2-)
proof (induction xs arbitrary: rs gs changed)
  case (Cons y xs)
  obtain lid a where y: "y = (lid, a)"
    by force
  obtain l where l: "l \<in> all_leases s" "lease_id l = lid" "a = allocation s l" "\<And>k. P k (Leased l)" "\<And>k. Q k (Leased l)"
    using Cons.prems(4) [of lid a] y by auto
  note d = snapshot_okD [OF ok]
  have uniq: "l' = l" if "l' \<in> leases_of rs \<union> leases_of gs" "lease_id l' = lid" for l'
    using Cons.prems(3) that l(1,2) d(3) unfolding inj_on_def by blast
  have ks: "set (alloc_slot_ids a) \<subseteq> set (keys rs)" "set (alloc_gpu_device_ids a) \<subseteq> set (keys gs)"
    using allocation_keys [of s l] Cons.prems(1,2) l(3) by auto
  have auth: "\<forall>l' \<in> leases_of rs. lease_id l' = lid \<longrightarrow> (\<forall>k. P k (Leased l'))"
    "\<forall>l' \<in> leases_of gs. lease_id l' = lid \<longrightarrow> (\<forall>k. Q k (Leased l'))"
    using uniq l(4,5) by blast+
  have "\<exists>rs' c. release_held (build_index (slots s)) lid (alloc_slot_ids a) rs changed = Some (rs', c) \<and> evolves P {} rs rs'"
    by (rule release_held_ok [OF _ _ _ auth(1)]) (use Cons.prems d ks in auto)
  then obtain rs1 c1 where rs1: "release_held (build_index (slots s)) lid (alloc_slot_ids a) rs changed = Some (rs1, c1)"
      "evolves P {} rs rs1"
    by blast
  have "\<exists>gs' c. release_held (build_index (gpu_devices s)) lid (alloc_gpu_device_ids a) gs c1 = Some (gs', c) \<and> evolves Q {} gs gs'"
    by (rule release_held_ok [OF _ _ _ auth(2)]) (use Cons.prems d ks in auto)
  then obtain gs1 c2 where gs1: "release_held (build_index (gpu_devices s)) lid (alloc_gpu_device_ids a) gs c1 = Some (gs1, c2)"
      "evolves Q {} gs gs1"
    by blast
  have "\<exists>ns ng c. release_leases (SchedulerState_new s) xs rs1 gs1 c2 = Some (ns, ng, c)
    \<and> evolves P {} rs1 ns \<and> evolves Q {} gs1 ng"
    by (rule Cons.IH) (use Cons.prems evolves_keys [OF rs1(2)] evolves_keys [OF gs1(2)]
      evolves_leases [OF rs1(2)] evolves_leases [OF gs1(2)] in auto)
  then show ?case
    using y rs1 gs1 evolves_trans [OF rs1(2)] evolves_trans [OF gs1(2)] by auto
qed simp

lemma abortable_leases:
  assumes ok: "snapshot_ok s" and m: "(lid, a) \<in> set (abortable (SchedulerState_new s) coordinator intents)"
  shows "\<exists>l \<in> all_leases s. lease_id l = lid \<and> a = allocation s l
    \<and> lease_authority now (AbortLeases coordinator intents) l"
proof -
  obtain i where i: "i \<in> set intents" "abort_lease_id i = lid" "map_of (build_lease_index s) lid = Some a"
      "alloc_coordinator_node_id a = coordinator" "alloc_task_id a = abort_task_id i"
    using m by (auto simp: abortable_def split: option.splits if_splits)
  then obtain l where "l \<in> all_leases s" "lease_id l = lid" "a = allocation s l"
    using build_lease_index_iff [OF ok] by blast
  then show ?thesis
    using i by (auto intro!: bexI [of _ l] image_eqI [of _ _ i])
qed

lemma abort_ok:
  assumes ok: "snapshot_ok s"
  shows "\<exists>att. abort_task_leases coordinator intents (Some (SchedulerState_new s)) = Some att
    \<and> operation_ok owner now new_ids (AbortLeases coordinator intents) s att"
proof (cases "intents = []")
  case True
  then show ?thesis
    by (simp add: abort_task_leases_def)
next
  case False
  let ?op = "AbortLeases coordinator intents"
  let ?P = "slot_may_change owner now ?op" and ?Q = "gpu_may_change owner now ?op"
  let ?xs = "abortable (SchedulerState_new s) coordinator intents"
  have xs: "\<exists>l \<in> all_leases s. lease_id l = lid \<and> a = allocation s l
      \<and> (\<forall>k. ?P k (Leased l)) \<and> (\<forall>k. ?Q k (Leased l))" if "(lid, a) \<in> set ?xs" for lid a
    using abortable_leases [OF ok that] lease_may_change by blast
  have sub: "leases_of (slots s) \<union> leases_of (gpu_devices s) \<subseteq> all_leases s"
    by (simp add: all_leases_def)
  have "\<exists>ns ng c. release_leases (SchedulerState_new s) ?xs (slots s) (gpu_devices s) False = Some (ns, ng, c)
      \<and> evolves ?P {} (slots s) ns \<and> evolves ?Q {} (gpu_devices s) ng"
    by (rule release_leases_ok [OF ok refl refl sub]) (rule xs)
  then obtain ns ng c where r: "release_leases (SchedulerState_new s) ?xs (slots s) (gpu_devices s) False = Some (ns, ng, c)"
      "evolves ?P {} (slots s) ns" "evolves ?Q {} (gpu_devices s) ng"
    by (elim exE conjE)
  have "step_ok ?P ?Q {} s (s\<lparr>slots := ns, gpu_devices := ng\<rparr>)"
    using r by (intro step_ok_update)
  then show ?thesis
    using False r(1) by (simp add: abort_task_leases_def attempt_ok_publish)
qed

lemma abort_group_ok:
  assumes ok: "snapshot_ok s"
  shows "\<exists>att. abort_task_lease_group owner coordinator g (Some (SchedulerState_new s)) = Some att
    \<and> operation_ok owner now new_ids (AbortGroup coordinator g) s att"
proof -
  let ?op = "AbortGroup coordinator g"
  let ?P = "slot_may_change owner now ?op" and ?Q = "gpu_may_change owner now ?op"
  let ?xs = "filter (\<lambda>(_, a). alloc_group_id a = Some g \<and> alloc_coordinator_node_id a = coordinator) (build_lease_index s)"
  have xs: "\<exists>l \<in> all_leases s. lease_id l = lid \<and> a = allocation s l
      \<and> (\<forall>k. ?P k (Leased l)) \<and> (\<forall>k. ?Q k (Leased l))" if m: "(lid, a) \<in> set ?xs" for lid a
  proof -
    have a: "(lid, a) \<in> set (build_lease_index s)" "alloc_group_id a = Some g" "alloc_coordinator_node_id a = coordinator"
      using m by simp_all
    have "map_of (build_lease_index s) lid = Some a"
      by (rule map_of_is_SomeI [OF distinct_lease_index a(1)])
    then obtain l where l: "l \<in> all_leases s" "lease_id l = lid" "a = allocation s l"
      using build_lease_index_iff [OF ok] by blast
    then have "lease_authority now ?op l"
      using a(2,3) by simp
    then show ?thesis
      using l lease_may_change by blast
  qed
  have sub: "leases_of (slots s) \<union> leases_of (gpu_devices s) \<subseteq> all_leases s"
    by (simp add: all_leases_def)
  have "\<exists>ns ng c. release_leases (SchedulerState_new s) ?xs (slots s) (gpu_devices s) False = Some (ns, ng, c)
      \<and> evolves ?P {} (slots s) ns \<and> evolves ?Q {} (gpu_devices s) ng"
    by (rule release_leases_ok [OF ok refl refl sub]) (rule xs)
  then obtain ns ng c where r: "release_leases (SchedulerState_new s) ?xs (slots s) (gpu_devices s) False = Some (ns, ng, c)"
      "evolves ?P {} (slots s) ns" "evolves ?Q {} (gpu_devices s) ng"
    by (elim exE conjE)
  have "evolves ?P {} ns (release_if (own_group_slot owner g) ns)"
    by (rule evolves_release_if) (auto simp: own_group_slot_def slot_may_change_def split: ResourceState.splits)
  moreover have "evolves ?Q {} ng (release_if (own_group_gpu owner g) ng)"
    by (rule evolves_release_if) (auto simp: own_group_gpu_def gpu_may_change_def split: ResourceState.splits)
  ultimately have "step_ok ?P ?Q {} s (s\<lparr>slots := release_if (own_group_slot owner g) ns,
      gpu_devices := release_if (own_group_gpu owner g) ng\<rparr>)"
    using evolves_trans [OF r(2)] evolves_trans [OF r(3)] by (intro step_ok_update)
  then show ?thesis
    using r(1) by (simp add: abort_task_lease_group_def Let_def attempt_ok_publish)
qed

section \<open>Preparation\<close>

lemma lease_exact_eq:
  "lease_exact st lease pairs rs gs =
     Option.bind (set_states (slot_index st) (concat (map (\<lambda>(i, n).
         map (\<lambda>k. (k, Leased (lease i n))) (sort (exact_slot_ids i))) pairs)) rs) (\<lambda>ns.
     Option.bind (set_states (gpu_index st) (concat (map (\<lambda>(i, n).
         map (\<lambda>k. (k, Leased (lease i n))) (sort (exact_gpu_device_ids i))) pairs)) gs) (\<lambda>ng.
     Some (ns, ng, map (prepared_exact lease) pairs)))"
proof (induction pairs arbitrary: rs gs)
  case (Cons p pairs)
  obtain i n where p: "p = (i, n)"
    by force
  show ?case
    unfolding p lease_exact.simps Cons.IH concat.simps list.map set_states_append Let_def prod.case
    by (auto simp: prepared_exact_def split: Option.bind_splits)
qed simp

lemma prepare_exact_ok:
  assumes ok: "snapshot_ok s"
  shows "\<exists>att. prepare_exact_task_lease_group now new_ids v coordinator g ttl_ms intents
      (Some (SchedulerState_new s)) = Some att
    \<and> operation_ok owner now new_ids (PrepareExact v coordinator g ttl_ms intents) s att"
proof (cases "intents = [] \<or> version s \<noteq> v")
  case True
  then show ?thesis
    by (cases "intents = []") (simp_all add: prepare_exact_task_lease_group_def)
next
  case False
  let ?op = "PrepareExact v coordinator g ttl_ms intents"
  let ?P = "slot_may_change owner now ?op" and ?Q = "gpu_may_change owner now ?op"
  let ?L = "new_leases now new_ids ?op"
  define s1 where "s1 = clear_prepared_lease_group (fst (clear_expired_leases s now)) g"
  have s1: "step_ok ?P ?Q ?L s s1"
    unfolding s1_def by (rule step_ok_trans [OF step_ok_clear_expired step_ok_clear_group])
      (auto intro: expired_may_change group_may_change)
  note k = step_ok_keys [OF s1] and d = snapshot_okD [OF ok]
  obtain r1 where r1: "validate_slots (SchedulerState_new s) s1 (concat (map exact_slot_ids intents)) = Some r1"
      "r1 = None \<longrightarrow> (\<forall>k \<in> set (concat (map exact_slot_ids intents)). lookup (slots s1) k = Some Free)"
    using validate_requests [of "slots s1" "slots s"] k d unfolding validate_slots_def SchedulerState_new_simps by metis
  obtain r2 where r2: "validate_gpus (SchedulerState_new s) s1 (concat (map exact_gpu_device_ids intents)) = Some r2"
      "r2 = None \<longrightarrow> (\<forall>k \<in> set (concat (map exact_gpu_device_ids intents)). lookup (gpu_devices s1) k = Some Free)"
    using validate_requests [of "gpu_devices s1" "gpu_devices s"] k d unfolding validate_gpus_def SchedulerState_new_simps by metis
  show ?thesis
  proof (cases "r1 = None \<and> r2 = None")
    case True
    let ?lease = "exact_lease coordinator g (saturating_add now ttl_ms)"
    let ?us = "concat (map (\<lambda>(i, n). map (\<lambda>k. (k, Leased (?lease i n))) (sort (exact_slot_ids i))) (zip intents new_ids))"
    let ?gs = "concat (map (\<lambda>(i, n). map (\<lambda>k. (k, Leased (?lease i n))) (sort (exact_gpu_device_ids i))) (zip intents new_ids))"
    have us: "\<exists>x. lookup (slots s1) k = Some x \<and> ?P k x" if "(k, st) \<in> set ?us" for k st
      using that r1(2) True set_zip_leftD by fastforce
    have gs: "\<exists>x. lookup (gpu_devices s1) k = Some x \<and> ?Q k x" if "(k, st) \<in> set ?gs" for k st
      using that r2(2) True set_zip_leftD by fastforce
    have us': "l \<in> ?L" if "(k, Leased l) \<in> set ?us" for k l
      using that by (auto intro!: image_eqI)
    have gs': "l \<in> ?L" if "(k, Leased l) \<in> set ?gs" for k l
      using that by (auto intro!: image_eqI)
    obtain ns ng where r: "set_states (build_index (slots s)) ?us (slots s1) = Some ns"
        "set_states (build_index (gpu_devices s)) ?gs (gpu_devices s1) = Some ng"
        "step_ok ?P ?Q ?L s (s1\<lparr>slots := ns, gpu_devices := ng\<rparr>)"
      by (rule update_step [OF ok s1 us gs us' gs'])
    have "lease_exact (SchedulerState_new s) ?lease (zip intents new_ids) (slots s1) (gpu_devices s1)
        = Some (ns, ng, map (prepared_exact ?lease) (zip intents new_ids))"
      unfolding lease_exact_eq using r(1,2) by simp
    then show ?thesis
      using False True r1(1) r2(1) attempt_ok_publish [OF r(3)]
      by (simp add: prepare_exact_task_lease_group_def s1_def [symmetric])
  next
    case no: False
    then show ?thesis
      using False r1(1) r2(1)
      by (cases r1; cases r2) (simp_all add: prepare_exact_task_lease_group_def s1_def [symmetric])
  qed
qed

lemma lease_at_simps [simp]:
  "lease_at l [] rs = rs"
  "lease_at l (i # is) rs = lease_at l is (rs[i := (rs ! i)\<lparr>resource_state := Leased l\<rparr>])"
  by (simp_all add: lease_at_def)

lemma lease_at_other:
  "length (lease_at l is rs) = length rs" "j \<notin> set is \<Longrightarrow> lease_at l is rs ! j = rs ! j"
  by (induction "is" arbitrary: rs) simp_all

lemma lease_one_evolves:
  assumes "distinct (keys rs)" "i < length rs" "resource_state (rs ! i) = Free" "\<And>k. P k Free" "l \<in> L"
  shows "evolves P L rs (rs[i := (rs ! i)\<lparr>resource_state := Leased l\<rparr>])"
proof -
  have i: "build_index rs (resource_key (rs ! i)) = Some i"
    using assms(1,2) by (simp add: build_index_Some_iff)
  have "lookup rs (resource_key (rs ! i)) = Some Free"
    using assms(2,3) lookup_Some_iff [OF assms(1)] nth_mem by blast
  then have "\<exists>rs'. set_states (build_index rs) [(resource_key (rs ! i), Leased l)] rs = Some rs' \<and> evolves P L rs rs'"
    by (intro set_states_evolves) (use assms in auto)
  then show ?thesis
    using i assms(2) by (simp add: set_state_def)
qed

lemma lease_at_evolves:
  assumes "distinct (keys rs)" "distinct is" "\<And>i. i \<in> set is \<Longrightarrow> i < length rs \<and> resource_state (rs ! i) = Free"
    "\<And>k. P k Free" "l \<in> L"
  shows "evolves P L rs (lease_at l is rs)"
  using assms(1-3)
proof (induction "is" arbitrary: rs)
  case (Cons i "is")
  let ?rs = "rs[i := (rs ! i)\<lparr>resource_state := Leased l\<rparr>]"
  have one: "evolves P L rs ?rs"
    using Cons.prems assms(4,5) by (intro lease_one_evolves) simp_all
  have "evolves P L ?rs (lease_at l is ?rs)"
  proof (rule Cons.IH)
    show "distinct (keys ?rs)"
      using Cons.prems(1) evolves_keys [OF one] by simp
    show "j < length ?rs \<and> resource_state (?rs ! j) = Free" if "j \<in> set is" for j
      using Cons.prems(2) Cons.prems(3) [of j] that by (cases "j = i") simp_all
  qed (use Cons.prems in simp)
  then show ?case
    using evolves_trans [OF one] by simp
qed simp

lemma good_free_lease:
  assumes "good_free rs free" "set is \<subseteq> set free"
  shows "good_free (lease_at l is rs) (remove_selected_indices free is)"
  using assms lease_at_other(2) [of _ "is" l rs]
  by (auto simp: good_free_def remove_selected_filter sorted_wrt_filter lease_at_other(1))

lemma lease_intents_ok:
  assumes "lease_intents lease pairs rs gs fs fg = Ok (ns, ng, leases)"
    "distinct (keys rs)" "distinct (keys gs)" "good_free rs fs" "good_free gs fg"
    "\<And>i n. (i, n) \<in> set pairs \<Longrightarrow> lease i n \<in> L" "\<And>k. P k Free" "\<And>k. Q k Free"
  shows "evolves P L rs ns \<and> evolves Q L gs ng"
  using assms(1-6)
proof (induction pairs arbitrary: rs gs fs fg leases)
  case (Cons p pairs)
  obtain i n where p: "p = (i, n)"
    by force
  obtain si gi leases' where si: "select_slot_indices rs fs (intent_cpu_millis i) (intent_memory_bytes i) = Some si"
      and gi: "select_gpu_indices fg (intent_gpu_count i) = Some gi"
      and rest: "lease_intents lease pairs (lease_at (lease i n) si rs) (lease_at (lease i n) gi gs)
        (remove_selected_indices fs si) (remove_selected_indices fg gi) = Ok (ns, ng, leases')"
    using Cons.prems(1) p by (auto simp: Let_def split: option.splits sum.splits)
  have sub: "set si \<subseteq> set fs" "distinct si" "set gi \<subseteq> set fg" "distinct gi"
    using select_slots_subset [OF si] select_gpu_Some [OF gi] Cons.prems(4,5) by (simp_all add: good_free_def)
  have mem: "lease i n \<in> L"
    using Cons.prems(6) p by simp
  have es: "evolves P L rs (lease_at (lease i n) si rs)"
    using sub Cons.prems(2,4) assms(7) mem by (intro lease_at_evolves) (auto simp: good_free_def)
  have eg: "evolves Q L gs (lease_at (lease i n) gi gs)"
    using sub Cons.prems(3,5) assms(8) mem by (intro lease_at_evolves) (auto simp: good_free_def)
  have "evolves P L (lease_at (lease i n) si rs) ns \<and> evolves Q L (lease_at (lease i n) gi gs) ng"
    by (rule Cons.IH [OF rest])
      (use Cons.prems evolves_keys [OF es] evolves_keys [OF eg] good_free_lease sub in auto)
  then show ?case
    using evolves_trans [OF es] evolves_trans [OF eg] by blast
qed simp

lemma good_free_indices: "good_free rs (free_indices rs)"
  by (simp add: good_free_def free_indices_def sorted_wrt_filter)

lemma prepare_ok:
  assumes ok: "snapshot_ok s"
  shows "operation_ok owner now new_ids (PrepareLeases coordinator g ttl_ms intents) s
    (prepare_task_leases_with_group now new_ids coordinator g ttl_ms intents (Some (SchedulerState_new s)))"
proof (cases "intents = []")
  case True
  then show ?thesis
    by (simp add: prepare_task_leases_with_group_def)
next
  case False
  let ?op = "PrepareLeases coordinator g ttl_ms intents"
  let ?P = "slot_may_change owner now ?op" and ?Q = "gpu_may_change owner now ?op"
  let ?L = "new_leases now new_ids ?op" and ?lease = "intent_lease coordinator g (saturating_add now ttl_ms)"
  define s0 where "s0 = fst (clear_expired_leases s now)"
  define s1 where "s1 = (case g of None \<Rightarrow> s0 | Some g \<Rightarrow> clear_prepared_lease_group s0 g)"
  have s0: "step_ok ?P ?Q ?L s s0"
    unfolding s0_def by (rule step_ok_clear_expired) (auto intro: expired_may_change)
  have s1: "step_ok ?P ?Q ?L s s1"
  proof (cases g)
    case (Some g')
    have "step_ok ?P ?Q ?L s0 s1"
      unfolding s1_def Some option.case by (rule step_ok_clear_group) (auto intro: group_may_change simp: Some)
    then show ?thesis
      by (rule step_ok_trans [OF s0])
  next
    case None
    then show ?thesis
      using s0 by (simp add: s1_def)
  qed
  note k = step_ok_keys [OF s1] and d = snapshot_okD [OF ok]
  let ?r = "lease_intents ?lease (zip intents new_ids) (slots s1) (gpu_devices s1)
    (free_indices (slots s1)) (free_indices (gpu_devices s1))"
  show ?thesis
  proof (cases ?r)
    case (Inl failed)
    then show ?thesis
      using False
      by (simp add: prepare_task_leases_with_group_def Let_def s0_def [symmetric] s1_def [symmetric])
  next
    case (Inr x)
    then obtain ns ng leases where r: "?r = Ok (ns, ng, leases)"
      by (cases x) auto
    have "evolves ?P ?L (slots s1) ns \<and> evolves ?Q ?L (gpu_devices s1) ng"
      by (rule lease_intents_ok [OF r]) (use k d good_free_indices in \<open>auto intro!: image_eqI\<close>)
    then have "step_ok ?P ?Q ?L s (s1\<lparr>slots := ns, gpu_devices := ng\<rparr>)"
      using step_ok_trans [OF s1] step_ok_update by blast
    then show ?thesis
      using False r
      by (simp add: prepare_task_leases_with_group_def Let_def s0_def [symmetric] s1_def [symmetric]
          attempt_ok_publish)
  qed
qed

section \<open>Any operation\<close>

lemma run_operation_ok:
  assumes ok: "snapshot_ok s"
  shows "\<exists>att. run_operation owner now new_ids op (Some (SchedulerState_new s)) = Some att
    \<and> operation_ok owner now new_ids op s att"
proof (cases op)
  case (ReserveResources v sr gr)
  then show ?thesis
    using reserve_ok [OF ok, where now = now and v = v and sr = sr and gr = gr and owner = owner and new_ids = new_ids] by (auto simp: attempt_ok_map)
next
  case (FreeResources v ids gpus)
  then show ?thesis
    using free_ok [OF ok, where now = now and v = v and ids = ids and gpus = gpus and owner = owner and new_ids = new_ids] by (auto simp: attempt_ok_map)
next
  case (PrepareExact v coordinator g ttl_ms intents)
  then show ?thesis
    using prepare_exact_ok [OF ok, where now = now and new_ids = new_ids and v = v and coordinator = coordinator and g = g and ttl_ms = ttl_ms and intents = intents and owner = owner]
    by (auto simp: attempt_ok_map)
next
  case (PrepareLeases coordinator g ttl_ms intents)
  then show ?thesis
    using prepare_ok [OF ok, where owner = owner and now = now and new_ids = new_ids and coordinator = coordinator and g = g and ttl_ms = ttl_ms and intents = intents] by (auto simp: attempt_ok_map)
next
  case (CommitLease lid coordinator task ids gpus)
  then show ?thesis
    using commit_ok [OF ok, where owner = owner and now = now and lid = lid and coordinator = coordinator and task = task and ids = ids and gpus = gpus and new_ids = new_ids] by (auto simp: attempt_ok_map)
next
  case (CommitGroup g coordinator prepared)
  then show ?thesis
    using commit_group_ok [OF ok, where owner = owner and now = now and g = g and coordinator = coordinator and prepared = prepared and new_ids = new_ids] by (auto simp: attempt_ok_map)
next
  case (AbortLeases coordinator intents)
  then show ?thesis
    using abort_ok [OF ok, where coordinator = coordinator and intents = intents and owner = owner and now = now and new_ids = new_ids] by (auto simp: attempt_ok_map)
next
  case (AbortGroup coordinator g)
  then show ?thesis
    using abort_group_ok [OF ok, where owner = owner and coordinator = coordinator and g = g and now = now and new_ids = new_ids] by (auto simp: attempt_ok_map)
next
  case ReapExpired
  then show ?thesis
    using reap_ok [where owner = owner and now = now and new_ids = new_ids and s = s] by (auto simp: attempt_ok_map)
qed

lemma zip_second_unique:
  assumes "distinct ys" "(x, y) \<in> set (zip xs ys)" "(x', y) \<in> set (zip xs ys)"
  shows "x = x'"
  using assms by (auto simp: in_set_zip distinct_conv_nth)

lemma new_leases_inj:
  assumes "distinct new_ids"
  shows "inj_on lease_id (new_leases now new_ids op)" "lease_id ` new_leases now new_ids op \<subseteq> set new_ids"
proof -
  have zip: "x = x'" if "(x, n) \<in> set (zip xs new_ids)" "(x', n) \<in> set (zip xs new_ids)" for x x' n and xs :: "'x list"
    using zip_second_unique [OF assms that] .
  show "inj_on lease_id (new_leases now new_ids op)"
    by (cases op) (auto simp: inj_on_def exact_lease_def intent_lease_def dest: zip)
  show "lease_id ` new_leases now new_ids op \<subseteq> set new_ids"
    by (cases op) (auto simp: exact_lease_def intent_lease_def dest: set_zip_rightD)
qed

lemma step_ok_snapshot_ok:
  assumes ok: "snapshot_ok s" and st: "step_ok P Q (new_leases now new_ids op) s s'" and fr: "fresh_ids new_ids s"
  shows "snapshot_ok s'"
proof -
  let ?L = "new_leases now new_ids op"
  have sub: "all_leases s' \<subseteq> all_leases s \<union> ?L"
  proof -
    have "evolves P ?L (slots s) (slots s')" "evolves Q ?L (gpu_devices s) (gpu_devices s')"
      using st by (simp_all add: step_ok_def)
    from evolves_leases [OF this(1)] evolves_leases [OF this(2)] show ?thesis
      by (auto simp: all_leases_def)
  qed
  have "inj_on lease_id (all_leases s \<union> ?L)"
    using snapshot_okD(3) [OF ok] new_leases_inj [of new_ids now op] fr
    unfolding inj_on_Un fresh_ids_def by blast
  then have "inj_on lease_id (all_leases s')"
    using sub by (rule inj_on_subset)
  then show ?thesis
    using snapshot_okD [OF ok] step_ok_keys [OF st] by (simp add: snapshot_ok_def)
qed

lemma version_less:
  fixes v :: u64
  assumes "v \<noteq> - 1"
  shows "v < v + 1"
proof -
  have "1 + v \<noteq> 0"
    using assms by (metis add.commute eq_neg_iff_add_eq_0)
  then show ?thesis
    using unatSuc [of v] by (simp add: word_less_nat_alt add.commute)
qed

lemma demo_snapshot_ok: "snapshot_ok demo_snapshot" "fresh_ids [] demo_snapshot"
  by (auto simp: snapshot_ok_def fresh_ids_def demo_snapshot_def demo_slot_def keys_def all_leases_def)

lemma demo_commit:
  "run_operation 9 50 [] (CommitLease 7 5 6 [2] []) (Some (SchedulerState_new demo_snapshot)) =
     Some (Publish demo_committed (Snapshot demo_committed))"
  by code_simp

section \<open>Properties\<close>

text \<open>
  C13. On a well-formed snapshot no round of any operation panics, and a snapshot that it publishes is
  well-formed again, has the next version, and has the same slots and GPU devices with the same
  capacities, provided the drawn lease identifiers are new.
\<close>

theorem operations_keep_snapshot:
  assumes "snapshot_ok s" "fresh_ids new_ids s"
  shows "\<exists>att. run_operation owner now new_ids op (Some (SchedulerState_new s)) = Some att
    \<and> (\<forall>s' r. att = Publish s' r \<longrightarrow>
        snapshot_ok s' \<and> version s' = version s + 1 \<and> version s < version s'
        \<and> same_resources (slots s) (slots s') \<and> same_resources (gpu_devices s) (gpu_devices s'))"
proof -
  obtain att where att: "run_operation owner now new_ids op (Some (SchedulerState_new s)) = Some att"
      "operation_ok owner now new_ids op s att"
    using run_operation_ok [OF assms(1)] by blast
  have "snapshot_ok s' \<and> version s' = version s + 1 \<and> version s < version s'
      \<and> same_resources (slots s) (slots s') \<and> same_resources (gpu_devices s) (gpu_devices s')"
    if p: "att = Publish s' r" for s' r
  proof -
    have v: "version s \<noteq> - 1" "version s' = version s + 1"
      and st: "step_ok (slot_may_change owner now op) (gpu_may_change owner now op) (new_leases now new_ids op)
        s (s'\<lparr>version := version s\<rparr>)"
      using att(2) p by simp_all
    have "snapshot_ok (s'\<lparr>version := version s\<rparr>)"
      by (rule step_ok_snapshot_ok [OF assms(1) st assms(2)])
    then have "snapshot_ok s'"
      by (simp add: snapshot_ok_def all_leases_def)
    moreover have "version s < version s + 1"
      by (rule version_less [OF v(1)])
    moreover have e: "evolves (slot_may_change owner now op) (new_leases now new_ids op) (slots s) (slots s')"
        "evolves (gpu_may_change owner now op) (new_leases now new_ids op) (gpu_devices s) (gpu_devices s')"
      using st by (simp_all add: step_ok_def)
    ultimately show ?thesis
      using v(2) evolves_same [OF e(1)] evolves_same [OF e(2)] by simp
  qed
  then show ?thesis
    using att(1) by blast
qed

theorem operations_keep_snapshot_witness:
  "run_operation 9 50 [] (CommitLease 7 5 6 [2] []) (Some (SchedulerState_new demo_snapshot)) =
     Some (Publish demo_committed (Snapshot demo_committed))
   \<and> snapshot_ok demo_committed \<and> version demo_committed = version demo_snapshot + 1"
  using operations_keep_snapshot [OF demo_snapshot_ok, where owner = 9 and now = 50
      and op = "CommitLease 7 5 6 [2] []"] demo_commit by auto

text \<open>
  C14. No operation takes a resource from a holder it has no authority over. A slot or device whose
  state changes was free; or it was leased, and the lease has expired, or the operation prepares
  the group of the lease again (whichever coordinator asks: a prepare does not compare it), or
  commits it in time for its own coordinator and its own task or group, or aborts it for its own
  coordinator; or it was reserved by this scheduler under a group that the operation aborts; or the
  operation frees it by name, whoever holds it.
\<close>

theorem no_double_allocation:
  assumes "snapshot_ok s"
    and "run_operation owner now new_ids op (Some (SchedulerState_new s)) = Some (Publish s' r)"
  shows "(\<forall>k old. lookup (slots s) k = Some old \<and> lookup (slots s') k \<noteq> Some old \<longrightarrow>
      slot_may_change owner now op k old)
    \<and> (\<forall>k old. lookup (gpu_devices s) k = Some old \<and> lookup (gpu_devices s') k \<noteq> Some old \<longrightarrow>
      gpu_may_change owner now op k old)"
proof -
  have "operation_ok owner now new_ids op s (Publish s' r)"
    using run_operation_ok [OF assms(1), where owner = owner and now = now and new_ids = new_ids and op = op] assms(2)
    by simp
  then have e: "evolves (slot_may_change owner now op) (new_leases now new_ids op) (slots s) (slots s')"
    "evolves (gpu_may_change owner now op) (new_leases now new_ids op) (gpu_devices s) (gpu_devices s')"
    by (simp_all add: step_ok_def)
  note d = snapshot_okD [OF assms(1)]
  show ?thesis
    using evolves_lookup [OF e(1) d(1)] evolves_lookup [OF e(2) d(2)] by blast
qed

theorem no_double_allocation_witness:
  "lookup (slots demo_snapshot) 2 = Some (Leased demo_lease)
   \<and> slot_may_change 9 50 (CommitLease 7 5 6 [2] []) 2 (Leased demo_lease)"
proof -
  have "lookup (slots demo_snapshot) 2 = Some (Leased demo_lease)"
    "lookup (slots demo_committed) 2 \<noteq> Some (Leased demo_lease)"
    by (simp_all add: lookup_def demo_snapshot_def demo_committed_def demo_slot_def)
  then show ?thesis
    using no_double_allocation [OF demo_snapshot_ok(1) demo_commit] by blast
qed

end
