(* ===== verification/Scheduler_Publication.thy ===== *)
theory Scheduler_Publication
  imports Scheduler_Safety
begin

text \<open>
  Concurrent callers of the scheduler. The state is behind one atomic pointer. A call loads it,
  computes a round, publishes by compare-and-swap or starts over, writes the snapshot to the store,
  and, if that fails, tries to swap its predecessor back in. These are the steps of
  \<open>src/scheduler/reservations.rs\<close> lines 41 to 204, and of every other operation; they interleave
  freely. A pointer is a number that is never reused, because a loaded \<open>Arc\<close> keeps its target
  alive. The clock and the drawn identifiers are arbitrary, the latter new for the snapshot.
\<close>

section \<open>Steps\<close>

type_synonym pointer = nat
type_synonym loaded = "(pointer \<times> SchedulerState) option"

datatype phase =
    Starting
  | Loaded loaded
  | Storing loaded pointer SchedulerSnapshot outcome
  | Done "(outcome, SchedulerError) result"
  | Panicked

text \<open>\<open>acknowledged\<close> is a record of the publications whose call returned them.\<close>

record world =
  cell :: loaded
  next_pointer :: pointer
  row :: "SchedulerSnapshot option"
  calls :: "nat \<Rightarrow> operation \<times> phase"
  acknowledged :: "SchedulerState set"

definition goto :: "nat \<Rightarrow> phase \<Rightarrow> world \<Rightarrow> world" where
  "goto c ph w = w\<lparr>calls := (calls w)(c := (fst (calls w c), ph))\<rparr>"

definition same_pointer :: "loaded \<Rightarrow> loaded \<Rightarrow> bool" where
  "same_pointer a b \<longleftrightarrow> map_option fst a = map_option fst b"

inductive world_step :: "uuid \<Rightarrow> world \<Rightarrow> world \<Rightarrow> bool" for owner :: uuid where
  load: "snd (calls w c) = Starting \<Longrightarrow> world_step owner w (goto c (Loaded (cell w)) w)"
| return: "\<lbrakk>snd (calls w c) = Loaded cur;
     run_operation owner now ids (fst (calls w c)) (map_option snd cur) = Some (Return r)\<rbrakk>
   \<Longrightarrow> world_step owner w (goto c (Done r) w)"
| panic: "\<lbrakk>snd (calls w c) = Loaded cur; cur = Some (p, st); fresh_ids ids (snapshot st);
     run_operation owner now ids (fst (calls w c)) (Some st) = None\<rbrakk>
   \<Longrightarrow> world_step owner w (goto c Panicked w)"
| publish: "\<lbrakk>snd (calls w c) = Loaded cur; cur = Some (p, st); fresh_ids ids (snapshot st);
     run_operation owner now ids (fst (calls w c)) (Some st) = Some (Publish s' a);
     same_pointer (cell w) cur\<rbrakk>
   \<Longrightarrow> world_step owner w (goto c (Storing cur (next_pointer w) s' a)
         (w\<lparr>cell := Some (next_pointer w, SchedulerState_new s'), next_pointer := Suc (next_pointer w)\<rparr>))"
| retry: "\<lbrakk>snd (calls w c) = Loaded cur; cur = Some (p, st); fresh_ids ids (snapshot st);
     run_operation owner now ids (fst (calls w c)) (Some st) = Some (Publish s' a);
     \<not> same_pointer (cell w) cur\<rbrakk>
   \<Longrightarrow> world_step owner w (goto c Starting w)"
| stored: "snd (calls w c) = Storing cur p s' a
   \<Longrightarrow> world_step owner w (goto c (Done (Ok a))
         (w\<lparr>row := Some s', acknowledged := insert (SchedulerState_new s') (acknowledged w)\<rparr>))"
| not_stored: "snd (calls w c) = Storing cur p s' a
   \<Longrightarrow> world_step owner w (goto c (Done (Err Store))
         (if map_option fst (cell w) = Some p then w\<lparr>cell := cur\<rparr> else w))"

definition started :: "world \<Rightarrow> bool" where
  "started w \<longleftrightarrow> (\<exists>s. snapshot_ok s \<and> cell w = Some (0, SchedulerState_new s) \<and> next_pointer w = 1)
     \<and> (\<forall>c. snd (calls w c) = Starting) \<and> acknowledged w = {}"

definition transaction :: "uuid \<Rightarrow> SchedulerState \<Rightarrow> SchedulerState \<Rightarrow> bool" where
  "transaction owner st st' \<longleftrightarrow> (\<exists>now ids op s' a. fresh_ids ids (snapshot st)
     \<and> run_operation owner now ids op (Some st) = Some (Publish s' a) \<and> st' = SchedulerState_new s')"

section \<open>The tree of publications\<close>

text \<open>
  Publications form a tree: every pointer has a state and, but for the first, the pointer it
  replaced. What a call waits to store, or has been acknowledged, is on the path to the current
  pointer.
\<close>

definition edges :: "(pointer \<rightharpoonup> pointer) \<Rightarrow> (pointer \<times> pointer) set" where
  "edges par = {(a, b). par b = Some a}"

definition state_ok :: "SchedulerState \<Rightarrow> bool" where
  "state_ok st \<longleftrightarrow> (\<exists>s. snapshot_ok s \<and> st = SchedulerState_new s)"

definition tree_ok :: "uuid \<Rightarrow> (pointer \<Rightarrow> SchedulerState) \<Rightarrow> (pointer \<rightharpoonup> pointer) \<Rightarrow> pointer \<Rightarrow> bool" where
  "tree_ok owner H par n \<longleftrightarrow> (\<forall>q < n. state_ok (H q)) \<and> (\<forall>q \<ge> n. par q = None)
     \<and> (\<forall>q q'. par q = Some q' \<longrightarrow> q' < q \<and> transaction owner (H q') (H q))"

definition phase_ok :: "(pointer \<Rightarrow> SchedulerState) \<Rightarrow> (pointer \<rightharpoonup> pointer) \<Rightarrow> pointer \<Rightarrow> pointer \<Rightarrow> phase \<Rightarrow> bool" where
  "phase_ok H par n p ph = (case ph of
     Loaded cur \<Rightarrow> (\<exists>q < n. cur = Some (q, H q))
   | Storing cur q s' a \<Rightarrow> q < n \<and> H q = SchedulerState_new s' \<and> (q, p) \<in> (edges par)\<^sup>*
       \<and> (\<exists>q'. par q = Some q' \<and> cur = Some (q', H q'))
   | Panicked \<Rightarrow> False
   | _ \<Rightarrow> True)"

definition storing :: "world \<Rightarrow> nat \<Rightarrow> pointer \<Rightarrow> bool" where
  "storing w c q \<longleftrightarrow> (\<exists>cur s' a. snd (calls w c) = Storing cur q s' a)"

definition world_ok :: "uuid \<Rightarrow> (pointer \<Rightarrow> SchedulerState) \<Rightarrow> (pointer \<rightharpoonup> pointer) \<Rightarrow> pointer \<Rightarrow> world \<Rightarrow> bool" where
  "world_ok owner H par p w \<longleftrightarrow> tree_ok owner H par (next_pointer w)
     \<and> p < next_pointer w \<and> cell w = Some (p, H p)
     \<and> (\<forall>c. phase_ok H par (next_pointer w) p (snd (calls w c)))
     \<and> (\<forall>c c' q. storing w c q \<and> storing w c' q \<longrightarrow> c = c')
     \<and> (\<forall>st \<in> acknowledged w. \<exists>q < next_pointer w. H q = st \<and> (q, p) \<in> (edges par)\<^sup>* \<and> (\<forall>c. \<not> storing w c q))"

section \<open>A store failure under a later publication\<close>

definition demo_reserve :: operation where
  "demo_reserve = ReserveResources 3
     [\<lparr>request_slot_id = 1, request_slot_owner = 77, request_slot_task_id = Some 8, request_slot_group_id = None\<rparr>] []"

definition demo_reserved :: SchedulerSnapshot where
  "demo_reserved = \<lparr>version = 4,
     slots = [(demo_slot 1 500 4)\<lparr>resource_state := Reserved
         \<lparr>slot_owner = 77, slot_task_id = Some 8, slot_group_id = None\<rparr>\<rparr>,
       (demo_slot 2 1000 8)\<lparr>resource_state := Leased demo_lease\<rparr>],
     gpu_devices = []\<rparr>"

definition demo_both :: SchedulerSnapshot where
  "demo_both = \<lparr>version = 5,
     slots = [(demo_slot 1 500 4)\<lparr>resource_state := Reserved
         \<lparr>slot_owner = 77, slot_task_id = Some 8, slot_group_id = None\<rparr>\<rparr>,
       (demo_slot 2 1000 8)\<lparr>resource_state := Reserved
         \<lparr>slot_owner = 9, slot_task_id = Some 6, slot_group_id = None\<rparr>\<rparr>],
     gpu_devices = []\<rparr>"

text \<open>Call 0 reserves slot 1, every other call commits the lease on slot 2.\<close>

definition demo_start :: world where
  "demo_start = \<lparr>cell = Some (0, SchedulerState_new demo_snapshot), next_pointer = 1, row = Some demo_snapshot,
     calls = (\<lambda>c. (if c = 0 then demo_reserve else CommitLease 7 5 6 [2] [], Starting)), acknowledged = {}\<rparr>"

definition demo_published :: world where
  "demo_published = \<lparr>cell = Some (2, SchedulerState_new demo_both), next_pointer = 3, row = Some demo_snapshot,
     calls = (\<lambda>c. if c = 0 then (demo_reserve, Storing (Some (0, SchedulerState_new demo_snapshot)) 1 demo_reserved
           (Snapshot demo_reserved))
       else (CommitLease 7 5 6 [2] [], if c = 1 then Storing (Some (1, SchedulerState_new demo_reserved)) 2 demo_both
           (Snapshot demo_both) else Starting)),
     acknowledged = {}\<rparr>"

definition demo_end :: world where
  "demo_end = \<lparr>cell = Some (2, SchedulerState_new demo_both), next_pointer = 3, row = Some demo_both,
     calls = (\<lambda>c. if c = 0 then (demo_reserve, Done (Err Store))
       else (CommitLease 7 5 6 [2] [], if c = 1 then Done (Ok (Snapshot demo_both)) else Starting)),
     acknowledged = {SchedulerState_new demo_both}\<rparr>"

section \<open>The invariant\<close>

lemma goto_simps [simp]:
  "cell (goto c ph w) = cell w" "next_pointer (goto c ph w) = next_pointer w"
  "acknowledged (goto c ph w) = acknowledged w" "row (goto c ph w) = row w"
  "snd (calls (goto c ph w) c') = (if c' = c then ph else snd (calls w c'))"
  by (simp_all add: goto_def)

lemma world_okD:
  assumes "world_ok owner H par p w"
  shows "tree_ok owner H par (next_pointer w)" "p < next_pointer w" "cell w = Some (p, H p)"
    "phase_ok H par (next_pointer w) p (snd (calls w c))"
    "storing w c q \<Longrightarrow> storing w c' q \<Longrightarrow> c = c'"
    "st \<in> acknowledged w \<Longrightarrow> \<exists>q < next_pointer w. H q = st \<and> (q, p) \<in> (edges par)\<^sup>* \<and> (\<forall>c. \<not> storing w c q)"
  using assms unfolding world_ok_def by blast+

text \<open>Steps that move only the phase of a call to one that stores nothing.\<close>

lemma world_ok_goto:
  assumes ok: "world_ok owner H par p w" and ph: "phase_ok H par (next_pointer w) p ph"
    and quiet: "\<And>cur q s' a. ph \<noteq> Storing cur q s' a"
  shows "world_ok owner H par p (goto c ph w)"
proof -
  have sub: "storing (goto c ph w) c' q \<Longrightarrow> storing w c' q" for c' q
    using quiet by (auto simp: storing_def split: if_splits)
  show ?thesis
    unfolding world_ok_def goto_simps
  proof (intro conjI allI ballI impI)
    show "phase_ok H par (next_pointer w) p (if c' = c then ph else snd (calls w c'))" for c'
      using ph world_okD(4) [OF ok] by simp
    show "c1 = c2" if "storing (goto c ph w) c1 q \<and> storing (goto c ph w) c2 q" for c1 c2 q
      using that sub world_okD(5) [OF ok] by blast
    show "\<exists>q < next_pointer w. H q = st \<and> (q, p) \<in> (edges par)\<^sup>* \<and> (\<forall>c'. \<not> storing (goto c ph w) c' q)"
      if "st \<in> acknowledged w" for st
      using world_okD(6) [OF ok that] sub by blast
  qed (use world_okD [OF ok] in auto)
qed

lemma state_ok_run:
  assumes "state_ok st" "fresh_ids ids (snapshot st)"
  shows "\<exists>att. run_operation owner now ids op (Some st) = Some att
    \<and> (\<forall>s' a. att = Publish s' a \<longrightarrow> snapshot_ok s')"
proof -
  obtain s where s: "snapshot_ok s" "st = SchedulerState_new s"
    using assms(1) by (auto simp: state_ok_def)
  obtain att where att: "run_operation owner now ids op (Some st) = Some att" "operation_ok owner now ids op s att"
    using run_operation_ok [OF s(1)] s(2) by blast
  have "snapshot_ok s'" if "att = Publish s' a" for s' a
  proof -
    have "step_ok (slot_may_change owner now op) (gpu_may_change owner now op) (new_leases now ids op)
        s (s'\<lparr>version := version s\<rparr>)"
      using att(2) that by simp
    from step_ok_snapshot_ok [OF s(1) this] show ?thesis
      using assms(2) s(2) by (simp add: snapshot_ok_def all_leases_def)
  qed
  then show ?thesis
    using att(1) by blast
qed

lemma edges_upd:
  assumes "par n = None" "(a, b) \<in> (edges par)\<^sup>*"
  shows "(a, b) \<in> (edges (par(n \<mapsto> p)))\<^sup>*"
  using assms(2) by (rule rtrancl_mono [THEN subsetD, rotated]) (use assms(1) in \<open>auto simp: edges_def\<close>)

lemma edges_snoc: "(a, p) \<in> (edges (par(n \<mapsto> p)))\<^sup>* \<Longrightarrow> (a, n) \<in> (edges (par(n \<mapsto> p)))\<^sup>*"
  by (erule rtrancl_into_rtrancl) (simp add: edges_def)

lemma edges_parent:
  assumes "(a, b) \<in> (edges par)\<^sup>*" "a \<noteq> b" "par b = Some q"
  shows "(a, q) \<in> (edges par)\<^sup>*"
  using assms by (cases rule: rtranclE) (auto simp: edges_def)

lemma phase_ok_extend:
  assumes "phase_ok H par n p ph"
    and path: "\<And>q. (q, p) \<in> (edges par)\<^sup>* \<Longrightarrow> (q, n) \<in> (edges (par(n \<mapsto> p)))\<^sup>*"
    and lt: "\<And>q q'. par q = Some q' \<Longrightarrow> q < n" "\<And>q q'. par q = Some q' \<Longrightarrow> q' < q \<and> T q q'"
  shows "phase_ok (H(n := st)) (par(n \<mapsto> p)) (Suc n) n ph"
proof (cases ph)
  case (Storing cur q s' a)
  then obtain q' where q: "q < n" "H q = SchedulerState_new s'" "(q, p) \<in> (edges par)\<^sup>*"
      "par q = Some q'" "cur = Some (q', H q')"
    using assms(1) by (auto simp: phase_ok_def)
  moreover have "q' < n"
    using lt [OF q(4)] by simp
  ultimately show ?thesis
    using path [OF q(3)] Storing by (simp add: phase_ok_def)
qed (use assms(1) in \<open>auto simp: phase_ok_def less_Suc_eq\<close>)

text \<open>A publication extends the tree.\<close>

lemma world_ok_publish:
  assumes ok: "world_ok owner H par p w" and c: "snd (calls w c) = Loaded (Some (p', st))"
    and run: "fresh_ids ids (snapshot st)" "run_operation owner now ids op (Some st) = Some (Publish s' a)"
    and same: "same_pointer (cell w) (Some (p', st))"
  shows "world_ok owner (H(next_pointer w := SchedulerState_new s')) (par(next_pointer w \<mapsto> p)) (next_pointer w)
    (goto c (Storing (Some (p', st)) (next_pointer w) s' a)
      (w\<lparr>cell := Some (next_pointer w, SchedulerState_new s'), next_pointer := Suc (next_pointer w)\<rparr>))"
    (is "world_ok owner ?H ?par ?n ?w")
proof -
  note d = world_okD [OF ok]
  have p': "p' = p" "st = H p"
    using same d(3) d(4) [of c] c by (auto simp: same_pointer_def phase_ok_def)
  have none: "par ?n = None" and tr: "\<And>q q'. par q = Some q' \<Longrightarrow> q' < q \<and> transaction owner (H q') (H q)"
      and st: "\<And>q. q < ?n \<Longrightarrow> state_ok (H q)"
    using d(1) by (auto simp: tree_ok_def)
  have lt: "q < ?n \<Longrightarrow> ?H q = H q" for q
    by simp
  have par_lt: "q < ?n" if "par q = Some q'" for q q'
    using that d(1) by (metis not_le option.distinct(1) tree_ok_def)
  have "snapshot_ok s'"
    using state_ok_run [OF st [OF d(2)], of ids owner now op] run p' by auto
  then have new: "state_ok (SchedulerState_new s')"
    by (auto simp: state_ok_def)
  have tx: "transaction owner (H p) (SchedulerState_new s')"
    unfolding transaction_def using run unfolding p' by blast
  have "?H q' = H q' \<and> ?H q = H q" if "par q = Some q'" for q q'
    using par_lt [OF that] tr [OF that] by simp
  then have tree: "tree_ok owner ?H ?par (Suc ?n)"
    unfolding tree_ok_def using d(1,2) new tx tr by (auto simp: tree_ok_def less_Suc_eq)
  have path: "(q, ?n) \<in> (edges ?par)\<^sup>*" if "(q, p) \<in> (edges par)\<^sup>*" for q
    by (rule edges_snoc [OF edges_upd [OF none that]])
  have old: "storing w c' q \<Longrightarrow> q < ?n" for c' q
    using d(4) [of c'] by (auto simp: storing_def phase_ok_def)
  have sub: "storing ?w c' q \<longleftrightarrow> (if c' = c then q = ?n else storing w c' q)" for c' q
    by (auto simp: storing_def)
  have phases: "phase_ok ?H ?par (Suc ?n) ?n (snd (calls ?w c'))" for c'
  proof (cases "c' = c")
    case True
    then show ?thesis
      using d(2) p' by (simp add: phase_ok_def)
  next
    case False
    then show ?thesis
      using phase_ok_extend [OF d(4) path par_lt tr] by simp
  qed
  have acked: "\<exists>q < Suc ?n. ?H q = st \<and> (q, ?n) \<in> (edges ?par)\<^sup>* \<and> (\<forall>c. \<not> storing ?w c q)"
    if "st \<in> acknowledged w" for st
  proof -
    obtain q where q: "q < ?n" "H q = st" "(q, p) \<in> (edges par)\<^sup>*" "\<forall>c. \<not> storing w c q"
      using d(6) [OF \<open>st \<in> acknowledged w\<close>] by blast
    show ?thesis
      by (rule exI [of _ q]) (use q path [OF q(3)] sub in auto)
  qed
  show ?thesis
    unfolding world_ok_def
  proof (intro conjI allI ballI impI)
    show "c1 = c2" if "storing ?w c1 q \<and> storing ?w c2 q" for c1 c2 q
      using that sub d(5) old by (metis less_irrefl)
  qed (use tree phases acked in auto)
qed

text \<open>A store that succeeds closes a publication, one that fails leaves it or takes it back.\<close>

lemma world_ok_stored:
  assumes ok: "world_ok owner H par p w" and c: "snd (calls w c) = Storing cur q s' a"
  shows "world_ok owner H par p (goto c (Done (Ok a))
    (w\<lparr>row := r, acknowledged := insert (SchedulerState_new s') (acknowledged w)\<rparr>))" (is "world_ok owner H par p ?w")
proof -
  note d = world_okD [OF ok]
  have q: "q < next_pointer w" "H q = SchedulerState_new s'" "(q, p) \<in> (edges par)\<^sup>*"
    using d(4) [of c] c by (auto simp: phase_ok_def)
  have sub: "storing ?w c' q' \<longleftrightarrow> c' \<noteq> c \<and> storing w c' q'" for c' q'
    by (auto simp: storing_def)
  have mine: "storing w c q"
    using c by (simp add: storing_def)
  have closed: "\<not> storing ?w c' q" for c'
    using sub d(5) [OF mine, of c'] by blast
  show ?thesis
    unfolding world_ok_def
  proof (intro conjI allI ballI impI)
    show "c1 = c2" if "storing ?w c1 q \<and> storing ?w c2 q" for c1 c2 q
      using that sub d(5) by blast
    show "phase_ok H par (next_pointer ?w) p (snd (calls ?w c'))" for c'
      using d(4) [of c'] by (simp add: phase_ok_def)
    show "\<exists>q < next_pointer ?w. H q = st \<and> (q, p) \<in> (edges par)\<^sup>* \<and> (\<forall>c. \<not> storing ?w c q)"
      if "st \<in> acknowledged ?w" for st
    proof (cases "st = SchedulerState_new s'")
      case True
      then show ?thesis using q closed by auto
    next
      case False
      then show ?thesis using that d(6) [of st] sub by auto
    qed
  qed (use d in auto)
qed

lemma world_ok_rollback:
  assumes ok: "world_ok owner H par q w" and c: "snd (calls w c) = Storing cur q s' a"
  shows "\<exists>p. world_ok owner H par p (goto c (Done (Err Store)) (w\<lparr>cell := cur\<rparr>))"
proof -
  let ?w = "goto c (Done (Err Store)) (w\<lparr>cell := cur\<rparr>)"
  note d = world_okD [OF ok]
  obtain p where p: "par q = Some p" "cur = Some (p, H p)" "q < next_pointer w"
    using d(4) [of c] c by (auto simp: phase_ok_def)
  have "p < q"
    using d(1) p(1) by (auto simp: tree_ok_def)
  have sub: "storing ?w c' q' \<longleftrightarrow> c' \<noteq> c \<and> storing w c' q'" for c' q'
    by (auto simp: storing_def)
  have mine: "storing w c q"
    using c by (simp add: storing_def)
  have up: "(q', p) \<in> (edges par)\<^sup>*" if "(q', q) \<in> (edges par)\<^sup>*" "q' \<noteq> q" for q'
    using edges_parent [OF that p(1)] .
  have other: "q' \<noteq> q" if "c' \<noteq> c" "snd (calls w c') = Storing cur' q' s a'" for c' q' cur' s a'
    using that d(5) [OF mine, of c'] by (auto simp: storing_def)
  have phases: "phase_ok H par (next_pointer w) p (snd (calls ?w c'))" for c'
    using d(4) [of c'] other [of c'] up by (auto simp: phase_ok_def split: phase.splits)
  have acked: "\<exists>q' < next_pointer w. H q' = st \<and> (q', p) \<in> (edges par)\<^sup>* \<and> (\<forall>c. \<not> storing ?w c q')"
    if "st \<in> acknowledged w" for st
  proof -
    obtain q' where q': "q' < next_pointer w" "H q' = st" "(q', q) \<in> (edges par)\<^sup>*" "\<forall>c. \<not> storing w c q'"
      using d(6) [OF \<open>st \<in> acknowledged w\<close>] by blast
    then have "q' \<noteq> q"
      using mine by blast
    then show ?thesis
      using q' up sub by blast
  qed
  have "world_ok owner H par p ?w"
    unfolding world_ok_def
  proof (intro conjI allI ballI impI)
    show "c1 = c2" if "storing ?w c1 q \<and> storing ?w c2 q" for c1 c2 q
      using that sub d(5) by blast
  qed (use d(1) p \<open>p < q\<close> phases acked in auto)
  then show ?thesis ..
qed

lemma world_step_ok:
  assumes "world_step owner w w'" "world_ok owner H par p w"
  shows "\<exists>H par p. world_ok owner H par p w'"
  using assms
proof (cases rule: world_step.cases)
  case (load c)
  have "world_ok owner H par p w'"
    unfolding load(1) using assms(2) world_okD(2,3) [OF assms(2)]
    by (intro world_ok_goto) (auto simp: phase_ok_def)
  then show ?thesis by blast
next
  case (return c cur now ids r)
  have "world_ok owner H par p w'"
    unfolding return(1) using assms(2) by (intro world_ok_goto) (auto simp: phase_ok_def)
  then show ?thesis by blast
next
  case (panic c cur q st ids now)
  have "state_ok st"
    using world_okD(1) [OF assms(2)] world_okD(4) [OF assms(2), of c] panic(2,3)
    by (auto simp: tree_ok_def phase_ok_def)
  then have False
    using state_ok_run [of st ids owner now "fst (calls w c)"] panic by auto
  then show ?thesis ..
next
  case (publish c cur q st ids now s' a)
  show ?thesis
    unfolding publish(1)
    using world_ok_publish [OF assms(2) publish(2)[unfolded publish(3)] publish(4,5) publish(6)[unfolded publish(3)]]
    unfolding publish(3) by (intro exI)
next
  case (retry c cur q st ids now s' a)
  have "world_ok owner H par p w'"
    unfolding retry(1) using assms(2) by (intro world_ok_goto) (auto simp: phase_ok_def)
  then show ?thesis by blast
next
  case (stored c cur q s' a)
  show ?thesis
    unfolding stored(1) using world_ok_stored [OF assms(2) stored(2)] by blast
next
  case (not_stored c cur q s' a)
  show ?thesis
  proof (cases "q = p")
    case True
    then have w': "w' = goto c (Done (Err Store)) (w\<lparr>cell := cur\<rparr>)"
      using not_stored(1) world_okD(3) [OF assms(2)] by simp
    obtain p' where "world_ok owner H par p' w'"
      using world_ok_rollback [OF assms(2) not_stored(2)[unfolded True]] unfolding w' ..
    then show ?thesis by blast
  next
    case False
    have "world_ok owner H par p (goto c (Done (Err Store)) w)"
      using assms(2) by (intro world_ok_goto) (auto simp: phase_ok_def)
    moreover have "w' = goto c (Done (Err Store)) w"
      using False not_stored(1) world_okD(3) [OF assms(2)] by simp
    ultimately show ?thesis by blast
  qed
qed

lemma started_world_ok:
  assumes "started w"
  shows "\<exists>H par p. world_ok owner H par p w"
proof -
  obtain s where s: "snapshot_ok s" "cell w = Some (0, SchedulerState_new s)" "next_pointer w = 1"
    using assms by (auto simp: started_def)
  have "world_ok owner (\<lambda>_. SchedulerState_new s) Map.empty 0 w"
    using assms s by (auto simp: started_def world_ok_def tree_ok_def phase_ok_def storing_def state_ok_def)
  then show ?thesis by blast
qed

lemma world_ok_reachable:
  assumes "started w0" "(world_step owner)\<^sup>*\<^sup>* w0 w"
  shows "\<exists>H par p. world_ok owner H par p w"
  using assms(2) by induction (use assms(1) started_world_ok world_step_ok in blast)+

lemma edges_transactions:
  assumes "(q, p) \<in> (edges par)\<^sup>*" "tree_ok owner H par n"
  shows "(transaction owner)\<^sup>*\<^sup>* (H q) (H p)"
  using assms(1)
proof induction
  case (step y z)
  then have "transaction owner (H y) (H z)"
    using assms(2) by (auto simp: edges_def tree_ok_def)
  with step.IH show ?case by (rule rtranclp.rtrancl_into_rtrancl)
qed simp

section \<open>A run with a failing store\<close>

lemma demo_rounds:
  "run_operation 9 50 [] demo_reserve (Some (SchedulerState_new demo_snapshot)) =
     Some (Publish demo_reserved (Snapshot demo_reserved))"
  "run_operation 9 50 [] (CommitLease 7 5 6 [2] []) (Some (SchedulerState_new demo_reserved)) =
     Some (Publish demo_both (Snapshot demo_both))"
  by code_simp+

lemma load_and_publish:
  assumes "snd (calls w c) = Starting" "cell w = Some (p, st)" "fresh_ids ids (snapshot st)"
    and "run_operation owner now ids (fst (calls w c)) (Some st) = Some (Publish s' a)"
  shows "(world_step owner)\<^sup>*\<^sup>* w (goto c (Storing (Some (p, st)) (next_pointer w) s' a)
    (w\<lparr>cell := Some (next_pointer w, SchedulerState_new s'), next_pointer := Suc (next_pointer w)\<rparr>))"
proof -
  let ?w = "goto c (Loaded (cell w)) w"
  have "world_step owner w ?w"
    by (rule world_step.load [OF assms(1)])
  moreover have "world_step owner ?w (goto c (Storing (Some (p, st)) (next_pointer ?w) s' a)
      (?w\<lparr>cell := Some (next_pointer ?w, SchedulerState_new s'), next_pointer := Suc (next_pointer ?w)\<rparr>))"
    using assms by (intro world_step.publish) (auto simp: goto_def same_pointer_def)
  ultimately have "(world_step owner)\<^sup>*\<^sup>* w (goto c (Storing (Some (p, st)) (next_pointer ?w) s' a)
      (?w\<lparr>cell := Some (next_pointer ?w, SchedulerState_new s'), next_pointer := Suc (next_pointer ?w)\<rparr>))"
    by (rule rtranclp.rtrancl_into_rtrancl [OF r_into_rtranclp])
  then show ?thesis
    by (simp add: goto_def)
qed

lemma demo_publishes: "(world_step 9)\<^sup>*\<^sup>* demo_start demo_published"
proof -
  let ?w = "goto 0 (Storing (Some (0, SchedulerState_new demo_snapshot)) 1 demo_reserved (Snapshot demo_reserved))
    (demo_start\<lparr>cell := Some (1, SchedulerState_new demo_reserved), next_pointer := 2\<rparr>)"
  have "(world_step 9)\<^sup>*\<^sup>* demo_start ?w"
    using load_and_publish [of demo_start 0 0 "SchedulerState_new demo_snapshot" "[]" 9 50] demo_rounds(1)
    by (simp add: demo_start_def fresh_ids_def numeral_2_eq_2)
  moreover have "(world_step 9)\<^sup>*\<^sup>* ?w demo_published"
  proof -
    have "demo_published = goto 1 (Storing (Some (1, SchedulerState_new demo_reserved)) (next_pointer ?w) demo_both
          (Snapshot demo_both)) (?w\<lparr>cell := Some (next_pointer ?w, SchedulerState_new demo_both),
            next_pointer := Suc (next_pointer ?w)\<rparr>)"
      by (auto simp: demo_start_def demo_published_def goto_def)
    then show ?thesis
      using load_and_publish [of ?w 1 1 "SchedulerState_new demo_reserved" "[]" 9 50 demo_both "Snapshot demo_both"]
        demo_rounds(2) by (simp add: demo_start_def goto_def fresh_ids_def del: run_operation.simps)
  qed
  ultimately show ?thesis
    by (rule rtranclp_trans)
qed

lemma demo_stores: "(world_step 9)\<^sup>*\<^sup>* demo_published demo_end"
proof -
  let ?w = "goto 0 (Done (Err Store)) demo_published"
  have "world_step 9 demo_published ?w"
    using world_step.not_stored [of demo_published 0] by (simp add: demo_published_def)
  moreover have "world_step 9 ?w demo_end"
  proof -
    have "demo_end = goto 1 (Done (Ok (Snapshot demo_both))) (?w\<lparr>row := Some demo_both,
        acknowledged := insert (SchedulerState_new demo_both) (acknowledged ?w)\<rparr>)"
      by (auto simp: demo_published_def demo_end_def goto_def)
    then show ?thesis
      using world_step.stored [of ?w 1 "Some (1, SchedulerState_new demo_reserved)" 2 demo_both "Snapshot demo_both" 9]
      by (simp add: demo_published_def goto_def)
  qed
  ultimately show ?thesis
    by (rule rtranclp.rtrancl_into_rtrancl [OF r_into_rtranclp])
qed

lemma demo_started: "started demo_start"
  using demo_snapshot_ok(1) by (auto simp: started_def demo_start_def)

section \<open>Properties\<close>

text \<open>
  C15. However the loads, compare-and-swaps, store writes and rollbacks of concurrent calls interleave,
  the published state is well-formed, no call panics, and every change whose call reported success is
  still part of the published state: that state is reached from the acknowledged one by complete
  transactions.
\<close>

theorem acknowledged_is_kept:
  assumes "started w0" "(world_step owner)\<^sup>*\<^sup>* w0 w"
  shows "\<exists>p s. snapshot_ok s \<and> cell w = Some (p, SchedulerState_new s)
    \<and> (\<forall>c. snd (calls w c) \<noteq> Panicked)
    \<and> (\<forall>st \<in> acknowledged w. (transaction owner)\<^sup>*\<^sup>* st (SchedulerState_new s))"
proof -
  obtain H par p where ok: "world_ok owner H par p w"
    using world_ok_reachable [OF assms] by blast
  note d = world_okD [OF ok]
  obtain s where s: "snapshot_ok s" "H p = SchedulerState_new s"
    using d(1,2) by (auto simp: tree_ok_def state_ok_def)
  have "snd (calls w c) \<noteq> Panicked" for c
    using d(4) [of c] by (auto simp: phase_ok_def)
  moreover have "(transaction owner)\<^sup>*\<^sup>* st (SchedulerState_new s)" if "st \<in> acknowledged w" for st
    using d(6) [OF that] edges_transactions [OF _ d(1)] s(2) by metis
  ultimately show ?thesis
    using s d(3) by auto
qed

theorem acknowledged_is_kept_witness:
  "acknowledged demo_end = {SchedulerState_new demo_both}
   \<and> (\<exists>p s. snapshot_ok s \<and> cell demo_end = Some (p, SchedulerState_new s)
        \<and> (transaction 9)\<^sup>*\<^sup>* (SchedulerState_new demo_both) (SchedulerState_new s))"
proof -
  have "acknowledged demo_end = {SchedulerState_new demo_both}"
    by (simp add: demo_end_def)
  with acknowledged_is_kept [OF demo_started rtranclp_trans [OF demo_publishes demo_stores]] show ?thesis
    by blast
qed

text \<open>
  C16. A failed store write is not always undone. The rollback swaps the predecessor back only if the
  cell still holds the failed publication; when another call has published on top of it, the caller
  is told that its reservation failed while the slot stays reserved for it, in memory and in the
  stored snapshot.
\<close>

theorem failed_reservation_stays:
  "\<exists>w0 w p st row'. started w0 \<and> (world_step 9)\<^sup>*\<^sup>* w0 w
     \<and> lookup (slots (snapshot (snd (the (cell w0))))) 1 = Some Free
     \<and> calls w 0 = (demo_reserve, Done (Err Store))
     \<and> (\<forall>c. snd (calls w c) \<in> {Starting, Done (Err Store), Done (Ok (Snapshot demo_both))})
     \<and> cell w = Some (p, st) \<and> row w = Some row'
     \<and> lookup (slots (snapshot st)) 1 =
          Some (Reserved \<lparr>slot_owner = 77, slot_task_id = Some 8, slot_group_id = None\<rparr>)
     \<and> lookup (slots row') 1 =
          Some (Reserved \<lparr>slot_owner = 77, slot_task_id = Some 8, slot_group_id = None\<rparr>)"
proof -
  have "lookup (slots demo_snapshot) 1 = Some Free" "lookup (slots demo_both) 1 =
      Some (Reserved \<lparr>slot_owner = 77, slot_task_id = Some 8, slot_group_id = None\<rparr>)"
    by (simp_all add: lookup_def demo_snapshot_def demo_both_def demo_slot_def)
  then show ?thesis
    using demo_started rtranclp_trans [OF demo_publishes demo_stores]
    by (intro exI [of _ demo_start] exI [of _ demo_end] exI [of _ 2] exI [of _ "SchedulerState_new demo_both"]
        exI [of _ demo_both]) (simp add: demo_start_def demo_end_def SchedulerState_new_def)
qed

end
