(* ===== verification/Scheduler_Resources.thy ===== *)
theory Scheduler_Resources
  imports Scheduler_Transactions Rust_Text
begin

text \<open>
  How a scheduler gets its resources (\<open>src/scheduler/resources.rs\<close>): slots cut from what the node
  has left after its reserve, GPU devices from the inventory and the operator's overrides
  (\<open>src/gpu.rs\<close>), and the two operations that publish them. The overrides are an argument, as
  parsed from the environment. The result of the store is an argument of
  \<open>initialize_with_node\<close>.
\<close>

section \<open>Specifications\<close>

record ('k, 'i) Spec =
  spec_key :: 'k
  spec_info :: 'i

type_synonym SlotSpec = "(SlotId, SlotCapacity) Spec"
type_synonym GpuDeviceSpec = "(GpuDeviceId, GpuDeviceInfo) Spec"

text \<open>\<open>Vec::dedup_by\<close>: of consecutive entries with one key the first stays.\<close>

fun dedup_by_key :: "('a \<Rightarrow> 'k) \<Rightarrow> 'a list \<Rightarrow> 'a list" where
  "dedup_by_key f (x # y # ys) =
     (if f x = f y then dedup_by_key f (x # ys) else x # dedup_by_key f (y # ys))"
| "dedup_by_key f xs = xs"

definition materialize :: "('k::linorder, 'i) Spec list \<Rightarrow> ('k, 'i, 'r) Resource list" where
  "materialize specs = map (\<lambda>spec. \<lparr>resource_key = spec_key spec, resource_info = spec_info spec,
     resource_state = Free\<rparr>) (dedup_by_key spec_key (sort_key spec_key specs))"

section \<open>Slots\<close>

record RuntimeSchedulerConfig =
  reserved_cpu_millis :: u64
  reserved_memory_bytes :: u64
  target_slot_cpu_millis :: u64
  target_slot_memory_bytes :: u64
  max_slots :: u64

definition SCHEDULER_MAX_SLOT_COUNT :: u64 where
  "SCHEDULER_MAX_SLOT_COUNT = 65536"

text \<open>What is read of the node: the fields of a device that go into its specification.\<close>

record InventoryGpu =
  inv_index :: u32
  inv_uuid :: "string option"
  inv_pci_bus_id :: "string option"
  inv_name :: string
  inv_memory_total_bytes :: u64

record NodeInfo =
  num_logical_cpus :: "32 word option"
  mem_total :: "u64 option"
  gpu_info :: "InventoryGpu list option"

definition allocatable_cpu_millis :: "NodeInfo \<Rightarrow> RuntimeSchedulerConfig \<Rightarrow> u64" where
  "allocatable_cpu_millis info config =
     (let logical_cpus = (case num_logical_cpus info of None \<Rightarrow> 1 | Some n \<Rightarrow> word_of_int (max 1 (sint n)))
      in saturating_sub (saturating_mul logical_cpus 1000) (reserved_cpu_millis config))"

definition allocatable_memory :: "NodeInfo \<Rightarrow> RuntimeSchedulerConfig \<Rightarrow> u64" where
  "allocatable_memory info config =
     saturating_sub (case mem_total info of None \<Rightarrow> 0 | Some n \<Rightarrow> n) (reserved_memory_bytes config)"

definition div_ceil :: "u64 \<Rightarrow> u64 \<Rightarrow> u64" where
  "div_ceil a b = (if a mod b = 0 then a div b else a div b + 1)"

definition wanted_slots :: "u64 \<Rightarrow> u64 \<Rightarrow> u64" where
  "wanted_slots allocatable target = (if 0 < allocatable then max (div_ceil allocatable (max target 1)) 1 else 0)"

definition slot_count :: "u64 \<Rightarrow> u64 \<Rightarrow> RuntimeSchedulerConfig \<Rightarrow> u64" where
  "slot_count cpu memory config =
     (let wanted = max (wanted_slots cpu (target_slot_cpu_millis config))
            (wanted_slots memory (target_slot_memory_bytes config));
          n = min wanted (min (max (max_slots config) 1) SCHEDULER_MAX_SLOT_COUNT);
          n = (if 0 < cpu then min n cpu else n)
      in if 0 < memory then min n memory else n)"

definition split_even_capacity :: "u64 \<Rightarrow> u64 \<Rightarrow> u64 \<Rightarrow> u64" where
  "split_even_capacity amount slot_idx parts =
     (if amount = 0 \<or> parts = 0 then 0
      else if slot_idx < amount mod parts then saturating_add (amount div parts) 1
      else amount div parts)"

definition derive_slot_specs :: "NodeInfo \<Rightarrow> RuntimeSchedulerConfig \<Rightarrow> SlotSpec list" where
  "derive_slot_specs info config =
     (let cpu = allocatable_cpu_millis info config; memory = allocatable_memory info config;
          n = slot_count cpu memory config
      in map (\<lambda>i. \<lparr>spec_key = of_nat i, spec_info = \<lparr>cpu_millis = split_even_capacity cpu (of_nat i) n,
           memory_bytes = split_even_capacity memory (of_nat i) n, gpu_count = 0\<rparr>\<rparr>) [0..<unat n])"

section \<open>GPU devices\<close>

datatype GpuDeviceSelector = Uuid string | PciBusId string | Index u32

datatype GpuDeviceOverrideAction = Disable | OverrideId string

record GpuDeviceOverride =
  selector :: GpuDeviceSelector
  override_action :: GpuDeviceOverrideAction

definition to_ascii_lowercase :: "char \<Rightarrow> char" where
  "to_ascii_lowercase c = (let n = of_char c :: nat in if 65 \<le> n \<and> n \<le> 90 then char_of (n + 32) else c)"

definition eq_ignore_ascii_case :: "string \<Rightarrow> string \<Rightarrow> bool" where
  "eq_ignore_ascii_case a b \<longleftrightarrow> map to_ascii_lowercase a = map to_ascii_lowercase b"

fun selector_matches_device :: "GpuDeviceSelector \<Rightarrow> string option \<Rightarrow> string option \<Rightarrow> u32 \<Rightarrow> bool" where
  "selector_matches_device (Uuid v) uuid pci index =
     (case uuid of None \<Rightarrow> False | Some candidate \<Rightarrow> eq_ignore_ascii_case candidate v)"
| "selector_matches_device (PciBusId v) uuid pci index =
     (case pci of None \<Rightarrow> False | Some candidate \<Rightarrow> eq_ignore_ascii_case candidate v)"
| "selector_matches_device (Index v) uuid pci index \<longleftrightarrow> v = index"

definition gpu_device_override_for ::
    "string option \<Rightarrow> string option \<Rightarrow> u32 \<Rightarrow> GpuDeviceOverride list \<Rightarrow> GpuDeviceOverride option" where
  "gpu_device_override_for uuid pci index overrides =
     find (\<lambda>entry. selector_matches_device (selector entry) uuid pci index) overrides"

text \<open>The trimmed UUID of a device, and the identifier it is scheduled under, if any.\<close>

definition trimmed_uuid :: "InventoryGpu \<Rightarrow> string option" where
  "trimmed_uuid device = (case inv_uuid device of None \<Rightarrow> None
     | Some u \<Rightarrow> if trim u = [] then None else Some (trim u))"

definition gpu_device_id :: "GpuDeviceOverride list \<Rightarrow> InventoryGpu \<Rightarrow> GpuDeviceId option" where
  "gpu_device_id overrides device =
     (case gpu_device_override_for (trimmed_uuid device) (inv_pci_bus_id device) (inv_index device) overrides of
        None \<Rightarrow> trimmed_uuid device
      | Some entry \<Rightarrow> (case override_action entry of
            Disable \<Rightarrow> None
          | OverrideId i \<Rightarrow> if trim i = [] then None else Some i))"

fun collect_gpu_specs :: "GpuDeviceOverride list \<Rightarrow> GpuDeviceId set \<Rightarrow> InventoryGpu list \<Rightarrow> GpuDeviceSpec list" where
  "collect_gpu_specs overrides seen [] = []"
| "collect_gpu_specs overrides seen (device # devices) =
     (case gpu_device_id overrides device of
        None \<Rightarrow> collect_gpu_specs overrides seen devices
      | Some i \<Rightarrow>
          if i \<in> seen then collect_gpu_specs overrides seen devices
          else \<lparr>spec_key = i, spec_info = \<lparr>gpu_index_number = inv_index device, gpu_uuid = trimmed_uuid device,
              pci_bus_id = inv_pci_bus_id device, gpu_name = inv_name device,
              memory_total_bytes = inv_memory_total_bytes device\<rparr>\<rparr>
            # collect_gpu_specs overrides (insert i seen) devices)"

definition derive_gpu_specs :: "GpuDeviceOverride list \<Rightarrow> NodeInfo \<Rightarrow> GpuDeviceSpec list" where
  "derive_gpu_specs overrides info = (case gpu_info info of
     None \<Rightarrow> []
   | Some devices \<Rightarrow> sort_key spec_key (collect_gpu_specs overrides {} devices))"

section \<open>Initialisation\<close>

definition init_resources ::
    "SlotSpec list \<Rightarrow> GpuDeviceSpec list \<Rightarrow> SchedulerState option \<Rightarrow> SchedulerSnapshot attempt" where
  "init_resources slot_specs gpu_specs state = (case state of
     Some st \<Rightarrow> Return (Err (AlreadyInitialized (snapshot st)))
   | None \<Rightarrow> (let s = \<lparr>version = 0, slots = materialize slot_specs, gpu_devices = materialize gpu_specs\<rparr>
       in Publish s s))"

definition populate_gpu_devices ::
    "u64 \<Rightarrow> GpuDeviceSpec list \<Rightarrow> SchedulerState option \<Rightarrow> SchedulerSnapshot attempt" where
  "populate_gpu_devices expected_version gpu_specs state =
     (if gpu_specs = [] then Return (read_snapshot state)
      else case state of
        None \<Rightarrow> Return (Err Uninitialized)
      | Some st \<Rightarrow>
          if version (snapshot st) \<noteq> expected_version
          then Return (Err (SnapshotMismatch expected_version (version (snapshot st)) (snapshot st)))
          else if gpu_devices (snapshot st) \<noteq> [] then Return (Ok (snapshot st))
          else publish ((snapshot st)\<lparr>gpu_devices := materialize gpu_specs\<rparr>) (\<lambda>s. s))"

text \<open>A round whose compare-and-swap succeeds, followed by the store.\<close>

definition settle :: "bool \<Rightarrow> SchedulerState option \<Rightarrow> 'a attempt \<Rightarrow>
    SchedulerState option \<times> ('a, SchedulerError) result" where
  "settle stored state att = (case att of
     Return r \<Rightarrow> (state, r)
   | Publish s r \<Rightarrow> if stored then (Some (SchedulerState_new s), Ok r) else (state, Err Store))"

definition initialize_with_node ::
    "NodeInfo \<Rightarrow> RuntimeSchedulerConfig \<Rightarrow> GpuDeviceOverride list \<Rightarrow> bool \<Rightarrow> SchedulerState option \<Rightarrow>
     SchedulerState option \<times> (SchedulerSnapshot, SchedulerError) result" where
  "initialize_with_node info config overrides stored state = (case state of
     Some st \<Rightarrow>
       (let gpu_specs = derive_gpu_specs overrides info in
        if gpu_devices (snapshot st) = [] \<and> gpu_specs \<noteq> [] then
          (case settle stored state (populate_gpu_devices (version (snapshot st)) gpu_specs state) of
             (state', Inr updated) \<Rightarrow> (state', Ok updated)
           | (state', Inl e) \<Rightarrow> (state', Ok (snapshot st)))
        else (state, Ok (snapshot st)))
   | None \<Rightarrow>
       (case settle stored state (init_resources (derive_slot_specs info config) (derive_gpu_specs overrides info) state) of
          (state', Inr s) \<Rightarrow> (state', Ok s)
        | (state', Inl (AlreadyInitialized s)) \<Rightarrow> (state', Ok s)
        | (state', Inl e) \<Rightarrow> (state', Err e)))"

text \<open>One of \<open>n\<close> parts of an amount that differ by at most one.\<close>

definition even_share :: "nat \<Rightarrow> nat \<Rightarrow> nat \<Rightarrow> bool" where
  "even_share amount n part \<longleftrightarrow> part = amount div n \<or> part = amount div n + 1"

text \<open>The slots of a node, as a function of its CPU and memory.\<close>

definition node_slots :: "u64 \<Rightarrow> u64 \<Rightarrow> u64 \<Rightarrow> ResourceSlot list" where
  "node_slots cpu memory n = map (\<lambda>i. \<lparr>resource_key = of_nat i, resource_info =
     \<lparr>cpu_millis = split_even_capacity cpu (of_nat i) n, memory_bytes = split_even_capacity memory (of_nat i) n,
       gpu_count = 0\<rparr>, resource_state = Free\<rparr>) [0..<unat n]"

section \<open>Specifications with distinct keys\<close>

lemma dedup_by_key_distinct:
  "distinct (map f xs) \<Longrightarrow> dedup_by_key f xs = xs"
  by (induction f xs rule: dedup_by_key.induct) auto

lemma materialize_sorted:
  assumes "sorted_wrt (<) (map spec_key specs)"
  shows "materialize specs = map (\<lambda>spec. \<lparr>resource_key = spec_key spec, resource_info = spec_info spec,
     resource_state = Free\<rparr>) specs"
  using assms by (simp add: materialize_def dedup_by_key_distinct sort_key_id_if_sorted strict_sorted_iff)

lemma dedup_by_key_keys:
  "sorted (map f xs) \<Longrightarrow> sorted_wrt (<) (map f (dedup_by_key f xs)) \<and> f ` set (dedup_by_key f xs) = f ` set xs"
proof (induction f xs rule: dedup_by_key.induct)
  case (1 f x y ys)
  show ?case
  proof (cases "f x = f y")
    case True
    then show ?thesis
      using 1 by auto
  next
    case False
    then have ih: "sorted_wrt (<) (map f (dedup_by_key f (y # ys)))"
        "f ` set (dedup_by_key f (y # ys)) = f ` set (y # ys)"
      using 1 by simp_all
    have "f x < k" if "k \<in> f ` set (y # ys)" for k
      using 1(3) False that by fastforce
    then have "sorted_wrt (<) (f x # map f (dedup_by_key f (y # ys)))"
      using ih by auto
    then show ?thesis
      using False ih(2) by auto
  qed
qed auto

lemma materialize_keys:
  "sorted_wrt (<) (map resource_key (materialize specs))"
  "resource_key ` set (materialize specs) = spec_key ` set specs"
  using dedup_by_key_keys [of spec_key "sort_key spec_key specs"]
  by (auto simp: materialize_def comp_def image_image)

lemma materialize_free: "r \<in> set (materialize specs) \<Longrightarrow> resource_state r = Free"
  by (auto simp: materialize_def)

lemma sorted_strict_distinct: "sorted_wrt (<) (xs :: 'k::linorder list) \<Longrightarrow> distinct xs"
  by (simp add: strict_sorted_iff)

lemma leases_of_materialize: "leases_of (materialize specs) = {}"
  by (auto simp: leases_of_def dest: materialize_free)

lemma init_snapshot_ok:
  "snapshot_ok \<lparr>version = v, slots = materialize slot_specs, gpu_devices = materialize gpu_specs\<rparr>"
  by (simp add: snapshot_ok_def keys_def all_leases_def materialize_keys sorted_strict_distinct leases_of_materialize)

lemma populate_snapshot_ok:
  assumes "snapshot_ok (snapshot st)" "populate_gpu_devices v gpu_specs (Some st) = Publish s r"
  shows "snapshot_ok s \<and> slots s = slots (snapshot st) \<and> r = s \<and> version s = v + 1"
proof -
  have s: "s = (snapshot st)\<lparr>gpu_devices := materialize gpu_specs, version := v + 1\<rparr>" "r = s"
    using assms(2) by (auto simp: populate_gpu_devices_def publish_def next_snapshot_version_def split: if_splits)
  have "inj_on lease_id (leases_of (slots (snapshot st)))"
    using assms(1) by (auto simp: snapshot_ok_def all_leases_def intro: inj_on_subset)
  then show ?thesis
    using assms(1) unfolding s
    by (simp add: snapshot_ok_def all_leases_def leases_of_materialize keys_def materialize_keys sorted_strict_distinct)
qed

section \<open>Equal shares\<close>

lemma u64_lt: "unat (w :: u64) < 2 ^ 64"
  by (rule order.strict_trans2 [OF unsigned_less]) simp

lemma unat_split_even_capacity:
  assumes "n \<noteq> 0" "i < unat n"
  shows "unat (split_even_capacity t (of_nat i) n) = unat t div unat n + (if i < unat t mod unat n then 1 else 0)"
proof -
  have i: "unat (of_nat i :: u64) = i"
    using assms(2) u64_lt [of n] by (simp add: unat_of_nat take_bit_nat_eq_self)
  show ?thesis
  proof (cases "t = 0")
    case False
    have "unat t div unat n + 1 \<le> 2 ^ 64 - 1" if "0 < unat t mod unat n"
    proof -
      have "1 < unat n"
        using that assms(1) by (metis less_numeral_extra(3) less_one linorder_neqE_nat mod_by_1 unat_eq_zero)
      then have "unat t div unat n < unat t"
        using False by (intro div_less_dividend) (simp_all add: unat_gt_0)
      then show ?thesis
        using u64_lt [of t] by simp
    qed
    then show ?thesis
      using assms(1) False i
      by (auto simp: split_even_capacity_def word_less_nat_alt unat_mod unat_div unat_saturating_add min_def)
  qed (simp add: split_even_capacity_def)
qed

lemma sum_first: "(\<Sum>i<n. if i < k then 1 else 0) = min n (k :: nat)"
  by (induction n) auto

lemma sum_shares: "(\<Sum>i<n. t div n + (if i < t mod n then 1 else 0)) = t" if "0 < n" for n t :: nat
  using mod_less_divisor [OF that, of t] by (simp add: sum.distrib sum_first)

lemma sum_split_even_capacity:
  assumes "n \<noteq> 0"
  shows "(\<Sum>i\<leftarrow>[0..<unat n]. unat (split_even_capacity t (of_nat i) n)) = unat t"
proof -
  have "(\<Sum>i\<leftarrow>[0..<unat n]. unat (split_even_capacity t (of_nat i) n)) =
      (\<Sum>i<unat n. unat t div unat n + (if i < unat t mod unat n then 1 else 0))"
    unfolding interv_sum_list_conv_sum_set_nat
    by (rule sum.cong) (use unat_split_even_capacity [OF assms] in auto)
  then show ?thesis
    using sum_shares [of "unat n" "unat t"] assms by (simp add: unat_gt_0)
qed

section \<open>Slots of a node\<close>

lemma min_max_zero:
  fixes a b :: u64
  shows "min a b = 0 \<longleftrightarrow> a = 0 \<or> b = 0" "max a b = 0 \<longleftrightarrow> a = 0 \<and> b = 0"
  by (auto simp: min_def max_def word_le_0_iff)

lemma slot_count_pos: "slot_count cpu memory config = 0 \<longleftrightarrow> cpu = 0 \<and> memory = 0"
proof -
  have "wanted_slots a t = 0 \<longleftrightarrow> a = 0" for a t
    by (simp add: wanted_slots_def min_max_zero word_gt_0)
  then show ?thesis
    by (auto simp: slot_count_def Let_def min_max_zero SCHEDULER_MAX_SLOT_COUNT_def word_gt_0)
qed

lemma slot_count_bounds:
  "slot_count cpu memory config \<le> SCHEDULER_MAX_SLOT_COUNT"
  "slot_count cpu memory config \<le> max (max_slots config) 1"
  "0 < cpu \<Longrightarrow> slot_count cpu memory config \<le> cpu"
  "0 < memory \<Longrightarrow> slot_count cpu memory config \<le> memory"
  by (simp_all add: slot_count_def Let_def min_le_iff_disj)

lemma of_nat_u64_sorted: "n \<le> 2 ^ 64 \<Longrightarrow> sorted_wrt (<) (map (of_nat :: nat \<Rightarrow> u64) [0..<n])"
  by (auto simp: sorted_wrt_iff_nth_less word_less_nat_alt unat_of_nat take_bit_nat_eq_self)

lemma derive_slot_specs_keys: "sorted_wrt (<) (map spec_key (derive_slot_specs info config))"
  using of_nat_u64_sorted [OF less_imp_le [OF u64_lt]] by (simp add: derive_slot_specs_def Let_def comp_def)

lemma collect_gpu_specs_keys:
  "distinct (map spec_key (collect_gpu_specs overrides seen devices))
   \<and> spec_key ` set (collect_gpu_specs overrides seen devices) \<inter> seen = {}"
proof (induction overrides seen devices rule: collect_gpu_specs.induct)
  case (2 overrides seen device devices)
  then show ?case
    by (auto split: option.split)
qed simp

lemma derive_gpu_specs_keys: "sorted_wrt (<) (map spec_key (derive_gpu_specs overrides info))"
proof (cases "gpu_info info")
  case (Some devices)
  have "distinct (map spec_key (sort_key spec_key (collect_gpu_specs overrides {} devices)))"
    using collect_gpu_specs_keys [of overrides "{}" devices] by (simp add: distinct_map)
  with Some show ?thesis
    by (simp add: derive_gpu_specs_def strict_sorted_iff)
qed (simp add: derive_gpu_specs_def)

lemma split_even_capacity_0: "split_even_capacity 0 i n = 0"
  by (simp add: split_even_capacity_def)

lemma split_even_capacity_share:
  assumes "i < unat n"
  shows "even_share (unat t) (unat n) (unat (split_even_capacity t (of_nat i) n))"
    "0 < t \<Longrightarrow> n \<le> t \<Longrightarrow> 0 < split_even_capacity t (of_nat i) n"
proof -
  have n: "n \<noteq> 0"
    using assms by auto
  note u = unat_split_even_capacity [OF n assms]
  show "even_share (unat t) (unat n) (unat (split_even_capacity t (of_nat i) n))"
    unfolding u even_share_def by simp
  assume "0 < t" "n \<le> t"
  then have "0 < unat t div unat n"
    using n by (simp add: div_greater_zero_iff word_le_nat_alt unat_gt_0)
  then show "0 < split_even_capacity t (of_nat i) n"
    unfolding word_less_nat_alt u by simp
qed

lemma materialize_slots: "materialize (derive_slot_specs info config) =
    node_slots (allocatable_cpu_millis info config) (allocatable_memory info config)
      (slot_count (allocatable_cpu_millis info config) (allocatable_memory info config) config)"
  unfolding materialize_sorted [OF derive_slot_specs_keys]
  by (simp add: node_slots_def derive_slot_specs_def Let_def)

lemma node_slots_shares:
  assumes "n \<noteq> 0 \<or> cpu = 0 \<and> memory = 0"
  shows "length (node_slots cpu memory n) = unat n"
    "keys (node_slots cpu memory n) = map of_nat [0..<unat n]"
    "map resource_state (node_slots cpu memory n) = replicate (unat n) Free"
    "(\<Sum>r\<leftarrow>node_slots cpu memory n. unat (cpu_millis (resource_info r))) = unat cpu"
    "(\<Sum>r\<leftarrow>node_slots cpu memory n. unat (memory_bytes (resource_info r))) = unat memory"
    "list_all (\<lambda>r. even_share (unat cpu) (unat n) (unat (cpu_millis (resource_info r)))) (node_slots cpu memory n)"
    "list_all (\<lambda>r. even_share (unat memory) (unat n) (unat (memory_bytes (resource_info r)))) (node_slots cpu memory n)"
    "0 < cpu \<Longrightarrow> n \<le> cpu \<Longrightarrow> list_all (\<lambda>r. 0 < cpu_millis (resource_info r)) (node_slots cpu memory n)"
    "0 < memory \<Longrightarrow> n \<le> memory \<Longrightarrow> list_all (\<lambda>r. 0 < memory_bytes (resource_info r)) (node_slots cpu memory n)"
  using assms sum_split_even_capacity [of n] split_even_capacity_share [of _ n]
  by (auto simp: node_slots_def keys_def comp_def list_all_iff map_replicate_const split_even_capacity_0)

section \<open>Properties\<close>

text \<open>
  C18. A scheduler that is initialised from a node publishes a well-formed snapshot of version 0 in
  which everything is free. Its slots are numbered from 0, at most the configured maximum; their CPU
  shares add up to exactly the CPU the node has after its reserve, and differ by at most one; so do
  their memory shares; a share is empty only if the node has none of that resource; there is no slot
  only if it has neither. Its GPU devices are exactly the derived ones, in the order of their
  identifiers.
\<close>

theorem bootstrap_snapshot:
  "\<exists>s. initialize_with_node info config overrides True None = (Some (SchedulerState_new s), Ok s)
     \<and> snapshot_ok s \<and> version s = 0
     \<and> keys (slots s) = map of_nat [0..<length (slots s)]
     \<and> length (slots s) \<le> unat (min (max (max_slots config) 1) SCHEDULER_MAX_SLOT_COUNT)
     \<and> map resource_state (slots s) = replicate (length (slots s)) Free
     \<and> (\<Sum>r\<leftarrow>slots s. unat (cpu_millis (resource_info r))) = unat (allocatable_cpu_millis info config)
     \<and> (\<Sum>r\<leftarrow>slots s. unat (memory_bytes (resource_info r))) = unat (allocatable_memory info config)
     \<and> list_all (\<lambda>r. even_share (unat (allocatable_cpu_millis info config)) (length (slots s))
          (unat (cpu_millis (resource_info r)))) (slots s)
     \<and> list_all (\<lambda>r. even_share (unat (allocatable_memory info config)) (length (slots s))
          (unat (memory_bytes (resource_info r)))) (slots s)
     \<and> (list_all (\<lambda>r. 0 < cpu_millis (resource_info r)) (slots s) \<or> allocatable_cpu_millis info config = 0)
     \<and> (list_all (\<lambda>r. 0 < memory_bytes (resource_info r)) (slots s) \<or> allocatable_memory info config = 0)
     \<and> (slots s = [] \<longleftrightarrow> allocatable_cpu_millis info config = 0 \<and> allocatable_memory info config = 0)
     \<and> map (\<lambda>r. (resource_key r, resource_info r, resource_state r)) (gpu_devices s) =
         map (\<lambda>spec. (spec_key spec, spec_info spec, Free)) (derive_gpu_specs overrides info)
     \<and> sorted_wrt (<) (keys (gpu_devices s))"
proof -
  let ?cpu = "allocatable_cpu_millis info config" and ?memory = "allocatable_memory info config"
  let ?n = "slot_count ?cpu ?memory config"
  let ?s = "\<lparr>version = 0, slots = materialize (derive_slot_specs info config),
    gpu_devices = materialize (derive_gpu_specs overrides info)\<rparr>"
  have n: "?n \<noteq> 0 \<or> ?cpu = 0 \<and> ?memory = 0"
    using slot_count_pos by blast
  note shares = node_slots_shares [OF n]
  have empty: "?n = 0 \<longleftrightarrow> node_slots ?cpu ?memory ?n = []"
    using shares(1) by (metis length_0_conv unat_eq_zero)
  have le: "unat ?n \<le> unat (min (max (max_slots config) 1) SCHEDULER_MAX_SLOT_COUNT)"
    using slot_count_bounds(1,2) by (simp add: word_le_nat_alt [symmetric])
  have pos: "0 < a \<or> a = 0" for a :: u64
    by (simp add: word_gt_0)
  show ?thesis
  proof (intro exI [of _ ?s] conjI)
    show "list_all (\<lambda>r. 0 < cpu_millis (resource_info r)) (slots ?s) \<or> ?cpu = 0"
      using shares(8) slot_count_bounds(3) pos [of ?cpu] by (auto simp: materialize_slots)
    show "list_all (\<lambda>r. 0 < memory_bytes (resource_info r)) (slots ?s) \<or> ?memory = 0"
      using shares(9) slot_count_bounds(4) pos [of ?memory] by (auto simp: materialize_slots)
    show "slots ?s = [] \<longleftrightarrow> ?cpu = 0 \<and> ?memory = 0"
      using empty slot_count_pos by (simp add: materialize_slots)
    show "snapshot_ok ?s"
      by (rule init_snapshot_ok)
    show "sorted_wrt (<) (keys (gpu_devices ?s))"
      using materialize_keys(1) by (simp add: keys_def)
  qed (simp_all add: initialize_with_node_def init_resources_def settle_def Let_def materialize_slots shares le
      materialize_sorted [OF derive_gpu_specs_keys] comp_def)
qed

end
