(* ===== verification/Spec2Isabelle.thy ===== *)
theory Spec2Isabelle
  imports Volume_Control_Log Volume_Admission_Concurrent Mvreg Overlay_Allocator Health
    Service_Dependencies Service_Ordering Scheduler_Publication Scheduler_Resources
begin

text \<open>
  A verification library for Mantissa, a cluster orchestrator written in Rust. Nodes detect each
  other's failures by gossip, replicate their tables as multi-value registers, give overlay
  networks their subnets and addresses, order and choose service deployments, lease and reserve
  local resources for tasks, and keep replicated volumes whose control state a Raft group agrees
  on. The library models the state machines and algorithms at the core of these parts. Paths below
  are relative to \<open>src/\<close>.

  \<^bold>\<open>How Rust is read.\<close> Structs are records, enums datatypes. Machine integers are words of their
  width, with wrapping, checked and saturating operations as in the source. \<open>Result\<close> is a sum with
  the error on the left, \<open>Option\<close> is \<open>option\<close>. A function that can panic returns an option, and
  that it does not panic is proved. Loops are recursive functions with termination proofs. Clocks,
  random identifiers, hashes, and the parsers and tables of other packages are arguments; what is
  assumed of them is a named hypothesis, and every theorem with a hypothesis is applied at a
  concrete input by its witness.

  \<^bold>\<open>Shared theories.\<close>
  \<^item> \<open>Prelude\<close>: word types, results, checked and saturating operations, option combinators, and the
    collection \<open>word_arith\<close> that reads word operations as numbers.
  \<^item> \<open>Rust_Ord\<close>, \<open>Rust_Text\<close>, \<open>Btree\<close>: what is used of \<open>std::cmp\<close>, \<open>str\<close> and \<open>BTreeMap\<close>. The
    locales \<open>comparator\<close> and \<open>ordered_map\<close> are their contracts.
  \<^item> \<open>Epoch_Machine\<close>: the locale of machines whose authority changes only with their epoch.
  \<^item> \<open>Dominance\<close>: the locale of a causal order; union followed by maxima is a semilattice.

  \<^bold>\<open>Volumes\<close> (\<open>crates/mantissa-volume/src\<close>).
  \<^item> \<open>Volume_Identity\<close> (\<open>identity.rs\<close>) and \<open>Volume_Descriptor\<close> (\<open>block_sizes.rs\<close>,
    \<open>descriptor.rs\<close>): checked names, epochs, sizes and block addressing.
  \<^item> \<open>Volume_Control\<close> (\<open>control_state.rs\<close>): the control state, its invariant, and the ten commands,
    each a function to a plan. \<open>Volume_Control_Log\<close>: evaluation keeps the invariant without
    panicking; over whole histories the fence names one copy set and writer, a retry is answered and
    not applied again, one command wins a revision, and storage identity is kept. The control state
    interprets \<open>epoch_machine\<close>.
  \<^item> \<open>Volume_Admission\<close> (\<open>storage/replica_file/io_admission.rs\<close>): publication of applied states and
    admission of requests. \<open>Volume_Admission_Concurrent\<close>: the same methods split into their atomic
    accesses and interleaved by any number of threads. Fences exclude older requests, a removed gate
    stays silent, the counts equal the permits held, and without interference the accesses compose
    to the straight-line methods.

  \<^bold>\<open>Replication\<close> (\<open>crates/mantissa-store/src/mvreg.rs\<close>). \<open>Mvreg\<close>: vector clocks and registers with
  write, put, merge and compaction. Merging converges, a write supersedes what it has seen, and
  compaction is bounded and absorbs what was dropped. Clocks interpret \<open>dominance\<close>.

  \<^bold>\<open>Networks\<close> (\<open>src/network\<close>).
  \<^item> \<open>Network_Cidr\<close> (\<open>defaults.rs\<close>): CIDR blocks and two prefix tries that refine a multiset of
    blocks; parsed texts overlap exactly if the ranges of numbers they denote do; the search for a
    default subnet. The locale \<open>overlap_index\<close> is the contract of the index.
  \<^item> \<open>Overlay_Allocator\<close> (\<open>allocator.rs\<close>, and the service address of \<open>discovery.rs\<close>): layout,
    double-hash probing with a coprime stride, and the classes of addresses. Allocation succeeds
    while probes times slots fit in 128 bits; beyond that the saturating product can exhaust the
    probe window of an almost empty subnet.

  \<^bold>\<open>Failure detection\<close> (\<open>crates/mantissa-health/src/lib.rs\<close>). \<open>Health\<close>: the SWIM monitor with its
  clock as an argument. Invariants of all calls, convergence of rumours in any order, refutation,
  detection of unreachable peers, fairness of probing.

  \<^bold>\<open>Services\<close> (\<open>src/services\<close>).
  \<^item> \<open>Service_Dependencies\<close> (\<open>dependencies.rs\<close>): the stages of a deployment are the layers of the
    dependency graph; a manifest is accepted exactly if it is well-formed and acyclic.
  \<^item> \<open>Service_Ordering\<close> (\<open>ordering.rs\<close>, and the choice of a row in \<open>registry.rs\<close>): within one
    manifest the preference is a comparator and the choice is independent of the order of the rows;
    what an accepted update can put in the place of a stop; across manifests the preference has a
    cycle, whatever the timestamps.

  \<^bold>\<open>Scheduler\<close> (\<open>src/scheduler\<close>).
  \<^item> \<open>Scheduler_State\<close> (\<open>types.rs\<close>, \<open>state.rs\<close>): snapshots and the indices built from them. Slots
    and GPU devices are one polymorphic resource, because the code treats them by the same steps.
  \<^item> \<open>Scheduler_Transactions\<close> (\<open>reservations.rs\<close>, \<open>leases.rs\<close>): reservations, leases, commits, aborts
    and reaping, each as one round up to the publication, on every branch.
  \<^item> \<open>Scheduler_Selection\<close>: the greedy choice of slots ends and succeeds exactly if the free slots
    suffice. \<open>Scheduler_Safety\<close>: no round panics, snapshots stay well-formed, and no operation takes
    a resource from a holder it has no authority over.
  \<^item> \<open>Scheduler_Publication\<close>: concurrent calls as a step relation of loads, compare-and-swaps, store
    writes and rollbacks. Every acknowledged change stays part of the published state; a change
    whose store write failed may stay too, when another call has published on top of it.
  \<^item> \<open>Scheduler_Resources\<close> (\<open>resources.rs\<close>, and overrides of \<open>gpu.rs\<close>): the slots of a node share
    out exactly what it has after its reserve.

  \<^bold>\<open>Bounds and fuel.\<close> No model uses fuel. Every loop is shown to end: the slot selection removes a
  candidate in each round, the stages place a template in each round, the stride search stops within
  the number of slots. The step relations place no bound on the number of threads, calls or steps.

  \<^bold>\<open>Idealisations.\<close> Strings are lists of Latin-1 characters. A pointer of the scheduler is a number
  that is never reused, because a loaded \<open>Arc\<close> keeps its target alive. The scheduler's store is a row
  that takes the last write or fails without effect. The failure detector's methods run one at a time.
  Initialisation of the scheduler is modelled without a competing call, and the interleaved calls
  start from an initialised scheduler.

  \<^bold>\<open>Not modelled.\<close>
  \<^item> Packages outside the sources: openraft, redb, the Merkle search tree, the Docker client, the
    cryptographic and the Cap'n Proto packages; with them the Raft crate, the store engine
    (\<open>mst_store.rs\<close>), anti-entropy, secrets and the network transport, which consist of calls to them.
  \<^item> Host input and output: volume storage files, block devices and file systems, netlink, BPF
    programs and maps, WireGuard, container and sandbox runtimes.
  \<^item> Asynchronous controllers that only sequence calls to the parts above: workload manager, service
    manager and rollouts, volume controllers, jobs, agents, topology, cluster registry, ingress.
  \<^item> The placement constraints and preferences of the scheduler and the digests it exchanges with other
    nodes (\<open>placement.rs\<close>, \<open>digest.rs\<close>, \<open>summary.rs\<close>), which do not change the resources modelled here.
  \<^item> The volume state machine (\<open>state_machine.rs\<close>), which carries the modelled commands and the encoded
    control state between Raft and the storage.
  \<^item> Configuration, command line, client, REST interface, user interface, logging and metrics.
\<close>

end
